theory Spec2Isabelle
  imports Complex_Main "HOL-Library.Word"
begin

unbundle bit_operations_syntax

section \<open>Terms, term kinds and descriptors\<close>

text \<open>
  The literal collector of \<^verbatim>\<open>literal_collector.c\<close> works on the hash-consed term table
  of the solver. A term is a 32-bit signed integer \<^verbatim>\<open>term_t\<close>; no arithmetic that could
  overflow is done on it (only masking and flipping of the low bit), so it is modelled as
  an \<open>int\<close>.
\<close>

type_synonym term_t = int
type_synonym value_t = int

text \<open>
  Modelled from the spec: the header \<^verbatim>\<open>terms.h\<close> is not among the sources. A term packs an
  index and a polarity, the polarity being the low bit; negation flips that bit;
  \<^verbatim>\<open>true_term\<close> and \<^verbatim>\<open>false_term\<close> are the two polarities of the index
  \<^verbatim>\<open>bool_const\<close> (as \<^verbatim>\<open>term_explorer.c\<close> asserts), \<^verbatim>\<open>NULL_TERM\<close> is the
  sentinel of the cache, and \<^verbatim>\<open>const_idx\<close> marks the constant monomial of a polynomial.
\<close>

definition NULL_TERM :: term_t where
  "NULL_TERM = -1"

definition const_idx :: term_t where
  "const_idx = 0"

definition bool_const :: int where
  "bool_const = 1"

definition true_term :: term_t where
  "true_term = 2"

definition false_term :: term_t where
  "false_term = 3"

definition polarity_of :: "term_t \<Rightarrow> int" where
  "polarity_of t = t AND 1"

definition unsigned_term :: "term_t \<Rightarrow> term_t" where
  "unsigned_term t = t AND NOT 1"

definition opposite_term :: "term_t \<Rightarrow> term_t" where
  "opposite_term t = t XOR 1"

definition bool2term :: "bool \<Rightarrow> term_t" where
  "bool2term b = (if b then true_term else false_term)"

text \<open>The term kinds, in the order of the tables of \<^verbatim>\<open>term_explorer.c\<close>.\<close>

datatype term_kind =
    UNUSED_TERM | RESERVED_TERM
  | CONSTANT_TERM | ARITH_CONSTANT | BV64_CONSTANT | BV_CONSTANT
  | VARIABLE | UNINTERPRETED_TERM
  | ARITH_EQ_ATOM | ARITH_GE_ATOM
  | ITE_TERM | ITE_SPECIAL | APP_TERM | UPDATE_TERM | TUPLE_TERM
  | EQ_TERM | DISTINCT_TERM | FORALL_TERM | LAMBDA_TERM
  | OR_TERM | XOR_TERM | ARITH_BINEQ_ATOM
  | BV_ARRAY | BV_DIV | BV_REM | BV_SDIV | BV_SREM | BV_SMOD
  | BV_SHL | BV_LSHR | BV_ASHR
  | BV_EQ_ATOM | BV_GE_ATOM | BV_SGE_ATOM
  | SELECT_TERM | BIT_TERM
  | POWER_PRODUCT | ARITH_POLY | BV64_POLY | BV_POLY

text \<open>
  Descriptors. A \<^verbatim>\<open>composite_term_t\<close> is the array of its children, its arity being the
  length; a \<^verbatim>\<open>select_term_t\<close> is an index and an argument; a power product is an array
  of (variable, exponent); a polynomial is an array of (coefficient, variable) monomials.
  The collector never looks at a coefficient or an exponent.
\<close>

type_synonym composite_term_t = "term_t list"
type_synonym select_term_t = "nat \<times> term_t"
type_synonym pprod_t = "(term_t \<times> 32 word) list"
type_synonym polynomial_t = "(rat \<times> term_t) list"
type_synonym bvpoly64_t = "(64 word \<times> term_t) list"
type_synonym bvpoly_t = "(32 word list \<times> term_t) list"

text \<open>
  The term table, read-only for the collector. Terms are hash-consed and a descriptor
  never changes once its term exists, so each accessor is a function of the term. The
  accessors \<^verbatim>\<open>ite_term_desc\<close>, \<^verbatim>\<open>app_term_desc\<close>, \<^verbatim>\<open>or_term_desc\<close>, ... of the
  source all return the composite descriptor of the term: they are the one field
  \<open>composite_term_desc\<close>; likewise \<^verbatim>\<open>bit_term_desc\<close> is \<open>select_term_desc\<close>.
\<close>

record term_table_t =
  good_term :: "term_t \<Rightarrow> bool"
  term_kind :: "term_t \<Rightarrow> term_kind"
  is_boolean_term :: "term_t \<Rightarrow> bool"
  arith_eq_arg :: "term_t \<Rightarrow> term_t"
  arith_ge_arg :: "term_t \<Rightarrow> term_t"
  composite_term_desc :: "term_t \<Rightarrow> composite_term_t"
  select_term_desc :: "term_t \<Rightarrow> select_term_t"
  pprod_term_desc :: "term_t \<Rightarrow> pprod_t"
  poly_term_desc :: "term_t \<Rightarrow> polynomial_t"
  bvpoly64_term_desc :: "term_t \<Rightarrow> bvpoly64_t"
  bvpoly_term_desc :: "term_t \<Rightarrow> bvpoly_t"

text \<open>
  The term manager: one constructor per rebuild of the collector, with the arguments of
  the C call. A constructor returns the canonical (hash-consed, possibly simplified)
  term for its arguments. An argument \<^verbatim>\<open>a+1\<close> of the source is the rest of the array.
\<close>

record term_manager_t =
  mk_arith_term_eq0 :: "term_t \<Rightarrow> term_t"
  mk_arith_term_geq0 :: "term_t \<Rightarrow> term_t"
  mk_application :: "term_t \<Rightarrow> nat \<Rightarrow> term_t list \<Rightarrow> term_t"
  mk_update :: "term_t \<Rightarrow> nat \<Rightarrow> term_t list \<Rightarrow> term_t \<Rightarrow> term_t"
  mk_tuple :: "nat \<Rightarrow> term_t list \<Rightarrow> term_t"
  mk_eq :: "term_t \<Rightarrow> term_t \<Rightarrow> term_t"
  mk_distinct :: "nat \<Rightarrow> term_t list \<Rightarrow> term_t"
  mk_arith_eq :: "term_t \<Rightarrow> term_t \<Rightarrow> term_t"
  mk_bvarray :: "nat \<Rightarrow> term_t list \<Rightarrow> term_t"
  mk_bvdiv :: "term_t \<Rightarrow> term_t \<Rightarrow> term_t"
  mk_bvrem :: "term_t \<Rightarrow> term_t \<Rightarrow> term_t"
  mk_bvsdiv :: "term_t \<Rightarrow> term_t \<Rightarrow> term_t"
  mk_bvsrem :: "term_t \<Rightarrow> term_t \<Rightarrow> term_t"
  mk_bvsmod :: "term_t \<Rightarrow> term_t \<Rightarrow> term_t"
  mk_bvshl :: "term_t \<Rightarrow> term_t \<Rightarrow> term_t"
  mk_bvlshr :: "term_t \<Rightarrow> term_t \<Rightarrow> term_t"
  mk_bvashr :: "term_t \<Rightarrow> term_t \<Rightarrow> term_t"
  mk_bveq :: "term_t \<Rightarrow> term_t \<Rightarrow> term_t"
  mk_bvge :: "term_t \<Rightarrow> term_t \<Rightarrow> term_t"
  mk_bvsge :: "term_t \<Rightarrow> term_t \<Rightarrow> term_t"
  mk_select :: "nat \<Rightarrow> term_t \<Rightarrow> term_t"
  mk_bitextract :: "term_t \<Rightarrow> nat \<Rightarrow> term_t"
  mk_pprod :: "pprod_t \<Rightarrow> nat \<Rightarrow> term_t list \<Rightarrow> term_t"
  mk_arith_poly :: "polynomial_t \<Rightarrow> nat \<Rightarrow> term_t list \<Rightarrow> term_t"
  mk_bvarith64_poly :: "bvpoly64_t \<Rightarrow> nat \<Rightarrow> term_t list \<Rightarrow> term_t"
  mk_bvarith_poly :: "bvpoly_t \<Rightarrow> nat \<Rightarrow> term_t list \<Rightarrow> term_t"

text \<open>
  The error codes of \<^verbatim>\<open>literal_collector.h\<close> (not among the sources) are kept symbolic;
  \<open>error_code\<close> below gives the integer of each.
\<close>

datatype lit_collect_error =
    LIT_COLLECT_EVAL_FAILED
  | LIT_COLLECT_FREEVAR_IN_TERM
  | LIT_COLLECT_QUANTIFIER
  | LIT_COLLECT_LAMBDA
  | LIT_COLLECT_INTERNAL_ERROR

text \<open>
  Everything the collector is given: whether \<^verbatim>\<open>NDEBUG\<close> is defined (then \<^verbatim>\<open>assert\<close>
  does nothing), the term table, the term manager, the evaluator of the model
  (\<^verbatim>\<open>eval_in_model\<close> returns a negative value on failure), the test \<^verbatim>\<open>is_true\<close> of the
  value table, and the integers of the error codes.
\<close>

record lit_env =
  ndebug :: bool
  terms :: term_table_t
  manager :: term_manager_t
  eval_in_model :: "term_t \<Rightarrow> value_t"
  is_true :: "value_t \<Rightarrow> bool"
  error_code :: "lit_collect_error \<Rightarrow> int"

section \<open>The collector state and its control flow\<close>

text \<open>
  The mutable part of \<^verbatim>\<open>lit_collector_t\<close>: the cache (an \<^verbatim>\<open>int_hmap\<close>), the set of
  literals (an \<^verbatim>\<open>int_hset\<close>) and the scratch stack. The hash set is kept as the list of
  its elements without duplicates, in the order of insertion (the order of the real hash
  set is the implementation's own; no statement below depends on it). The scratch stack
  is the list of the sizes of the arrays allocated and not yet freed, the last allocated
  first; the content of an array is a local value of the function that allocated it.
\<close>

record lit_collector_t =
  cache :: "term_t \<rightharpoonup> term_t"
  lit_set :: "term_t list"
  stack :: "nat list"

text \<open>
  A call either returns, or leaves by \<^verbatim>\<open>longjmp\<close> with an error, or stops at a failed
  \<^verbatim>\<open>assert\<close> (only without \<^verbatim>\<open>NDEBUG\<close>), or reads past the end of an array (undefined in
  C), or, in this model, runs out of fuel (the recursion did not end within the bound).
  The state is kept in every case: nothing is rolled back.
\<close>

datatype stop_t = Longjmp lit_collect_error | AssertFail | Undefined | OutOfFuel

datatype 'a outcome = Return 'a | Stop stop_t

type_synonym 'a lc = "lit_collector_t \<Rightarrow> 'a outcome \<times> lit_collector_t"

definition lc_return :: "'a \<Rightarrow> 'a lc" where
  "lc_return x = (\<lambda>c. (Return x, c))"

definition lc_stop :: "stop_t \<Rightarrow> 'a lc" where
  "lc_stop s = (\<lambda>c. (Stop s, c))"

definition lc_bind :: "'a lc \<Rightarrow> ('a \<Rightarrow> 'b lc) \<Rightarrow> 'b lc" where
  "lc_bind m f = (\<lambda>c. case m c of (Return x, c') \<Rightarrow> f x c' | (Stop s, c') \<Rightarrow> (Stop s, c'))"

definition lc_longjmp :: "lit_collect_error \<Rightarrow> 'a lc" where
  "lc_longjmp e = lc_stop (Longjmp e)"

definition lc_assert :: "lit_env \<Rightarrow> bool \<Rightarrow> unit lc" where
  "lc_assert E b = (if ndebug E \<or> b then lc_return () else lc_stop AssertFail)"

definition composite_arg :: "composite_term_t \<Rightarrow> nat \<Rightarrow> term_t lc" where
  "composite_arg d i = (if i < length d then lc_return (d ! i) else lc_stop Undefined)"

definition alloc_istack_array :: "nat \<Rightarrow> unit lc" where
  "alloc_istack_array n = (\<lambda>c. (Return (), c\<lparr>stack := n # stack c\<rparr>))"

definition free_istack_array :: "unit lc" where
  "free_istack_array = (\<lambda>c. (Return (), c\<lparr>stack := tl (stack c)\<rparr>))"

definition reset_istack :: "lit_collector_t \<Rightarrow> lit_collector_t" where
  "reset_istack c = c\<lparr>stack := []\<rparr>"

definition int_hset_add :: "term_t \<Rightarrow> unit lc" where
  "int_hset_add t = (\<lambda>c. (Return (), if t \<in> set (lit_set c) then c else c\<lparr>lit_set := lit_set c @ [t]\<rparr>))"

definition init_lit_collector :: lit_collector_t where
  "init_lit_collector = \<lparr>cache = Map.empty, lit_set = [], stack = []\<rparr>"

definition reset_lit_collector :: "lit_collector_t \<Rightarrow> lit_collector_t" where
  "reset_lit_collector c = c\<lparr>cache := Map.empty, lit_set := [], stack := []\<rparr>"

section \<open>Cache, model and atoms\<close>

definition lit_collector_find_cached_term :: "lit_env \<Rightarrow> term_t \<Rightarrow> term_t lc" where
  "lit_collector_find_cached_term E t =
     lc_bind (lc_assert E (good_term (terms E) t)) (\<lambda>_ c.
       case cache c t of
         None \<Rightarrow> lc_return NULL_TERM c
       | Some u \<Rightarrow> lc_bind (lc_assert E (good_term (terms E) u)) (\<lambda>_. lc_return u) c)"

text \<open>
  \<^verbatim>\<open>int_hmap_get\<close> returns the record of the key, a new one of value \<open>-1\<close> when the key is
  absent; the assertion is on that value.
\<close>

definition lit_collector_cache_result :: "lit_env \<Rightarrow> term_t \<Rightarrow> term_t \<Rightarrow> unit lc" where
  "lit_collector_cache_result E t u =
     lc_bind (lc_assert E (good_term (terms E) t \<and> good_term (terms E) u)) (\<lambda>_ c.
       lc_bind (lc_assert E ((case cache c t of None \<Rightarrow> -1 | Some w \<Rightarrow> w) = -1))
         (\<lambda>_ c'. (Return (), c'\<lparr>cache := (cache c')(t \<mapsto> u)\<rparr>)) c)"

definition term_is_true_in_model :: "lit_env \<Rightarrow> term_t \<Rightarrow> bool lc" where
  "term_is_true_in_model E t =
     lc_bind (lc_assert E (is_boolean_term (terms E) t)) (\<lambda>_.
       let v = eval_in_model E t in
       if v < 0 then lc_longjmp LIT_COLLECT_EVAL_FAILED
       else lc_return (is_true E v))"

text \<open>The variant for debugging exists only without \<^verbatim>\<open>NDEBUG\<close> and is used only in assertions.\<close>

definition is_true_in_model :: "lit_env \<Rightarrow> term_t \<Rightarrow> bool lc" where
  "is_true_in_model E t =
     lc_bind (lc_assert E (is_boolean_term (terms E) t)) (\<lambda>_.
       lc_return (is_true E (eval_in_model E t)))"

definition lc_assert_call :: "lit_env \<Rightarrow> bool lc \<Rightarrow> unit lc" where
  "lc_assert_call E m =
     (if ndebug E then lc_return ()
      else lc_bind m (\<lambda>b. if b then lc_return () else lc_stop AssertFail))"

definition lit_collector_add_literal :: "lit_env \<Rightarrow> term_t \<Rightarrow> unit lc" where
  "lit_collector_add_literal E t =
     lc_bind (lc_assert_call E (is_true_in_model E t)) (\<lambda>_.
       if t \<noteq> true_term then int_hset_add t else lc_return ())"

definition register_atom :: "lit_env \<Rightarrow> term_t \<Rightarrow> term_t lc" where
  "register_atom E t =
     lc_bind (term_is_true_in_model E t) (\<lambda>b.
       let u = (if b then true_term else false_term);
           t' = (if b then t else opposite_term t)
       in lc_bind (lit_collector_add_literal E t') (\<lambda>_. lc_return u))"

section \<open>Recursive processing\<close>

text \<open>
  The loops \<^verbatim>\<open>for (i=0; i<n; i++)\<close> over two arrays advance through both; \<open>n\<close> is the
  bound of the source.
\<close>

fun inequal_arrays :: "term_t list \<Rightarrow> term_t list \<Rightarrow> nat \<Rightarrow> bool" where
  "inequal_arrays (x # a) (y # b) (Suc n) = (if x \<noteq> y then True else inequal_arrays a b n)"
| "inequal_arrays _ _ _ = False"

definition inequal_array_pprod :: "term_t list \<Rightarrow> pprod_t \<Rightarrow> bool" where
  "inequal_array_pprod a p = inequal_arrays a (map fst p) (length p)"

definition inequal_array_poly :: "term_t list \<Rightarrow> polynomial_t \<Rightarrow> bool" where
  "inequal_array_poly a p = inequal_arrays a (map snd p) (length p)"

definition inequal_array_bvpoly64 :: "term_t list \<Rightarrow> bvpoly64_t \<Rightarrow> bool" where
  "inequal_array_bvpoly64 a p = inequal_arrays a (map snd p) (length p)"

definition inequal_array_bvpoly :: "term_t list \<Rightarrow> bvpoly_t \<Rightarrow> bool" where
  "inequal_array_bvpoly a p = inequal_arrays a (map snd p) (length p)"

text \<open>
  \<^verbatim>\<open>lit_collector_visit\<close> is declared before the functions of the term kinds, which call
  it: each of them takes the visitor as its first argument \<open>v\<close>, and the visitor passes
  itself. The loop \<^verbatim>\<open>for (i=0; i<n; i++) a[i] = lit_collector_visit(collect, d->arg[i])\<close>
  is \<open>visit_args\<close>, which returns the array \<open>a\<close>.
\<close>

fun visit_args :: "(term_t \<Rightarrow> term_t lc) \<Rightarrow> term_t list \<Rightarrow> term_t list lc" where
  "visit_args v [] = lc_return []"
| "visit_args v (x # xs) =
     lc_bind (v x) (\<lambda>y. lc_bind (visit_args v xs) (\<lambda>ys. lc_return (y # ys)))"

text \<open>Unsigned 32-bit subtraction, for the counts \<^verbatim>\<open>n-1\<close> and \<^verbatim>\<open>n-2\<close>.\<close>

definition u32_sub :: "nat \<Rightarrow> nat \<Rightarrow> nat" where
  "u32_sub n k = nat ((int n - int k) mod 2 ^ 32)"

definition lit_collector_visit_eq_atom ::
  "(term_t \<Rightarrow> term_t lc) \<Rightarrow> lit_env \<Rightarrow> term_t \<Rightarrow> term_t \<Rightarrow> term_t lc" where
  "lit_collector_visit_eq_atom v E t u =
     lc_bind (v u) (\<lambda>w.
       register_atom E (if w \<noteq> u then mk_arith_term_eq0 (manager E) w else t))"

definition lit_collector_visit_ge_atom ::
  "(term_t \<Rightarrow> term_t lc) \<Rightarrow> lit_env \<Rightarrow> term_t \<Rightarrow> term_t \<Rightarrow> term_t lc" where
  "lit_collector_visit_ge_atom v E t u =
     lc_bind (v u) (\<lambda>w.
       register_atom E (if w \<noteq> u then mk_arith_term_geq0 (manager E) w else t))"

definition lit_collector_visit_ite ::
  "(term_t \<Rightarrow> term_t lc) \<Rightarrow> lit_env \<Rightarrow> term_t \<Rightarrow> composite_term_t \<Rightarrow> term_t lc" where
  "lit_collector_visit_ite v E t ite_d =
     lc_bind (lc_assert E (length ite_d = 3)) (\<lambda>_.
     lc_bind (composite_arg ite_d 0) (\<lambda>c0.
     lc_bind (v c0) (\<lambda>w.
       if w = true_term then lc_bind (composite_arg ite_d 1) v
       else lc_bind (lc_assert E (w = false_term)) (\<lambda>_.
            lc_bind (composite_arg ite_d 2) v))))"

definition lit_collector_visit_app ::
  "(term_t \<Rightarrow> term_t lc) \<Rightarrow> lit_env \<Rightarrow> term_t \<Rightarrow> composite_term_t \<Rightarrow> term_t lc" where
  "lit_collector_visit_app v E t app_d =
     (let n = length app_d in
      lc_bind (lc_assert E (n \<ge> 2)) (\<lambda>_.
      lc_bind (alloc_istack_array n) (\<lambda>_.
      lc_bind (visit_args v app_d) (\<lambda>a.
      let t1 = (if inequal_arrays a app_d n
                then mk_application (manager E) (hd a) (u32_sub n 1) (tl a) else t)
      in lc_bind (if is_boolean_term (terms E) t1 then register_atom E t1 else lc_return t1) (\<lambda>t2.
         lc_bind free_istack_array (\<lambda>_. lc_return t2))))))"

definition lit_collector_visit_update ::
  "(term_t \<Rightarrow> term_t lc) \<Rightarrow> lit_env \<Rightarrow> term_t \<Rightarrow> composite_term_t \<Rightarrow> term_t lc" where
  "lit_collector_visit_update v E t update_d =
     (let n = length update_d in
      lc_bind (lc_assert E (n \<ge> 3)) (\<lambda>_.
      lc_bind (alloc_istack_array n) (\<lambda>_.
      lc_bind (visit_args v update_d) (\<lambda>a.
      let t1 = (if inequal_arrays a update_d n
                then mk_update (manager E) (hd a) (u32_sub n 2) (tl a) (last a) else t)
      in lc_bind free_istack_array (\<lambda>_. lc_return t1)))))"

definition lit_collector_visit_tuple ::
  "(term_t \<Rightarrow> term_t lc) \<Rightarrow> lit_env \<Rightarrow> term_t \<Rightarrow> composite_term_t \<Rightarrow> term_t lc" where
  "lit_collector_visit_tuple v E t tuple_d =
     (let n = length tuple_d in
      lc_bind (lc_assert E (n \<ge> 3)) (\<lambda>_.
      lc_bind (alloc_istack_array n) (\<lambda>_.
      lc_bind (visit_args v tuple_d) (\<lambda>a.
      let t1 = (if inequal_arrays a tuple_d n then mk_tuple (manager E) n a else t)
      in lc_bind free_istack_array (\<lambda>_. lc_return t1)))))"

text \<open>
  The functions of the binary terms differ only in the constructor: two visits, a
  rebuild when a child changed, and for the atoms \<^verbatim>\<open>register_atom\<close>.
\<close>

definition visit_binary ::
  "(term_t \<Rightarrow> term_t lc) \<Rightarrow> lit_env \<Rightarrow> (term_t \<Rightarrow> term_t \<Rightarrow> term_t) \<Rightarrow> term_t
     \<Rightarrow> composite_term_t \<Rightarrow> term_t lc" where
  "visit_binary v E mk t d =
     lc_bind (lc_assert E (length d = 2)) (\<lambda>_.
     lc_bind (composite_arg d 0) (\<lambda>x0.
     lc_bind (v x0) (\<lambda>t1.
     lc_bind (composite_arg d 1) (\<lambda>x1.
     lc_bind (v x1) (\<lambda>t2.
     lc_return (if t1 \<noteq> x0 \<or> t2 \<noteq> x1 then mk t1 t2 else t))))))"

definition lit_collector_visit_eq ::
  "(term_t \<Rightarrow> term_t lc) \<Rightarrow> lit_env \<Rightarrow> term_t \<Rightarrow> composite_term_t \<Rightarrow> term_t lc" where
  "lit_collector_visit_eq v E t eq_d =
     lc_bind (visit_binary v E (mk_eq (manager E)) t eq_d) (register_atom E)"

definition lit_collector_visit_distinct ::
  "(term_t \<Rightarrow> term_t lc) \<Rightarrow> lit_env \<Rightarrow> term_t \<Rightarrow> composite_term_t \<Rightarrow> term_t lc" where
  "lit_collector_visit_distinct v E t distinct_d =
     (let n = length distinct_d in
      lc_bind (lc_assert E (n \<ge> 3)) (\<lambda>_.
      lc_bind (alloc_istack_array n) (\<lambda>_.
      lc_bind (visit_args v distinct_d) (\<lambda>a.
      let t1 = (if inequal_arrays a distinct_d n then mk_distinct (manager E) n a else t)
      in lc_bind free_istack_array (\<lambda>_. register_atom E t1)))))"

text \<open>
  The search \<^verbatim>\<open>for (i=0; i<n; i++) if (term_is_true_in_model(...)) break;\<close> returns the
  value of \<open>i\<close> at its exit, \<open>n\<close> when no disjunct is true. The second loop visits every
  disjunct and keeps the last result in \<open>u\<close>.
\<close>

fun find_true_disjunct :: "lit_env \<Rightarrow> term_t list \<Rightarrow> nat \<Rightarrow> nat lc" where
  "find_true_disjunct E [] i = lc_return i"
| "find_true_disjunct E (x # xs) i =
     lc_bind (term_is_true_in_model E x) (\<lambda>b.
       if b then lc_return i else find_true_disjunct E xs (Suc i))"

fun visit_false_disjuncts ::
  "(term_t \<Rightarrow> term_t lc) \<Rightarrow> lit_env \<Rightarrow> term_t list \<Rightarrow> term_t \<Rightarrow> term_t lc" where
  "visit_false_disjuncts v E [] u = lc_return u"
| "visit_false_disjuncts v E (x # xs) u =
     lc_bind (v x) (\<lambda>u'.
     lc_bind (lc_assert E (u' = false_term)) (\<lambda>_. visit_false_disjuncts v E xs u'))"

definition lit_collector_visit_or ::
  "(term_t \<Rightarrow> term_t lc) \<Rightarrow> lit_env \<Rightarrow> term_t \<Rightarrow> composite_term_t \<Rightarrow> term_t lc" where
  "lit_collector_visit_or v E t or_d =
     (let n = length or_d in
      lc_bind (lc_assert E (n > 0)) (\<lambda>_.
      lc_bind (term_is_true_in_model E t) (\<lambda>b.
        if b then
          lc_bind (find_true_disjunct E or_d 0) (\<lambda>i.
          lc_bind (lc_assert E (i < n)) (\<lambda>_.
          lc_bind (composite_arg or_d i) (\<lambda>x.
          lc_bind (v x) (\<lambda>u.
          lc_bind (lc_assert E (u = true_term)) (\<lambda>_. lc_return u)))))
        else visit_false_disjuncts v E or_d false_term)))"

fun visit_xor_args :: "(term_t \<Rightarrow> term_t lc) \<Rightarrow> lit_env \<Rightarrow> term_t list \<Rightarrow> bool \<Rightarrow> bool lc" where
  "visit_xor_args v E [] b = lc_return b"
| "visit_xor_args v E (x # xs) b =
     lc_bind (v x) (\<lambda>u.
     lc_bind (lc_assert E (u = false_term \<or> u = true_term)) (\<lambda>_.
       visit_xor_args v E xs (b \<noteq> (u = true_term))))"

definition lit_collector_visit_xor ::
  "(term_t \<Rightarrow> term_t lc) \<Rightarrow> lit_env \<Rightarrow> term_t \<Rightarrow> composite_term_t \<Rightarrow> term_t lc" where
  "lit_collector_visit_xor v E t xor_d =
     lc_bind (visit_xor_args v E xor_d False) (\<lambda>b. lc_return (bool2term b))"

definition lit_collector_visit_arith_bineq ::
  "(term_t \<Rightarrow> term_t lc) \<Rightarrow> lit_env \<Rightarrow> term_t \<Rightarrow> composite_term_t \<Rightarrow> term_t lc" where
  "lit_collector_visit_arith_bineq v E t eq_d =
     lc_bind (visit_binary v E (mk_arith_eq (manager E)) t eq_d) (register_atom E)"

definition lit_collector_visit_bvarray ::
  "(term_t \<Rightarrow> term_t lc) \<Rightarrow> lit_env \<Rightarrow> term_t \<Rightarrow> composite_term_t \<Rightarrow> term_t lc" where
  "lit_collector_visit_bvarray v E t bv_d =
     (let n = length bv_d in
      lc_bind (lc_assert E (n \<ge> 1)) (\<lambda>_.
      lc_bind (alloc_istack_array n) (\<lambda>_.
      lc_bind (visit_args v bv_d) (\<lambda>a.
      let t1 = mk_bvarray (manager E) n a
      in lc_bind free_istack_array (\<lambda>_. lc_return t1)))))"

definition lit_collector_visit_bvdiv ::
  "(term_t \<Rightarrow> term_t lc) \<Rightarrow> lit_env \<Rightarrow> term_t \<Rightarrow> composite_term_t \<Rightarrow> term_t lc" where
  "lit_collector_visit_bvdiv v E t d = visit_binary v E (mk_bvdiv (manager E)) t d"

definition lit_collector_visit_bvrem ::
  "(term_t \<Rightarrow> term_t lc) \<Rightarrow> lit_env \<Rightarrow> term_t \<Rightarrow> composite_term_t \<Rightarrow> term_t lc" where
  "lit_collector_visit_bvrem v E t d = visit_binary v E (mk_bvrem (manager E)) t d"

definition lit_collector_visit_bvsdiv ::
  "(term_t \<Rightarrow> term_t lc) \<Rightarrow> lit_env \<Rightarrow> term_t \<Rightarrow> composite_term_t \<Rightarrow> term_t lc" where
  "lit_collector_visit_bvsdiv v E t d = visit_binary v E (mk_bvsdiv (manager E)) t d"

definition lit_collector_visit_bvsrem ::
  "(term_t \<Rightarrow> term_t lc) \<Rightarrow> lit_env \<Rightarrow> term_t \<Rightarrow> composite_term_t \<Rightarrow> term_t lc" where
  "lit_collector_visit_bvsrem v E t d = visit_binary v E (mk_bvsrem (manager E)) t d"

definition lit_collector_visit_bvsmod ::
  "(term_t \<Rightarrow> term_t lc) \<Rightarrow> lit_env \<Rightarrow> term_t \<Rightarrow> composite_term_t \<Rightarrow> term_t lc" where
  "lit_collector_visit_bvsmod v E t d = visit_binary v E (mk_bvsmod (manager E)) t d"

definition lit_collector_visit_bvshl ::
  "(term_t \<Rightarrow> term_t lc) \<Rightarrow> lit_env \<Rightarrow> term_t \<Rightarrow> composite_term_t \<Rightarrow> term_t lc" where
  "lit_collector_visit_bvshl v E t d = visit_binary v E (mk_bvshl (manager E)) t d"

definition lit_collector_visit_bvlshr ::
  "(term_t \<Rightarrow> term_t lc) \<Rightarrow> lit_env \<Rightarrow> term_t \<Rightarrow> composite_term_t \<Rightarrow> term_t lc" where
  "lit_collector_visit_bvlshr v E t d = visit_binary v E (mk_bvlshr (manager E)) t d"

definition lit_collector_visit_bvashr ::
  "(term_t \<Rightarrow> term_t lc) \<Rightarrow> lit_env \<Rightarrow> term_t \<Rightarrow> composite_term_t \<Rightarrow> term_t lc" where
  "lit_collector_visit_bvashr v E t d = visit_binary v E (mk_bvashr (manager E)) t d"

definition lit_collector_visit_bveq ::
  "(term_t \<Rightarrow> term_t lc) \<Rightarrow> lit_env \<Rightarrow> term_t \<Rightarrow> composite_term_t \<Rightarrow> term_t lc" where
  "lit_collector_visit_bveq v E t d =
     lc_bind (visit_binary v E (mk_bveq (manager E)) t d) (register_atom E)"

definition lit_collector_visit_bvge ::
  "(term_t \<Rightarrow> term_t lc) \<Rightarrow> lit_env \<Rightarrow> term_t \<Rightarrow> composite_term_t \<Rightarrow> term_t lc" where
  "lit_collector_visit_bvge v E t d =
     lc_bind (visit_binary v E (mk_bvge (manager E)) t d) (register_atom E)"

definition lit_collector_visit_bvsge ::
  "(term_t \<Rightarrow> term_t lc) \<Rightarrow> lit_env \<Rightarrow> term_t \<Rightarrow> composite_term_t \<Rightarrow> term_t lc" where
  "lit_collector_visit_bvsge v E t d =
     lc_bind (visit_binary v E (mk_bvsge (manager E)) t d) (register_atom E)"

definition lit_collector_visit_select ::
  "(term_t \<Rightarrow> term_t lc) \<Rightarrow> lit_env \<Rightarrow> term_t \<Rightarrow> select_term_t \<Rightarrow> term_t lc" where
  "lit_collector_visit_select v E t select_d =
     (let u = snd select_d; i = fst select_d in
      lc_bind (v u) (\<lambda>w.
      let t1 = (if w \<noteq> u then mk_select (manager E) i w else t)
      in if is_boolean_term (terms E) t1 then register_atom E t1 else lc_return t1))"

definition lit_collector_visit_bit ::
  "(term_t \<Rightarrow> term_t lc) \<Rightarrow> lit_env \<Rightarrow> term_t \<Rightarrow> select_term_t \<Rightarrow> term_t lc" where
  "lit_collector_visit_bit v E t bit_d =
     (let u = snd bit_d; i = fst bit_d in
      lc_bind (v u) (\<lambda>w.
      register_atom E (if w \<noteq> u then mk_bitextract (manager E) w i else t)))"

definition lit_collector_visit_pprod ::
  "(term_t \<Rightarrow> term_t lc) \<Rightarrow> lit_env \<Rightarrow> term_t \<Rightarrow> pprod_t \<Rightarrow> term_t lc" where
  "lit_collector_visit_pprod v E t p =
     (let n = length p in
      lc_bind (alloc_istack_array n) (\<lambda>_.
      lc_bind (visit_args v (map fst p)) (\<lambda>a.
      let t1 = (if inequal_array_pprod a p then mk_pprod (manager E) p n a else t)
      in lc_bind free_istack_array (\<lambda>_. lc_return t1))))"

text \<open>
  The three polynomial functions fill the array in the same way: the constant monomial,
  if any, is the first one and is copied; the other variables are visited. An empty
  polynomial has only its end marker at index 0, whose variable is not \<^verbatim>\<open>const_idx\<close>.
\<close>

definition visit_poly_vars :: "(term_t \<Rightarrow> term_t lc) \<Rightarrow> term_t list \<Rightarrow> term_t list lc" where
  "visit_poly_vars v xs =
     (case xs of
        [] \<Rightarrow> lc_return []
      | x # ys \<Rightarrow>
          if x = const_idx
          then lc_bind (visit_args v ys) (\<lambda>a. lc_return (const_idx # a))
          else visit_args v xs)"

definition lit_collector_visit_poly ::
  "(term_t \<Rightarrow> term_t lc) \<Rightarrow> lit_env \<Rightarrow> term_t \<Rightarrow> polynomial_t \<Rightarrow> term_t lc" where
  "lit_collector_visit_poly v E t p =
     (let n = length p in
      lc_bind (alloc_istack_array n) (\<lambda>_.
      lc_bind (visit_poly_vars v (map snd p)) (\<lambda>a.
      let t1 = (if inequal_array_poly a p then mk_arith_poly (manager E) p n a else t)
      in lc_bind free_istack_array (\<lambda>_. lc_return t1))))"

definition lit_collector_visit_bvpoly64 ::
  "(term_t \<Rightarrow> term_t lc) \<Rightarrow> lit_env \<Rightarrow> term_t \<Rightarrow> bvpoly64_t \<Rightarrow> term_t lc" where
  "lit_collector_visit_bvpoly64 v E t p =
     (let n = length p in
      lc_bind (alloc_istack_array n) (\<lambda>_.
      lc_bind (visit_poly_vars v (map snd p)) (\<lambda>a.
      let t1 = (if inequal_array_bvpoly64 a p then mk_bvarith64_poly (manager E) p n a else t)
      in lc_bind free_istack_array (\<lambda>_. lc_return t1))))"

definition lit_collector_visit_bvpoly ::
  "(term_t \<Rightarrow> term_t lc) \<Rightarrow> lit_env \<Rightarrow> term_t \<Rightarrow> bvpoly_t \<Rightarrow> term_t lc" where
  "lit_collector_visit_bvpoly v E t p =
     (let n = length p in
      lc_bind (alloc_istack_array n) (\<lambda>_.
      lc_bind (visit_poly_vars v (map snd p)) (\<lambda>a.
      let t1 = (if inequal_array_bvpoly a p then mk_bvarith_poly (manager E) p n a else t)
      in lc_bind free_istack_array (\<lambda>_. lc_return t1))))"

text \<open>The \<^verbatim>\<open>switch\<close> of \<^verbatim>\<open>lit_collector_visit\<close> on the kind of the unsigned term.\<close>

definition visit_switch :: "(term_t \<Rightarrow> term_t lc) \<Rightarrow> lit_env \<Rightarrow> term_t \<Rightarrow> term_t lc" where
  "visit_switch v E t =
     (let tbl = terms E in
      case term_kind tbl t of
        CONSTANT_TERM \<Rightarrow> lc_return t
      | ARITH_CONSTANT \<Rightarrow> lc_return t
      | BV64_CONSTANT \<Rightarrow> lc_return t
      | BV_CONSTANT \<Rightarrow> lc_return t
      | VARIABLE \<Rightarrow> lc_longjmp LIT_COLLECT_FREEVAR_IN_TERM
      | UNINTERPRETED_TERM \<Rightarrow>
          if is_boolean_term tbl t then register_atom E t else lc_return t
      | ARITH_EQ_ATOM \<Rightarrow> lit_collector_visit_eq_atom v E t (arith_eq_arg tbl t)
      | ARITH_GE_ATOM \<Rightarrow> lit_collector_visit_ge_atom v E t (arith_ge_arg tbl t)
      | ITE_TERM \<Rightarrow> lit_collector_visit_ite v E t (composite_term_desc tbl t)
      | ITE_SPECIAL \<Rightarrow> lit_collector_visit_ite v E t (composite_term_desc tbl t)
      | APP_TERM \<Rightarrow> lit_collector_visit_app v E t (composite_term_desc tbl t)
      | UPDATE_TERM \<Rightarrow> lit_collector_visit_update v E t (composite_term_desc tbl t)
      | TUPLE_TERM \<Rightarrow> lit_collector_visit_tuple v E t (composite_term_desc tbl t)
      | EQ_TERM \<Rightarrow> lit_collector_visit_eq v E t (composite_term_desc tbl t)
      | DISTINCT_TERM \<Rightarrow> lit_collector_visit_distinct v E t (composite_term_desc tbl t)
      | FORALL_TERM \<Rightarrow> lc_longjmp LIT_COLLECT_QUANTIFIER
      | LAMBDA_TERM \<Rightarrow> lc_longjmp LIT_COLLECT_LAMBDA
      | OR_TERM \<Rightarrow> lit_collector_visit_or v E t (composite_term_desc tbl t)
      | XOR_TERM \<Rightarrow> lit_collector_visit_xor v E t (composite_term_desc tbl t)
      | ARITH_BINEQ_ATOM \<Rightarrow> lit_collector_visit_arith_bineq v E t (composite_term_desc tbl t)
      | BV_ARRAY \<Rightarrow> lit_collector_visit_bvarray v E t (composite_term_desc tbl t)
      | BV_DIV \<Rightarrow> lit_collector_visit_bvdiv v E t (composite_term_desc tbl t)
      | BV_REM \<Rightarrow> lit_collector_visit_bvrem v E t (composite_term_desc tbl t)
      | BV_SDIV \<Rightarrow> lit_collector_visit_bvsdiv v E t (composite_term_desc tbl t)
      | BV_SREM \<Rightarrow> lit_collector_visit_bvsrem v E t (composite_term_desc tbl t)
      | BV_SMOD \<Rightarrow> lit_collector_visit_bvsmod v E t (composite_term_desc tbl t)
      | BV_SHL \<Rightarrow> lit_collector_visit_bvshl v E t (composite_term_desc tbl t)
      | BV_LSHR \<Rightarrow> lit_collector_visit_bvlshr v E t (composite_term_desc tbl t)
      | BV_ASHR \<Rightarrow> lit_collector_visit_bvashr v E t (composite_term_desc tbl t)
      | BV_EQ_ATOM \<Rightarrow> lit_collector_visit_bveq v E t (composite_term_desc tbl t)
      | BV_GE_ATOM \<Rightarrow> lit_collector_visit_bvge v E t (composite_term_desc tbl t)
      | BV_SGE_ATOM \<Rightarrow> lit_collector_visit_bvsge v E t (composite_term_desc tbl t)
      | SELECT_TERM \<Rightarrow> lit_collector_visit_select v E t (select_term_desc tbl t)
      | BIT_TERM \<Rightarrow> lit_collector_visit_bit v E t (select_term_desc tbl t)
      | POWER_PRODUCT \<Rightarrow> lit_collector_visit_pprod v E t (pprod_term_desc tbl t)
      | ARITH_POLY \<Rightarrow> lit_collector_visit_poly v E t (poly_term_desc tbl t)
      | BV64_POLY \<Rightarrow> lit_collector_visit_bvpoly64 v E t (bvpoly64_term_desc tbl t)
      | BV_POLY \<Rightarrow> lit_collector_visit_bvpoly v E t (bvpoly_term_desc tbl t)
      | UNUSED_TERM \<Rightarrow>
          lc_bind (lc_assert E False) (\<lambda>_. lc_longjmp LIT_COLLECT_INTERNAL_ERROR)
      | RESERVED_TERM \<Rightarrow>
          lc_bind (lc_assert E False) (\<lambda>_. lc_longjmp LIT_COLLECT_INTERNAL_ERROR))"

text \<open>
  The visitor. Its first argument bounds the depth of the recursion: with no fuel left
  the call stops with \<open>OutOfFuel\<close>, which stands for a recursion that did not end.
\<close>

primrec lit_collector_visit :: "nat \<Rightarrow> lit_env \<Rightarrow> term_t \<Rightarrow> term_t lc" where
  "lit_collector_visit 0 E t = lc_stop OutOfFuel"
| "lit_collector_visit (Suc k) E t =
     (let polarity = polarity_of t; t0 = unsigned_term t in
      lc_bind (lit_collector_find_cached_term E t0) (\<lambda>u.
      lc_bind (if u = NULL_TERM
               then lc_bind (visit_switch (lit_collector_visit k E) E t0) (\<lambda>u'.
                    lc_bind (lit_collector_cache_result E t0 u') (\<lambda>_. lc_return u'))
               else lc_return u) (\<lambda>u.
      lc_return (u XOR polarity))))"

section \<open>Top-level calls\<close>

text \<open>
  \<^verbatim>\<open>setjmp\<close> returns 0 when called, and after \<^verbatim>\<open>longjmp(env, code)\<close> it returns the code,
  or 1 if the code is 0.
\<close>

definition setjmp_value :: "int \<Rightarrow> int" where
  "setjmp_value code = (if code = 0 then 1 else code)"

definition lit_collector_process :: "nat \<Rightarrow> lit_env \<Rightarrow> term_t \<Rightarrow> term_t lc" where
  "lit_collector_process k E t =
     (\<lambda>c. case lit_collector_visit k E t c of
        (Return u, c') \<Rightarrow> (Return u, c')
      | (Stop (Longjmp e), c') \<Rightarrow>
          (let u = setjmp_value (error_code E e) in
           lc_bind (lc_assert E (u < 0)) (\<lambda>_ c''. (Return u, reset_istack c'')) c')
      | (Stop s, c') \<Rightarrow> (Stop s, c'))"

text \<open>
  The first loop of \<^verbatim>\<open>get_implicants\<close>: it returns \<open>Some u\<close> when it leaves by
  \<^verbatim>\<open>goto done\<close> with the negative \<open>u\<close>, and \<open>None\<close> when it reaches its end.
\<close>

fun process_assertions :: "nat \<Rightarrow> lit_env \<Rightarrow> term_t list \<Rightarrow> int option lc" where
  "process_assertions k E [] = lc_return None"
| "process_assertions k E (x # xs) =
     lc_bind (lit_collector_process k E x) (\<lambda>u.
       if u < 0 then lc_return (Some u)
       else lc_bind (lc_assert E (u = true_term)) (\<lambda>_. process_assertions k E xs))"

text \<open>The second loop: each element of the closed set is pushed on the vector.\<close>

fun push_literals :: "lit_env \<Rightarrow> term_t list \<Rightarrow> term_t list \<Rightarrow> term_t list lc" where
  "push_literals E [] v = lc_return v"
| "push_literals E (u # us) v =
     lc_bind (lc_assert_call E (is_true_in_model E u)) (\<lambda>_. push_literals E us (v @ [u]))"

text \<open>
  \<^verbatim>\<open>get_implicants\<close> returns its code and the vector \<open>v\<close>; its collector is local and
  deleted at the end. The array \<open>a\<close> is a list, \<open>n\<close> its length.
\<close>

definition get_implicants ::
  "nat \<Rightarrow> lit_env \<Rightarrow> term_t list \<Rightarrow> term_t list \<Rightarrow> (int \<times> term_t list) outcome" where
  "get_implicants k E a v =
     (case process_assertions k E a init_lit_collector of
        (Return (Some u), c) \<Rightarrow> Return (u, v)
      | (Return None, c) \<Rightarrow>
          (case push_literals E (lit_set c) v c of
             (Return v', c') \<Rightarrow> Return (0, v')
           | (Stop s, c') \<Rightarrow> Stop s)
      | (Stop s, c) \<Rightarrow> Stop s)"

section \<open>Specification vocabulary\<close>

text \<open>
  The result of a call with a function applied to the returned value; a call that stops
  is left as it is.
\<close>

definition lc_map :: "('a \<Rightarrow> 'b) \<Rightarrow> 'a outcome \<times> lit_collector_t \<Rightarrow> 'b outcome \<times> lit_collector_t" where
  "lc_map f r = (case r of (Return x, c) \<Rightarrow> (Return (f x), c) | (Stop s, c) \<Rightarrow> (Stop s, c))"

text \<open>
  The terms the visitor may call itself on when it processes the unsigned term \<open>t\<close>: the
  children of \<open>t\<close> in the term table (the variables of a polynomial without its constant
  monomial).
\<close>

definition poly_children :: "term_t list \<Rightarrow> term_t list" where
  "poly_children xs = (case xs of [] \<Rightarrow> [] | x # ys \<Rightarrow> if x = const_idx then ys else xs)"

definition children :: "lit_env \<Rightarrow> term_t \<Rightarrow> term_t list" where
  "children E t =
     (let tbl = terms E in
      case term_kind tbl t of
        UNUSED_TERM \<Rightarrow> [] | RESERVED_TERM \<Rightarrow> []
      | CONSTANT_TERM \<Rightarrow> [] | ARITH_CONSTANT \<Rightarrow> [] | BV64_CONSTANT \<Rightarrow> [] | BV_CONSTANT \<Rightarrow> []
      | VARIABLE \<Rightarrow> [] | UNINTERPRETED_TERM \<Rightarrow> []
      | FORALL_TERM \<Rightarrow> [] | LAMBDA_TERM \<Rightarrow> []
      | ARITH_EQ_ATOM \<Rightarrow> [arith_eq_arg tbl t]
      | ARITH_GE_ATOM \<Rightarrow> [arith_ge_arg tbl t]
      | SELECT_TERM \<Rightarrow> [snd (select_term_desc tbl t)]
      | BIT_TERM \<Rightarrow> [snd (select_term_desc tbl t)]
      | POWER_PRODUCT \<Rightarrow> map fst (pprod_term_desc tbl t)
      | ARITH_POLY \<Rightarrow> poly_children (map snd (poly_term_desc tbl t))
      | BV64_POLY \<Rightarrow> poly_children (map snd (bvpoly64_term_desc tbl t))
      | BV_POLY \<Rightarrow> poly_children (map snd (bvpoly_term_desc tbl t))
      | _ \<Rightarrow> composite_term_desc tbl t)"

text \<open>
  \<open>lc_spec I m Q X\<close>: started in a state where \<open>I\<close> holds, the call \<open>m\<close> ends in a state
  where \<open>I\<close> holds; if it returns \<open>x\<close> then \<open>Q x\<close>, and if it stops with \<open>s\<close> then \<open>X s\<close>.
  \<open>lc_inv I m\<close> only says that \<open>I\<close> is kept, whatever the outcome.
\<close>

definition lc_spec ::
  "(lit_collector_t \<Rightarrow> bool) \<Rightarrow> 'a lc \<Rightarrow> ('a \<Rightarrow> bool) \<Rightarrow> (stop_t \<Rightarrow> bool) \<Rightarrow> bool" where
  "lc_spec I m Q X =
     (\<forall>c. I c \<longrightarrow> (case m c of (Return x, c') \<Rightarrow> I c' \<and> Q x | (Stop s, c') \<Rightarrow> I c' \<and> X s))"

definition lc_inv :: "(lit_collector_t \<Rightarrow> bool) \<Rightarrow> 'a lc \<Rightarrow> bool" where
  "lc_inv I m = lc_spec I m (\<lambda>_. True) (\<lambda>_. True)"

text \<open>\<open>lc_res I m P\<close>: the call keeps \<open>I\<close>, and what it returns satisfies \<open>P\<close>.\<close>

definition lc_res :: "(lit_collector_t \<Rightarrow> bool) \<Rightarrow> 'a lc \<Rightarrow> ('a \<Rightarrow> bool) \<Rightarrow> bool" where
  "lc_res I m P = lc_spec I m P (\<lambda>_. True)"

text \<open>
  The terms on which \<^verbatim>\<open>register_atom\<close> is called without a test of their type are the
  terms of the atom kinds and the terms the manager builds for them. \<open>atoms_ok R E\<close> says
  that all of them satisfy \<open>R\<close>; with \<open>R\<close> the test \<^verbatim>\<open>is_boolean_term\<close> it is the typing
  of the atoms.
\<close>

definition atom_kind :: "term_kind \<Rightarrow> bool" where
  "atom_kind k = (k \<in> {ARITH_EQ_ATOM, ARITH_GE_ATOM, EQ_TERM, DISTINCT_TERM, ARITH_BINEQ_ATOM,
     BV_EQ_ATOM, BV_GE_ATOM, BV_SGE_ATOM, BIT_TERM})"

definition atoms_ok :: "(term_t \<Rightarrow> bool) \<Rightarrow> lit_env \<Rightarrow> bool" where
  "atoms_ok R E =
     ((\<forall>t. atom_kind (term_kind (terms E) t) \<longrightarrow> R t) \<and>
      (\<forall>w. R (mk_arith_term_eq0 (manager E) w)) \<and>
      (\<forall>w. R (mk_arith_term_geq0 (manager E) w)) \<and>
      (\<forall>a b. R (mk_eq (manager E) a b)) \<and>
      (\<forall>n a. R (mk_distinct (manager E) n a)) \<and>
      (\<forall>a b. R (mk_arith_eq (manager E) a b)) \<and>
      (\<forall>a b. R (mk_bveq (manager E) a b)) \<and>
      (\<forall>a b. R (mk_bvge (manager E) a b)) \<and>
      (\<forall>a b. R (mk_bvsge (manager E) a b)) \<and>
      (\<forall>w i. R (mk_bitextract (manager E) w i)))"

definition atoms_boolean :: "lit_env \<Rightarrow> bool" where
  "atoms_boolean E = atoms_ok (is_boolean_term (terms E)) E"

text \<open>
  A term is true in the model when the evaluator gives it a value and that value is
  true. \<open>lits_true\<close> is the invariant of the set of literals; \<open>negation_sound\<close> is what
  is expected of the evaluator on a negated Boolean term.
\<close>

definition true_in_model :: "lit_env \<Rightarrow> term_t \<Rightarrow> bool" where
  "true_in_model E t = (0 \<le> eval_in_model E t \<and> is_true E (eval_in_model E t))"

definition lits_true :: "lit_env \<Rightarrow> lit_collector_t \<Rightarrow> bool" where
  "lits_true E c = (\<forall>l\<in>set (lit_set c). l \<noteq> true_term \<and> true_in_model E l)"

definition negation_sound :: "lit_env \<Rightarrow> bool" where
  "negation_sound E =
     (\<forall>t. is_boolean_term (terms E) t \<and> 0 \<le> eval_in_model E t \<and>
          \<not> is_true E (eval_in_model E t) \<longrightarrow> true_in_model E (opposite_term t))"

text \<open>
  \<open>manager_ok P E\<close>: every term the manager builds satisfies \<open>P\<close>. \<open>children_ok P E\<close>: the
  children of a term that satisfies \<open>P\<close> satisfy \<open>P\<close>. \<open>cache_ok P c\<close>: every term stored in
  the cache satisfies \<open>P\<close>. With \<open>P\<close> the test \<open>0 \<le> u\<close> they say that the table, the manager
  and the cache hold terms and no negative number.
\<close>

definition manager_ok :: "(term_t \<Rightarrow> bool) \<Rightarrow> lit_env \<Rightarrow> bool" where
  "manager_ok P E =
     ((\<forall>w. P (mk_arith_term_eq0 (manager E) w)) \<and>
      (\<forall>w. P (mk_arith_term_geq0 (manager E) w)) \<and>
      (\<forall>f n a. P (mk_application (manager E) f n a)) \<and>
      (\<forall>f n a w. P (mk_update (manager E) f n a w)) \<and>
      (\<forall>n a. P (mk_tuple (manager E) n a)) \<and>
      (\<forall>a b. P (mk_eq (manager E) a b)) \<and>
      (\<forall>n a. P (mk_distinct (manager E) n a)) \<and>
      (\<forall>a b. P (mk_arith_eq (manager E) a b)) \<and>
      (\<forall>n a. P (mk_bvarray (manager E) n a)) \<and>
      (\<forall>a b. P (mk_bvdiv (manager E) a b)) \<and>
      (\<forall>a b. P (mk_bvrem (manager E) a b)) \<and>
      (\<forall>a b. P (mk_bvsdiv (manager E) a b)) \<and>
      (\<forall>a b. P (mk_bvsrem (manager E) a b)) \<and>
      (\<forall>a b. P (mk_bvsmod (manager E) a b)) \<and>
      (\<forall>a b. P (mk_bvshl (manager E) a b)) \<and>
      (\<forall>a b. P (mk_bvlshr (manager E) a b)) \<and>
      (\<forall>a b. P (mk_bvashr (manager E) a b)) \<and>
      (\<forall>a b. P (mk_bveq (manager E) a b)) \<and>
      (\<forall>a b. P (mk_bvge (manager E) a b)) \<and>
      (\<forall>a b. P (mk_bvsge (manager E) a b)) \<and>
      (\<forall>i w. P (mk_select (manager E) i w)) \<and>
      (\<forall>w i. P (mk_bitextract (manager E) w i)) \<and>
      (\<forall>p n a. P (mk_pprod (manager E) p n a)) \<and>
      (\<forall>p n a. P (mk_arith_poly (manager E) p n a)) \<and>
      (\<forall>p n a. P (mk_bvarith64_poly (manager E) p n a)) \<and>
      (\<forall>p n a. P (mk_bvarith_poly (manager E) p n a)))"

definition children_ok :: "(term_t \<Rightarrow> bool) \<Rightarrow> lit_env \<Rightarrow> bool" where
  "children_ok P E = (\<forall>t. P t \<longrightarrow> (\<forall>u\<in>set (children E t). P u))"

definition cache_ok :: "(term_t \<Rightarrow> bool) \<Rightarrow> lit_collector_t \<Rightarrow> bool" where
  "cache_ok P c = (\<forall>k u. cache c k = Some u \<and> u \<noteq> NULL_TERM \<longrightarrow> P u)"

definition nonneg_env :: "lit_env \<Rightarrow> bool" where
  "nonneg_env E =
     (manager_ok (\<lambda>u. 0 \<le> u) E \<and> children_ok (\<lambda>u. 0 \<le> u) E \<and> (\<forall>e. error_code E e < 0))"

text \<open>
  \<open>reach E t s\<close>: the unsigned term \<open>s\<close> is the unsigned form of \<open>t\<close> or of a term that is
  reached from \<open>t\<close> through children in the term table.
\<close>

inductive reach :: "lit_env \<Rightarrow> term_t \<Rightarrow> term_t \<Rightarrow> bool" for E :: lit_env and t :: term_t where
  reach_self: "reach E t (unsigned_term t)"
| reach_child: "reach E t s \<Longrightarrow> u \<in> set (children E s) \<Longrightarrow> reach E t (unsigned_term u)"

text \<open>\<open>cache_frame S m\<close>: the call \<open>m\<close> leaves the cache entry of every key outside \<open>S\<close> as it was.\<close>

definition cache_frame :: "(term_t \<Rightarrow> bool) \<Rightarrow> 'a lc \<Rightarrow> bool" where
  "cache_frame S m = (\<forall>c key. \<not> S key \<longrightarrow> cache (snd (m c)) key = cache c key)"

text \<open>
  \<open>lifetime E c c'\<close>: the collector gets from the state \<open>c\<close> to the state \<open>c'\<close> by calls of
  \<^verbatim>\<open>lit_collector_visit\<close> and \<^verbatim>\<open>lit_collector_process\<close>, whatever their arguments and
  outcomes, and without a call of \<^verbatim>\<open>reset_lit_collector\<close>.
\<close>

inductive lifetime :: "lit_env \<Rightarrow> lit_collector_t \<Rightarrow> lit_collector_t \<Rightarrow> bool" for E where
  lifetime_refl: "lifetime E c c"
| lifetime_visit:
    "lifetime E c c1 \<Longrightarrow> lit_collector_visit k E s c1 = (r, c2) \<Longrightarrow> lifetime E c c2"
| lifetime_process:
    "lifetime E c c1 \<Longrightarrow> lit_collector_process k E s c1 = (r, c2) \<Longrightarrow> lifetime E c c2"

text \<open>
  What the claims about the value of a term expect of the collaborators. \<open>holds E t\<close> is
  the truth of the value the evaluator gives to \<open>t\<close>. \<open>model_sound\<close>: \<^verbatim>\<open>true_term\<close> is
  true; a Boolean term and its negation are Boolean together; when a Boolean term has
  a value, its negation has one, of the opposite truth, and its value is the value of
  the Boolean constant of the same truth (without \<^verbatim>\<open>NDEBUG\<close>, the two Boolean
  constants are good terms).
\<close>

definition holds :: "lit_env \<Rightarrow> term_t \<Rightarrow> bool" where
  "holds E t = is_true E (eval_in_model E t)"

definition model_sound :: "lit_env \<Rightarrow> bool" where
  "model_sound E =
     (0 \<le> eval_in_model E true_term \<and> holds E true_term \<and>
      is_boolean_term (terms E) true_term \<and>
      (ndebug E \<or> (good_term (terms E) true_term \<and> good_term (terms E) false_term)) \<and>
      (\<forall>t. is_boolean_term (terms E) (opposite_term t) = is_boolean_term (terms E) t) \<and>
      (\<forall>t. is_boolean_term (terms E) t \<and> 0 \<le> eval_in_model E t \<longrightarrow>
           0 \<le> eval_in_model E (opposite_term t) \<and>
           holds E (opposite_term t) = (\<not> holds E t) \<and>
           eval_in_model E t = eval_in_model E (bool2term (holds E t))))"

text \<open>
  The kinds of the terms that the collector rebuilds, the array of children the visited
  array is compared with, and the term that is built from the visited array \<open>a\<close>.
  \<open>manager_sound\<close>: for a term that has a value, the term built from an array of terms of
  the same values as its children has the same value and is Boolean when the term is
  (without \<^verbatim>\<open>NDEBUG\<close>, it is a good term).
\<close>

definition rebuilt_kind :: "term_kind \<Rightarrow> bool" where
  "rebuilt_kind k = (k \<notin> {UNUSED_TERM, RESERVED_TERM, CONSTANT_TERM, ARITH_CONSTANT,
     BV64_CONSTANT, BV_CONSTANT, VARIABLE, UNINTERPRETED_TERM, ITE_TERM, ITE_SPECIAL,
     FORALL_TERM, LAMBDA_TERM, OR_TERM, XOR_TERM})"

definition rebuild_args :: "lit_env \<Rightarrow> term_t \<Rightarrow> term_t list" where
  "rebuild_args E t =
     (let tbl = terms E in
      case term_kind tbl t of
        ARITH_EQ_ATOM \<Rightarrow> [arith_eq_arg tbl t]
      | ARITH_GE_ATOM \<Rightarrow> [arith_ge_arg tbl t]
      | SELECT_TERM \<Rightarrow> [snd (select_term_desc tbl t)]
      | BIT_TERM \<Rightarrow> [snd (select_term_desc tbl t)]
      | POWER_PRODUCT \<Rightarrow> map fst (pprod_term_desc tbl t)
      | ARITH_POLY \<Rightarrow> map snd (poly_term_desc tbl t)
      | BV64_POLY \<Rightarrow> map snd (bvpoly64_term_desc tbl t)
      | BV_POLY \<Rightarrow> map snd (bvpoly_term_desc tbl t)
      | _ \<Rightarrow> composite_term_desc tbl t)"

definition rebuild :: "lit_env \<Rightarrow> term_t \<Rightarrow> term_t list \<Rightarrow> term_t" where
  "rebuild E t a =
     (let tbl = terms E; m = manager E; n = length a in
      case term_kind tbl t of
        ARITH_EQ_ATOM \<Rightarrow> mk_arith_term_eq0 m (hd a)
      | ARITH_GE_ATOM \<Rightarrow> mk_arith_term_geq0 m (hd a)
      | APP_TERM \<Rightarrow> mk_application m (hd a) (u32_sub n 1) (tl a)
      | UPDATE_TERM \<Rightarrow> mk_update m (hd a) (u32_sub n 2) (tl a) (last a)
      | TUPLE_TERM \<Rightarrow> mk_tuple m n a
      | EQ_TERM \<Rightarrow> mk_eq m (a ! 0) (a ! 1)
      | DISTINCT_TERM \<Rightarrow> mk_distinct m n a
      | ARITH_BINEQ_ATOM \<Rightarrow> mk_arith_eq m (a ! 0) (a ! 1)
      | BV_ARRAY \<Rightarrow> mk_bvarray m n a
      | BV_DIV \<Rightarrow> mk_bvdiv m (a ! 0) (a ! 1)
      | BV_REM \<Rightarrow> mk_bvrem m (a ! 0) (a ! 1)
      | BV_SDIV \<Rightarrow> mk_bvsdiv m (a ! 0) (a ! 1)
      | BV_SREM \<Rightarrow> mk_bvsrem m (a ! 0) (a ! 1)
      | BV_SMOD \<Rightarrow> mk_bvsmod m (a ! 0) (a ! 1)
      | BV_SHL \<Rightarrow> mk_bvshl m (a ! 0) (a ! 1)
      | BV_LSHR \<Rightarrow> mk_bvlshr m (a ! 0) (a ! 1)
      | BV_ASHR \<Rightarrow> mk_bvashr m (a ! 0) (a ! 1)
      | BV_EQ_ATOM \<Rightarrow> mk_bveq m (a ! 0) (a ! 1)
      | BV_GE_ATOM \<Rightarrow> mk_bvge m (a ! 0) (a ! 1)
      | BV_SGE_ATOM \<Rightarrow> mk_bvsge m (a ! 0) (a ! 1)
      | SELECT_TERM \<Rightarrow> mk_select m (fst (select_term_desc tbl t)) (hd a)
      | BIT_TERM \<Rightarrow> mk_bitextract m (hd a) (fst (select_term_desc tbl t))
      | POWER_PRODUCT \<Rightarrow> mk_pprod m (pprod_term_desc tbl t) n a
      | ARITH_POLY \<Rightarrow> mk_arith_poly m (poly_term_desc tbl t) n a
      | BV64_POLY \<Rightarrow> mk_bvarith64_poly m (bvpoly64_term_desc tbl t) n a
      | BV_POLY \<Rightarrow> mk_bvarith_poly m (bvpoly_term_desc tbl t) n a
      | _ \<Rightarrow> t)"

definition rebuild_ok :: "lit_env \<Rightarrow> term_t \<Rightarrow> term_t \<Rightarrow> bool" where
  "rebuild_ok E t t' =
     (eval_in_model E t' = eval_in_model E t \<and>
      is_boolean_term (terms E) t' = is_boolean_term (terms E) t \<and>
      (ndebug E \<or> good_term (terms E) t'))"

definition manager_sound :: "lit_env \<Rightarrow> bool" where
  "manager_sound E =
     (\<forall>t a. rebuilt_kind (term_kind (terms E) t) \<and> 0 \<le> eval_in_model E t \<and>
            list_all2 (\<lambda>r x. eval_in_model E r = eval_in_model E x) a (rebuild_args E t)
            \<longrightarrow> rebuild_ok E t (rebuild E t a))"

text \<open>
  \<open>node_ok E t\<close>: what is expected of the unsigned term \<open>t\<close> in the table and in the model.
  Its kind is one the collector supports; if it is Boolean the evaluator gives it a
  value; the types and arities are those of its kind (the arities that only an
  \<^verbatim>\<open>assert\<close> checks are required without \<^verbatim>\<open>NDEBUG\<close> only); the value of a disjunction,
  an exclusive or and an if-then-else is the one of its children; and for the other
  kinds, when the term has a value, its children have one.
\<close>

definition strict_ok :: "lit_env \<Rightarrow> term_t \<Rightarrow> bool" where
  "strict_ok E t =
     (0 \<le> eval_in_model E t \<longrightarrow> list_all (\<lambda>x. 0 \<le> eval_in_model E x) (children E t))"

definition ite_ok :: "lit_env \<Rightarrow> term_t \<Rightarrow> bool" where
  "ite_ok E t =
     (let tbl = terms E; d = composite_term_desc tbl t in
      length d = 3 \<and> is_boolean_term tbl (d ! 0) \<and>
      is_boolean_term tbl (d ! 1) = is_boolean_term tbl t \<and>
      is_boolean_term tbl (d ! 2) = is_boolean_term tbl t \<and>
      (0 \<le> eval_in_model E t \<longrightarrow>
         eval_in_model E t = eval_in_model E (if holds E (d ! 0) then d ! 1 else d ! 2)))"

definition node_ok :: "lit_env \<Rightarrow> term_t \<Rightarrow> bool" where
  "node_ok E t =
     (let tbl = terms E; d = composite_term_desc tbl t; b = is_boolean_term tbl t;
          nd = ndebug E
      in (nd \<or> good_term tbl t) \<and> (b \<longrightarrow> 0 \<le> eval_in_model E t) \<and>
         (case term_kind tbl t of
            UNUSED_TERM \<Rightarrow> False
          | RESERVED_TERM \<Rightarrow> False
          | VARIABLE \<Rightarrow> False
          | FORALL_TERM \<Rightarrow> False
          | LAMBDA_TERM \<Rightarrow> False
          | CONSTANT_TERM \<Rightarrow> (b \<longrightarrow> t = true_term)
          | ARITH_CONSTANT \<Rightarrow> \<not> b
          | BV64_CONSTANT \<Rightarrow> \<not> b
          | BV_CONSTANT \<Rightarrow> \<not> b
          | UNINTERPRETED_TERM \<Rightarrow> True
          | ARITH_EQ_ATOM \<Rightarrow> b \<and> strict_ok E t
          | ARITH_GE_ATOM \<Rightarrow> b \<and> strict_ok E t
          | ITE_TERM \<Rightarrow> ite_ok E t
          | ITE_SPECIAL \<Rightarrow> ite_ok E t
          | APP_TERM \<Rightarrow> (nd \<or> 2 \<le> length d) \<and> strict_ok E t
          | UPDATE_TERM \<Rightarrow> \<not> b \<and> (nd \<or> 3 \<le> length d) \<and> strict_ok E t
          | TUPLE_TERM \<Rightarrow> \<not> b \<and> (nd \<or> 3 \<le> length d) \<and> strict_ok E t
          | EQ_TERM \<Rightarrow> b \<and> length d = 2 \<and> strict_ok E t
          | DISTINCT_TERM \<Rightarrow> b \<and> (nd \<or> 3 \<le> length d) \<and> strict_ok E t
          | OR_TERM \<Rightarrow> b \<and> (nd \<or> 0 < length d) \<and> list_all (is_boolean_term tbl) d \<and>
              holds E t = list_ex (holds E) d
          | XOR_TERM \<Rightarrow> b \<and> list_all (is_boolean_term tbl) d \<and>
              holds E t = foldl (\<lambda>acc x. acc \<noteq> holds E x) False d
          | ARITH_BINEQ_ATOM \<Rightarrow> b \<and> length d = 2 \<and> strict_ok E t
          | BV_ARRAY \<Rightarrow> \<not> b \<and> (nd \<or> 1 \<le> length d) \<and> strict_ok E t
          | BV_DIV \<Rightarrow> \<not> b \<and> length d = 2 \<and> strict_ok E t
          | BV_REM \<Rightarrow> \<not> b \<and> length d = 2 \<and> strict_ok E t
          | BV_SDIV \<Rightarrow> \<not> b \<and> length d = 2 \<and> strict_ok E t
          | BV_SREM \<Rightarrow> \<not> b \<and> length d = 2 \<and> strict_ok E t
          | BV_SMOD \<Rightarrow> \<not> b \<and> length d = 2 \<and> strict_ok E t
          | BV_SHL \<Rightarrow> \<not> b \<and> length d = 2 \<and> strict_ok E t
          | BV_LSHR \<Rightarrow> \<not> b \<and> length d = 2 \<and> strict_ok E t
          | BV_ASHR \<Rightarrow> \<not> b \<and> length d = 2 \<and> strict_ok E t
          | BV_EQ_ATOM \<Rightarrow> b \<and> length d = 2 \<and> strict_ok E t
          | BV_GE_ATOM \<Rightarrow> b \<and> length d = 2 \<and> strict_ok E t
          | BV_SGE_ATOM \<Rightarrow> b \<and> length d = 2 \<and> strict_ok E t
          | SELECT_TERM \<Rightarrow> strict_ok E t
          | BIT_TERM \<Rightarrow> b \<and> strict_ok E t
          | POWER_PRODUCT \<Rightarrow> \<not> b \<and> strict_ok E t
          | ARITH_POLY \<Rightarrow> \<not> b \<and> strict_ok E t
          | BV64_POLY \<Rightarrow> \<not> b \<and> strict_ok E t
          | BV_POLY \<Rightarrow> \<not> b \<and> strict_ok E t))"

text \<open>
  \<open>ground E k t\<close>: every term reached from \<open>t\<close> is reached in less than \<open>k\<close> steps and is
  as \<open>node_ok\<close> says, and only Boolean terms occur negated. So \<open>t\<close> has no variable, no
  quantifier and no lambda term, and the evaluator gives a value to each of its Boolean
  subterms. The bound \<open>k\<close> is also enough fuel for the visit of \<open>t\<close>.
\<close>

primrec ground :: "lit_env \<Rightarrow> nat \<Rightarrow> term_t \<Rightarrow> bool" where
  "ground E 0 t = False"
| "ground E (Suc k) t =
     ((polarity_of t = 0 \<or> is_boolean_term (terms E) t) \<and>
      node_ok E (unsigned_term t) \<and>
      list_all (ground E k) (children E (unsigned_term t)))"

text \<open>
  What a visit of \<open>t\<close> that returns \<open>r\<close> is expected to satisfy: \<open>r\<close> has the value of \<open>t\<close> in
  the model and, if \<open>t\<close> is Boolean, \<open>r\<close> is the Boolean constant of the truth of \<open>t\<close>
  (without \<^verbatim>\<open>NDEBUG\<close>, \<open>r\<close> is a good term). \<open>cache_sem\<close> says so of every entry of the
  cache. \<open>lc_tot I m Q\<close>: the call returns, keeps \<open>I\<close>, and its result satisfies \<open>Q\<close>.
\<close>

definition sem_post :: "lit_env \<Rightarrow> term_t \<Rightarrow> term_t \<Rightarrow> bool" where
  "sem_post E t r =
     (eval_in_model E r = eval_in_model E t \<and>
      (is_boolean_term (terms E) t \<longrightarrow> r = bool2term (holds E t)) \<and>
      (ndebug E \<or> good_term (terms E) r))"

definition cache_sem :: "lit_env \<Rightarrow> lit_collector_t \<Rightarrow> bool" where
  "cache_sem E c = (\<forall>k u. cache c k = Some u \<longrightarrow> sem_post E k u)"

definition lc_tot :: "(lit_collector_t \<Rightarrow> bool) \<Rightarrow> 'a lc \<Rightarrow> ('a \<Rightarrow> bool) \<Rightarrow> bool" where
  "lc_tot I m Q = lc_spec I m Q (\<lambda>_. False)"

text \<open>\<open>frame_ok I\<close>: the property \<open>I\<close> of the state depends neither on the stack nor on the
  set of literals.\<close>

definition frame_ok :: "(lit_collector_t \<Rightarrow> bool) \<Rightarrow> bool" where
  "frame_ok I = ((\<forall>c s. I c \<longrightarrow> I (c\<lparr>stack := s\<rparr>)) \<and> (\<forall>c l. I c \<longrightarrow> I (c\<lparr>lit_set := l\<rparr>)))"


section \<open>An example term table and model\<close>

text \<open>
  A small table for concrete runs. The unsigned terms are:
  2 \<open>true\<close>; 4 \<open>p\<close>, 6 \<open>q\<close>, 36 \<open>r\<close> (Boolean, uninterpreted); 8 \<open>x\<close>, 10 \<open>y\<close> (integers,
  uninterpreted); 22 \<open>z\<close> (a pair, uninterpreted);
  12 \<open>(or q p)\<close>; 14 \<open>(ite p x y)\<close>; 16 \<open>(ite p x y) \<ge> 0\<close>; 18 \<open>x \<ge> 0\<close>;
  20 \<open>(tuple x y)\<close>; 24 \<open>(= (tuple x y) z)\<close>; 26 \<open>x + y\<close>; 28 \<open>(ite q y (x + y))\<close>;
  30 a variable \<open>w\<close>; 32 \<open>(xor p q)\<close>; 34 \<open>(or (not p) q)\<close>; 38 \<open>(or p r)\<close>;
  40 \<open>(tuple x y w)\<close>.
  The model has \<open>p\<close> and \<open>r\<close> true, \<open>q\<close> false, \<open>x = 1\<close>, \<open>y = 3\<close> and \<open>z\<close> different from
  the pair; a value is 1 for true, 0 for false, another non-negative number for an
  object that is not Boolean, and negative when the evaluation fails.
\<close>

definition ex_kind :: "term_t \<Rightarrow> term_kind" where
  "ex_kind t =
     (if t = 2 then CONSTANT_TERM
      else if t = 12 \<or> t = 34 \<or> t = 38 then OR_TERM
      else if t = 14 \<or> t = 28 then ITE_TERM
      else if t = 16 \<or> t = 18 then ARITH_GE_ATOM
      else if t = 20 \<or> t = 40 then TUPLE_TERM
      else if t = 24 then EQ_TERM
      else if t = 26 then ARITH_POLY
      else if t = 30 then VARIABLE
      else if t = 32 then XOR_TERM
      else UNINTERPRETED_TERM)"

definition ex_bool :: "term_t \<Rightarrow> bool" where
  "ex_bool t = (unsigned_term t \<in> {2, 4, 6, 12, 16, 18, 24, 32, 34, 36, 38})"

definition ex_desc :: "term_t \<Rightarrow> composite_term_t" where
  "ex_desc t =
     (if t = 12 then [6, 4]
      else if t = 14 then [4, 8, 10]
      else if t = 20 then [8, 10]
      else if t = 40 then [8, 10, 30]
      else if t = 24 then [20, 22]
      else if t = 28 then [6, 10, 26]
      else if t = 32 then [4, 6]
      else if t = 34 then [5, 6]
      else if t = 38 then [4, 36]
      else [])"

definition ex_terms :: term_table_t where
  "ex_terms = \<lparr>
     good_term = (\<lambda>t. 0 \<le> t \<and> t < 42),
     term_kind = ex_kind,
     is_boolean_term = ex_bool,
     arith_eq_arg = (\<lambda>t. 8),
     arith_ge_arg = (\<lambda>t. if t = 16 then 14 else 8),
     composite_term_desc = ex_desc,
     select_term_desc = (\<lambda>t. (0, 20)),
     pprod_term_desc = (\<lambda>t. []),
     poly_term_desc = (\<lambda>t. if t = 26 then [(1, 8), (1, 10)] else []),
     bvpoly64_term_desc = (\<lambda>t. []),
     bvpoly_term_desc = (\<lambda>t. [])\<rparr>"

definition ex_manager :: term_manager_t where
  "ex_manager = \<lparr>
     mk_arith_term_eq0 = (\<lambda>w. false_term),
     mk_arith_term_geq0 = (\<lambda>w. if w = 8 then 18 else if w = 14 then 16 else true_term),
     mk_application = (\<lambda>f n a. 8),
     mk_update = (\<lambda>f n a w. 8),
     mk_tuple = (\<lambda>n a. 20),
     mk_eq = (\<lambda>a b. if a = 20 \<and> b = 22 then 24 else false_term),
     mk_distinct = (\<lambda>n a. false_term),
     mk_arith_eq = (\<lambda>a b. false_term),
     mk_bvarray = (\<lambda>n a. 8),
     mk_bvdiv = (\<lambda>a b. 8),
     mk_bvrem = (\<lambda>a b. 8),
     mk_bvsdiv = (\<lambda>a b. 8),
     mk_bvsrem = (\<lambda>a b. 8),
     mk_bvsmod = (\<lambda>a b. 8),
     mk_bvshl = (\<lambda>a b. 8),
     mk_bvlshr = (\<lambda>a b. 8),
     mk_bvashr = (\<lambda>a b. 8),
     mk_bveq = (\<lambda>a b. false_term),
     mk_bvge = (\<lambda>a b. false_term),
     mk_bvsge = (\<lambda>a b. false_term),
     mk_select = (\<lambda>i w. 8),
     mk_bitextract = (\<lambda>w i. false_term),
     mk_pprod = (\<lambda>p n a. 8),
     mk_arith_poly = (\<lambda>p n a. 26),
     mk_bvarith64_poly = (\<lambda>p n a. 8),
     mk_bvarith_poly = (\<lambda>p n a. 8)\<rparr>"

definition ex_val0 :: "term_t \<Rightarrow> value_t" where
  "ex_val0 t =
     (if t \<in> {2, 4, 12, 16, 18, 32, 36, 38} then 1
      else if t \<in> {6, 24, 34} then 0
      else if t \<in> {8, 14} then 11
      else if t = 10 then 13
      else if t \<in> {26, 28} then 14
      else if t = 20 then 20
      else if t = 22 then 21
      else -1)"

definition ex_val :: "term_t \<Rightarrow> value_t" where
  "ex_val t =
     (if polarity_of t = 0 then ex_val0 t
      else if ex_val0 (unsigned_term t) = 1 then 0
      else if ex_val0 (unsigned_term t) = 0 then 1
      else -1)"

definition ex_env :: "bool \<Rightarrow> lit_env" where
  "ex_env nd = \<lparr>
     ndebug = nd,
     terms = ex_terms,
     manager = ex_manager,
     eval_in_model = ex_val,
     is_true = (\<lambda>v. v = 1),
     error_code = (\<lambda>e. case e of
         LIT_COLLECT_INTERNAL_ERROR \<Rightarrow> -1
       | LIT_COLLECT_EVAL_FAILED \<Rightarrow> -2
       | LIT_COLLECT_FREEVAR_IN_TERM \<Rightarrow> -3
       | LIT_COLLECT_QUANTIFIER \<Rightarrow> -4
       | LIT_COLLECT_LAMBDA \<Rightarrow> -5)\<rparr>"

definition ex_cached :: lit_collector_t where
  "ex_cached = \<lparr>cache = [4 \<mapsto> 2], lit_set = [4], stack = []\<rparr>"

definition ex_after_or :: lit_collector_t where
  "ex_after_or = \<lparr>cache = [4 \<mapsto> 2, 12 \<mapsto> 2], lit_set = [4], stack = []\<rparr>"

definition ex_after_both :: lit_collector_t where
  "ex_after_both = \<lparr>cache = [4 \<mapsto> 2, 12 \<mapsto> 2, 8 \<mapsto> 8, 14 \<mapsto> 8, 16 \<mapsto> 2],
     lit_set = [4, 18], stack = []\<rparr>"

definition ex_after_q :: lit_collector_t where
  "ex_after_q = \<lparr>cache = [6 \<mapsto> 3], lit_set = [7], stack = []\<rparr>"

definition ex_after_eq :: lit_collector_t where
  "ex_after_eq = \<lparr>cache = [8 \<mapsto> 8, 10 \<mapsto> 10, 20 \<mapsto> 20, 22 \<mapsto> 22, 24 \<mapsto> 3],
     lit_set = [25], stack = []\<rparr>"

definition ex_at_failure :: lit_collector_t where
  "ex_at_failure = \<lparr>cache = [4 \<mapsto> 2, 12 \<mapsto> 2, 8 \<mapsto> 8, 10 \<mapsto> 10], lit_set = [4], stack = [3]\<rparr>"

definition ex_after_ite :: lit_collector_t where
  "ex_after_ite = \<lparr>cache = [4 \<mapsto> 2, 8 \<mapsto> 8, 14 \<mapsto> 8], lit_set = [4], stack = []\<rparr>"

definition ex_after_shared :: lit_collector_t where
  "ex_after_shared = \<lparr>cache = [6 \<mapsto> 3, 8 \<mapsto> 8, 10 \<mapsto> 10, 26 \<mapsto> 26, 28 \<mapsto> 26],
     lit_set = [7], stack = []\<rparr>"

section \<open>Polarity\<close>

lemma polarity_of_mod: "polarity_of t = t mod 2"
  by (simp add: polarity_of_def and_one_eq)

lemma opposite_term_arith: "opposite_term t = (if even t then t + 1 else t - 1)"
  by (simp add: opposite_term_def xor_one_eq)

lemma unsigned_term_arith: "unsigned_term t = 2 * (t div 2)"
  by (simp add: unsigned_term_def and_int.rec [of t "- 2"])

lemma polarity_of_opposite: "polarity_of (opposite_term t) = polarity_of t XOR 1"
  unfolding polarity_of_mod opposite_term_arith xor_one_eq by (cases "even t") (simp_all, presburger+)

lemma unsigned_opposite: "unsigned_term (opposite_term t) = unsigned_term t"
  unfolding unsigned_term_arith opposite_term_arith by presburger

lemma polarity_of_unsigned: "polarity_of (unsigned_term t) = 0"
  unfolding unsigned_term_arith polarity_of_mod by presburger

lemma unsigned_unsigned: "unsigned_term (unsigned_term t) = unsigned_term t"
  unfolding unsigned_term_arith by presburger

lemma polarity_cases: "polarity_of t = 0 \<or> polarity_of t = 1"
  unfolding polarity_of_mod by presburger

lemma polarity_nonneg: "0 \<le> polarity_of t"
  using polarity_cases [of t] by auto

lemma xor_polarity_nonneg: "0 \<le> u XOR polarity_of t \<longleftrightarrow> 0 \<le> (u::int)"
  using polarity_cases[of t] by auto

lemma xor_polarity_opposite: "u XOR polarity_of (opposite_term t) = opposite_term (u XOR polarity_of t)"
  unfolding polarity_of_opposite by (simp add: opposite_term_def xor.assoc)

section \<open>Rules for calls\<close>

lemma lc_bind_return: "lc_bind (lc_return x) f = f x"
  by (simp add: lc_bind_def lc_return_def)

lemma lc_bind_stop: "lc_bind (lc_stop s) f = lc_stop s"
  by (simp add: lc_bind_def lc_stop_def)

lemma lc_bind_longjmp: "lc_bind (lc_longjmp e) f = lc_longjmp e"
  by (simp add: lc_longjmp_def lc_bind_stop)

lemma lc_bind_assert:
  "lc_bind (lc_assert E b) f = (if ndebug E \<or> b then f () else lc_stop AssertFail)"
  by (simp add: lc_assert_def lc_bind_return lc_bind_stop)

lemma lc_bind_composite_arg:
  "lc_bind (composite_arg d i) f = (if i < length d then f (d ! i) else lc_stop Undefined)"
  by (simp add: composite_arg_def lc_bind_return lc_bind_stop)

lemma lc_bind_assoc: "lc_bind (lc_bind m f) g = lc_bind m (\<lambda>x. lc_bind (f x) g)"
  by (auto simp: lc_bind_def fun_eq_iff split: prod.splits outcome.splits)

lemma spec_return: "Q x \<Longrightarrow> lc_spec I (lc_return x) Q X"
  by (simp add: lc_spec_def lc_return_def)

lemma spec_stop: "X s \<Longrightarrow> lc_spec I (lc_stop s) Q X"
  by (simp add: lc_spec_def lc_stop_def)

lemma spec_longjmp: "X (Longjmp e) \<Longrightarrow> lc_spec I (lc_longjmp e) Q X"
  by (simp add: lc_longjmp_def spec_stop)

lemma spec_bind:
  "lc_spec I m P X \<Longrightarrow> (\<And>x. P x \<Longrightarrow> lc_spec I (f x) Q X) \<Longrightarrow> lc_spec I (lc_bind m f) Q X"
proof -
  assume m: "lc_spec I m P X" and f: "\<And>x. P x \<Longrightarrow> lc_spec I (f x) Q X"
  show ?thesis
    unfolding lc_spec_def
  proof (intro allI impI)
    fix c assume c: "I c"
    obtain r c' where mc: "m c = (r, c')" by force
    show "case lc_bind m f c of (Return x, c') \<Rightarrow> I c' \<and> Q x | (Stop s, c') \<Rightarrow> I c' \<and> X s"
    proof (cases r)
      case (Return x)
      with m c mc have "I c'" and "P x" by (auto simp: lc_spec_def)
      with f [of x] have "case f x c' of (Return x, c') \<Rightarrow> I c' \<and> Q x | (Stop s, c') \<Rightarrow> I c' \<and> X s"
        by (simp add: lc_spec_def)
      then show ?thesis using mc Return by (simp add: lc_bind_def)
    next
      case (Stop s)
      with m c mc have "I c'" and "X s" by (auto simp: lc_spec_def)
      then show ?thesis using mc Stop by (simp add: lc_bind_def)
    qed
  qed
qed

lemma spec_if:
  "(b \<Longrightarrow> lc_spec I m Q X) \<Longrightarrow> (\<not> b \<Longrightarrow> lc_spec I n Q X) \<Longrightarrow> lc_spec I (if b then m else n) Q X"
  by simp

lemma spec_weaken:
  "lc_spec I m P X \<Longrightarrow> (\<And>x. P x \<Longrightarrow> Q x) \<Longrightarrow> lc_spec I m Q X"
  using spec_bind [of I m P X lc_return Q] by (simp add: lc_bind_def lc_spec_def lc_return_def split: prod.splits outcome.splits)

lemma spec_alloc: "(\<And>c s. I c \<Longrightarrow> I (c\<lparr>stack := s\<rparr>)) \<Longrightarrow> Q () \<Longrightarrow> lc_spec I (alloc_istack_array n) Q X"
  by (simp add: lc_spec_def alloc_istack_array_def)

lemma spec_free: "(\<And>c s. I c \<Longrightarrow> I (c\<lparr>stack := s\<rparr>)) \<Longrightarrow> Q () \<Longrightarrow> lc_spec I free_istack_array Q X"
  by (simp add: lc_spec_def free_istack_array_def)

lemma spec_visit_args:
  "(\<And>u. u \<in> set xs \<Longrightarrow> lc_spec I (v u) (P u) X) \<Longrightarrow>
   lc_spec I (visit_args v xs) (\<lambda>ys. list_all2 P xs ys) X"
proof (induction xs)
  case Nil
  show ?case by (simp add: spec_return)
next
  case (Cons x xs)
  show ?case
    apply simp
    apply (rule spec_bind [where P = "P x"])
     apply (rule Cons.prems, simp)
    apply (rule spec_bind [where P = "\<lambda>ys. list_all2 P xs ys"])
     apply (rule Cons.IH)
     apply (rule Cons.prems, simp)
    apply (rule spec_return)
    apply simp
    done
qed

lemma spec_term_is_true:
  "X (Longjmp LIT_COLLECT_EVAL_FAILED) \<Longrightarrow> X AssertFail \<Longrightarrow>
   (\<And>b. 0 \<le> eval_in_model E t \<Longrightarrow> b = is_true E (eval_in_model E t) \<Longrightarrow> Q b) \<Longrightarrow>
   lc_spec I (term_is_true_in_model E t) Q X"
  unfolding term_is_true_in_model_def Let_def
  by (simp add: spec_stop spec_return spec_longjmp lc_bind_assert)


lemma inv_return: "lc_inv I (lc_return x)"
  by (simp add: lc_inv_def spec_return)

lemma inv_stop: "lc_inv I (lc_stop s)"
  by (simp add: lc_inv_def spec_stop)

lemma inv_longjmp: "lc_inv I (lc_longjmp e)"
  by (simp add: lc_inv_def spec_longjmp)

lemma inv_bind: "lc_inv I m \<Longrightarrow> (\<And>x. lc_inv I (f x)) \<Longrightarrow> lc_inv I (lc_bind m f)"
  unfolding lc_inv_def by (rule spec_bind [where P = "\<lambda>_. True"])

lemma inv_if: "(b \<Longrightarrow> lc_inv I m) \<Longrightarrow> (\<not> b \<Longrightarrow> lc_inv I n) \<Longrightarrow> lc_inv I (if b then m else n)"
  by simp

lemma inv_stack:
  assumes "\<And>c s. I c \<Longrightarrow> I (c\<lparr>stack := s\<rparr>)"
  shows "lc_inv I (alloc_istack_array n)" and "lc_inv I free_istack_array"
  using assms by (simp_all add: lc_inv_def spec_alloc spec_free)

lemma inv_term_is_true: "lc_inv I (term_is_true_in_model E t)"
  by (simp add: lc_inv_def spec_term_is_true)

lemma inv_visit_args: "(\<And>u. u \<in> set xs \<Longrightarrow> lc_inv I (v u)) \<Longrightarrow> lc_inv I (visit_args v xs)"
  unfolding lc_inv_def
  by (rule spec_weaken [OF spec_visit_args [where P = "\<lambda>_ _. True"]]) simp_all

lemma inv_bind_composite_arg:
  "(i < length d \<Longrightarrow> lc_inv I (f (d ! i))) \<Longrightarrow> lc_inv I (lc_bind (composite_arg d i) f)"
  by (simp add: lc_bind_composite_arg inv_stop)

lemma inv_bind_assert:
  "(ndebug E \<or> b \<Longrightarrow> lc_inv I (f ())) \<Longrightarrow> lc_inv I (lc_bind (lc_assert E b) f)"
  by (simp add: lc_bind_assert inv_stop)

lemmas inv_intros = inv_bind_composite_arg inv_bind_assert inv_bind inv_if
  inv_return inv_stop inv_longjmp inv_term_is_true

lemma inv_visit_binary:
  assumes "\<And>u. u \<in> set d \<Longrightarrow> lc_inv I (v u)"
  shows "lc_inv I (visit_binary v E mk t d)"
  unfolding visit_binary_def by (intro inv_intros assms) auto

lemma inv_visit_poly_vars:
  assumes "\<And>u. u \<in> set (poly_children xs) \<Longrightarrow> lc_inv I (v u)"
  shows "lc_inv I (visit_poly_vars v xs)"
proof (cases xs)
  case Nil
  then show ?thesis by (simp add: visit_poly_vars_def inv_return)
next
  case (Cons x ys)
  with assms show ?thesis
    unfolding visit_poly_vars_def poly_children_def
    by (auto intro!: inv_bind inv_return inv_visit_args)
qed

lemma inv_find_true_disjunct: "lc_inv I (find_true_disjunct E xs i)"
proof (induction xs arbitrary: i)
  case Nil
  show ?case by (simp add: inv_return)
next
  case (Cons x xs)
  show ?case by (simp, intro inv_intros Cons.IH)
qed

lemma inv_visit_false_disjuncts:
  assumes "\<And>u. u \<in> set xs \<Longrightarrow> lc_inv I (v u)"
  shows "lc_inv I (visit_false_disjuncts v E xs u0)"
  using assms
proof (induction xs arbitrary: u0)
  case Nil
  show ?case by (simp add: inv_return)
next
  case (Cons x xs)
  show ?case by (simp, intro inv_intros Cons.IH Cons.prems) auto
qed

lemma inv_visit_xor_args:
  assumes "\<And>u. u \<in> set xs \<Longrightarrow> lc_inv I (v u)"
  shows "lc_inv I (visit_xor_args v E xs b)"
  using assms
proof (induction xs arbitrary: b)
  case Nil
  show ?case by (simp add: inv_return)
next
  case (Cons x xs)
  show ?case by (simp, intro inv_intros Cons.IH Cons.prems) auto
qed

lemma find_cached_term_eq:
  "lit_collector_find_cached_term E t c =
     (if ndebug E \<or> good_term (terms E) t
      then (case cache c t of
              None \<Rightarrow> (Return NULL_TERM, c)
            | Some u \<Rightarrow> if ndebug E \<or> good_term (terms E) u then (Return u, c)
                        else (Stop AssertFail, c))
      else (Stop AssertFail, c))"
  by (simp add: lit_collector_find_cached_term_def lc_bind_def lc_assert_def lc_return_def
      lc_stop_def split: option.splits)

lemma cache_result_eq:
  "lit_collector_cache_result E t u c =
     (if (ndebug E \<or> (good_term (terms E) t \<and> good_term (terms E) u)) \<and>
         (ndebug E \<or> (case cache c t of None \<Rightarrow> -1 | Some w \<Rightarrow> w) = -1)
      then (Return (), c\<lparr>cache := (cache c)(t \<mapsto> u)\<rparr>)
      else (Stop AssertFail, c))"
  by (simp add: lit_collector_cache_result_def lc_bind_def lc_assert_def lc_return_def
      lc_stop_def)

lemma visit_Suc_eq:
  "lit_collector_visit (Suc k) E t c =
     (case lit_collector_find_cached_term E (unsigned_term t) c of
        (Stop s, c1) \<Rightarrow> (Stop s, c1)
      | (Return u, c1) \<Rightarrow>
          if u \<noteq> NULL_TERM then (Return (u XOR polarity_of t), c1)
          else (case visit_switch (lit_collector_visit k E) E (unsigned_term t) c1 of
                  (Stop s, c2) \<Rightarrow> (Stop s, c2)
                | (Return u', c2) \<Rightarrow>
                    (case lit_collector_cache_result E (unsigned_term t) u' c2 of
                       (Stop s, c3) \<Rightarrow> (Stop s, c3)
                     | (Return _, c3) \<Rightarrow> (Return (u' XOR polarity_of t), c3))))"
  by (simp add: lit_collector_visit.simps Let_def lc_bind_def lc_return_def
      split: prod.splits outcome.splits)

lemma register_atom_eq:
  "register_atom E t c =
     (if \<not> (ndebug E \<or> is_boolean_term (terms E) t) then (Stop AssertFail, c)
      else if eval_in_model E t < 0 then (Stop (Longjmp LIT_COLLECT_EVAL_FAILED), c)
      else let b = is_true E (eval_in_model E t);
               l = (if b then t else opposite_term t)
           in if \<not> (ndebug E \<or> (is_boolean_term (terms E) l \<and> is_true E (eval_in_model E l)))
              then (Stop AssertFail, c)
              else (Return (bool2term b),
                    if l = true_term \<or> l \<in> set (lit_set c) then c
                    else c\<lparr>lit_set := lit_set c @ [l]\<rparr>))"
  by (simp add: register_atom_def term_is_true_in_model_def lit_collector_add_literal_def
      is_true_in_model_def int_hset_add_def lc_assert_call_def lc_bind_def lc_assert_def
      lc_return_def lc_stop_def lc_longjmp_def Let_def bool2term_def)

lemma inv_visit_eq_atom:
  assumes v: "lc_inv I (v u)"
    and reg: "\<And>u. R u \<Longrightarrow> lc_inv I (register_atom E u)"
    and stk: "\<And>c s. I c \<Longrightarrow> I (c\<lparr>stack := s\<rparr>)"
    and rb: "\<And>u. is_boolean_term (terms E) u \<Longrightarrow> R u"
    and ao: "atoms_ok R E" and rt: "R t"
  shows "lc_inv I (lit_collector_visit_eq_atom v E t u)"
  using ao rt
  unfolding lit_collector_visit_eq_atom_def Let_def
  by (intro inv_intros inv_visit_args inv_visit_binary inv_visit_poly_vars inv_find_true_disjunct
        inv_visit_false_disjuncts inv_visit_xor_args inv_stack [of I, OF stk] reg v; (auto simp: atoms_ok_def intro: rb)?)

lemma inv_visit_ge_atom:
  assumes v: "lc_inv I (v u)"
    and reg: "\<And>u. R u \<Longrightarrow> lc_inv I (register_atom E u)"
    and stk: "\<And>c s. I c \<Longrightarrow> I (c\<lparr>stack := s\<rparr>)"
    and rb: "\<And>u. is_boolean_term (terms E) u \<Longrightarrow> R u"
    and ao: "atoms_ok R E" and rt: "R t"
  shows "lc_inv I (lit_collector_visit_ge_atom v E t u)"
  using ao rt
  unfolding lit_collector_visit_ge_atom_def Let_def
  by (intro inv_intros inv_visit_args inv_visit_binary inv_visit_poly_vars inv_find_true_disjunct
        inv_visit_false_disjuncts inv_visit_xor_args inv_stack [of I, OF stk] reg v; (auto simp: atoms_ok_def intro: rb)?)

lemma inv_visit_ite:
  assumes v: "\<And>u. u \<in> set d \<Longrightarrow> lc_inv I (v u)"
    and reg: "\<And>u. R u \<Longrightarrow> lc_inv I (register_atom E u)"
    and stk: "\<And>c s. I c \<Longrightarrow> I (c\<lparr>stack := s\<rparr>)"
  shows "lc_inv I (lit_collector_visit_ite v E t d)"
  unfolding lit_collector_visit_ite_def Let_def
  by (intro inv_intros inv_visit_args inv_visit_binary inv_visit_poly_vars inv_find_true_disjunct
        inv_visit_false_disjuncts inv_visit_xor_args inv_stack [of I, OF stk] reg v; (auto)?)

lemma inv_visit_update:
  assumes v: "\<And>u. u \<in> set d \<Longrightarrow> lc_inv I (v u)"
    and reg: "\<And>u. R u \<Longrightarrow> lc_inv I (register_atom E u)"
    and stk: "\<And>c s. I c \<Longrightarrow> I (c\<lparr>stack := s\<rparr>)"
  shows "lc_inv I (lit_collector_visit_update v E t d)"
  unfolding lit_collector_visit_update_def Let_def
  by (intro inv_intros inv_visit_args inv_visit_binary inv_visit_poly_vars inv_find_true_disjunct
        inv_visit_false_disjuncts inv_visit_xor_args inv_stack [of I, OF stk] reg v; (auto)?)

lemma inv_visit_tuple:
  assumes v: "\<And>u. u \<in> set d \<Longrightarrow> lc_inv I (v u)"
    and reg: "\<And>u. R u \<Longrightarrow> lc_inv I (register_atom E u)"
    and stk: "\<And>c s. I c \<Longrightarrow> I (c\<lparr>stack := s\<rparr>)"
  shows "lc_inv I (lit_collector_visit_tuple v E t d)"
  unfolding lit_collector_visit_tuple_def Let_def
  by (intro inv_intros inv_visit_args inv_visit_binary inv_visit_poly_vars inv_find_true_disjunct
        inv_visit_false_disjuncts inv_visit_xor_args inv_stack [of I, OF stk] reg v; (auto)?)

lemma inv_visit_or:
  assumes v: "\<And>u. u \<in> set d \<Longrightarrow> lc_inv I (v u)"
    and reg: "\<And>u. R u \<Longrightarrow> lc_inv I (register_atom E u)"
    and stk: "\<And>c s. I c \<Longrightarrow> I (c\<lparr>stack := s\<rparr>)"
  shows "lc_inv I (lit_collector_visit_or v E t d)"
  unfolding lit_collector_visit_or_def Let_def
  by (intro inv_intros inv_visit_args inv_visit_binary inv_visit_poly_vars inv_find_true_disjunct
        inv_visit_false_disjuncts inv_visit_xor_args inv_stack [of I, OF stk] reg v; (auto)?)

lemma inv_visit_xor:
  assumes v: "\<And>u. u \<in> set d \<Longrightarrow> lc_inv I (v u)"
    and reg: "\<And>u. R u \<Longrightarrow> lc_inv I (register_atom E u)"
    and stk: "\<And>c s. I c \<Longrightarrow> I (c\<lparr>stack := s\<rparr>)"
  shows "lc_inv I (lit_collector_visit_xor v E t d)"
  unfolding lit_collector_visit_xor_def Let_def
  by (intro inv_intros inv_visit_args inv_visit_binary inv_visit_poly_vars inv_find_true_disjunct
        inv_visit_false_disjuncts inv_visit_xor_args inv_stack [of I, OF stk] reg v; (auto)?)

lemma inv_visit_bvarray:
  assumes v: "\<And>u. u \<in> set d \<Longrightarrow> lc_inv I (v u)"
    and reg: "\<And>u. R u \<Longrightarrow> lc_inv I (register_atom E u)"
    and stk: "\<And>c s. I c \<Longrightarrow> I (c\<lparr>stack := s\<rparr>)"
  shows "lc_inv I (lit_collector_visit_bvarray v E t d)"
  unfolding lit_collector_visit_bvarray_def Let_def
  by (intro inv_intros inv_visit_args inv_visit_binary inv_visit_poly_vars inv_find_true_disjunct
        inv_visit_false_disjuncts inv_visit_xor_args inv_stack [of I, OF stk] reg v; (auto)?)

lemma inv_visit_app:
  assumes v: "\<And>u. u \<in> set d \<Longrightarrow> lc_inv I (v u)"
    and reg: "\<And>u. R u \<Longrightarrow> lc_inv I (register_atom E u)"
    and stk: "\<And>c s. I c \<Longrightarrow> I (c\<lparr>stack := s\<rparr>)"
    and rb: "\<And>u. is_boolean_term (terms E) u \<Longrightarrow> R u"
  shows "lc_inv I (lit_collector_visit_app v E t d)"
  unfolding lit_collector_visit_app_def Let_def
  by (intro inv_intros inv_visit_args inv_visit_binary inv_visit_poly_vars inv_find_true_disjunct
        inv_visit_false_disjuncts inv_visit_xor_args inv_stack [of I, OF stk] reg v; (auto simp: atoms_ok_def intro: rb)?)

lemma inv_visit_distinct:
  assumes v: "\<And>u. u \<in> set d \<Longrightarrow> lc_inv I (v u)"
    and reg: "\<And>u. R u \<Longrightarrow> lc_inv I (register_atom E u)"
    and stk: "\<And>c s. I c \<Longrightarrow> I (c\<lparr>stack := s\<rparr>)"
    and rb: "\<And>u. is_boolean_term (terms E) u \<Longrightarrow> R u"
    and ao: "atoms_ok R E" and rt: "R t"
  shows "lc_inv I (lit_collector_visit_distinct v E t d)"
  using ao rt
  unfolding lit_collector_visit_distinct_def Let_def
  by (intro inv_intros inv_visit_args inv_visit_binary inv_visit_poly_vars inv_find_true_disjunct
        inv_visit_false_disjuncts inv_visit_xor_args inv_stack [of I, OF stk] reg v; (auto simp: atoms_ok_def intro: rb)?)

lemma inv_visit_eq:
  assumes v: "\<And>u. u \<in> set d \<Longrightarrow> lc_inv I (v u)"
    and reg: "\<And>u. R u \<Longrightarrow> lc_inv I (register_atom E u)"
    and stk: "\<And>c s. I c \<Longrightarrow> I (c\<lparr>stack := s\<rparr>)"
    and rb: "\<And>u. is_boolean_term (terms E) u \<Longrightarrow> R u"
    and ao: "atoms_ok R E" and rt: "R t"
  shows "lc_inv I (lit_collector_visit_eq v E t d)"
  using ao rt
  unfolding lit_collector_visit_eq_def visit_binary_def Let_def
  apply (simp only: lc_bind_assoc lc_bind_return)
  apply (intro inv_intros inv_visit_args inv_visit_binary inv_visit_poly_vars inv_find_true_disjunct
        inv_visit_false_disjuncts inv_visit_xor_args inv_stack [of I, OF stk] reg v; (auto simp: atoms_ok_def intro: rb)?)
  done

lemma inv_visit_arith_bineq:
  assumes v: "\<And>u. u \<in> set d \<Longrightarrow> lc_inv I (v u)"
    and reg: "\<And>u. R u \<Longrightarrow> lc_inv I (register_atom E u)"
    and stk: "\<And>c s. I c \<Longrightarrow> I (c\<lparr>stack := s\<rparr>)"
    and rb: "\<And>u. is_boolean_term (terms E) u \<Longrightarrow> R u"
    and ao: "atoms_ok R E" and rt: "R t"
  shows "lc_inv I (lit_collector_visit_arith_bineq v E t d)"
  using ao rt
  unfolding lit_collector_visit_arith_bineq_def visit_binary_def Let_def
  apply (simp only: lc_bind_assoc lc_bind_return)
  apply (intro inv_intros inv_visit_args inv_visit_binary inv_visit_poly_vars inv_find_true_disjunct
        inv_visit_false_disjuncts inv_visit_xor_args inv_stack [of I, OF stk] reg v; (auto simp: atoms_ok_def intro: rb)?)
  done

lemma inv_visit_bveq:
  assumes v: "\<And>u. u \<in> set d \<Longrightarrow> lc_inv I (v u)"
    and reg: "\<And>u. R u \<Longrightarrow> lc_inv I (register_atom E u)"
    and stk: "\<And>c s. I c \<Longrightarrow> I (c\<lparr>stack := s\<rparr>)"
    and rb: "\<And>u. is_boolean_term (terms E) u \<Longrightarrow> R u"
    and ao: "atoms_ok R E" and rt: "R t"
  shows "lc_inv I (lit_collector_visit_bveq v E t d)"
  using ao rt
  unfolding lit_collector_visit_bveq_def visit_binary_def Let_def
  apply (simp only: lc_bind_assoc lc_bind_return)
  apply (intro inv_intros inv_visit_args inv_visit_binary inv_visit_poly_vars inv_find_true_disjunct
        inv_visit_false_disjuncts inv_visit_xor_args inv_stack [of I, OF stk] reg v; (auto simp: atoms_ok_def intro: rb)?)
  done

lemma inv_visit_bvge:
  assumes v: "\<And>u. u \<in> set d \<Longrightarrow> lc_inv I (v u)"
    and reg: "\<And>u. R u \<Longrightarrow> lc_inv I (register_atom E u)"
    and stk: "\<And>c s. I c \<Longrightarrow> I (c\<lparr>stack := s\<rparr>)"
    and rb: "\<And>u. is_boolean_term (terms E) u \<Longrightarrow> R u"
    and ao: "atoms_ok R E" and rt: "R t"
  shows "lc_inv I (lit_collector_visit_bvge v E t d)"
  using ao rt
  unfolding lit_collector_visit_bvge_def visit_binary_def Let_def
  apply (simp only: lc_bind_assoc lc_bind_return)
  apply (intro inv_intros inv_visit_args inv_visit_binary inv_visit_poly_vars inv_find_true_disjunct
        inv_visit_false_disjuncts inv_visit_xor_args inv_stack [of I, OF stk] reg v; (auto simp: atoms_ok_def intro: rb)?)
  done

lemma inv_visit_bvsge:
  assumes v: "\<And>u. u \<in> set d \<Longrightarrow> lc_inv I (v u)"
    and reg: "\<And>u. R u \<Longrightarrow> lc_inv I (register_atom E u)"
    and stk: "\<And>c s. I c \<Longrightarrow> I (c\<lparr>stack := s\<rparr>)"
    and rb: "\<And>u. is_boolean_term (terms E) u \<Longrightarrow> R u"
    and ao: "atoms_ok R E" and rt: "R t"
  shows "lc_inv I (lit_collector_visit_bvsge v E t d)"
  using ao rt
  unfolding lit_collector_visit_bvsge_def visit_binary_def Let_def
  apply (simp only: lc_bind_assoc lc_bind_return)
  apply (intro inv_intros inv_visit_args inv_visit_binary inv_visit_poly_vars inv_find_true_disjunct
        inv_visit_false_disjuncts inv_visit_xor_args inv_stack [of I, OF stk] reg v; (auto simp: atoms_ok_def intro: rb)?)
  done

lemma inv_visit_bvdiv:
  assumes v: "\<And>u. u \<in> set d \<Longrightarrow> lc_inv I (v u)"
    and reg: "\<And>u. R u \<Longrightarrow> lc_inv I (register_atom E u)"
    and stk: "\<And>c s. I c \<Longrightarrow> I (c\<lparr>stack := s\<rparr>)"
  shows "lc_inv I (lit_collector_visit_bvdiv v E t d)"
  unfolding lit_collector_visit_bvdiv_def Let_def
  by (intro inv_intros inv_visit_args inv_visit_binary inv_visit_poly_vars inv_find_true_disjunct
        inv_visit_false_disjuncts inv_visit_xor_args inv_stack [of I, OF stk] reg v; (auto)?)

lemma inv_visit_bvrem:
  assumes v: "\<And>u. u \<in> set d \<Longrightarrow> lc_inv I (v u)"
    and reg: "\<And>u. R u \<Longrightarrow> lc_inv I (register_atom E u)"
    and stk: "\<And>c s. I c \<Longrightarrow> I (c\<lparr>stack := s\<rparr>)"
  shows "lc_inv I (lit_collector_visit_bvrem v E t d)"
  unfolding lit_collector_visit_bvrem_def Let_def
  by (intro inv_intros inv_visit_args inv_visit_binary inv_visit_poly_vars inv_find_true_disjunct
        inv_visit_false_disjuncts inv_visit_xor_args inv_stack [of I, OF stk] reg v; (auto)?)

lemma inv_visit_bvsdiv:
  assumes v: "\<And>u. u \<in> set d \<Longrightarrow> lc_inv I (v u)"
    and reg: "\<And>u. R u \<Longrightarrow> lc_inv I (register_atom E u)"
    and stk: "\<And>c s. I c \<Longrightarrow> I (c\<lparr>stack := s\<rparr>)"
  shows "lc_inv I (lit_collector_visit_bvsdiv v E t d)"
  unfolding lit_collector_visit_bvsdiv_def Let_def
  by (intro inv_intros inv_visit_args inv_visit_binary inv_visit_poly_vars inv_find_true_disjunct
        inv_visit_false_disjuncts inv_visit_xor_args inv_stack [of I, OF stk] reg v; (auto)?)

lemma inv_visit_bvsrem:
  assumes v: "\<And>u. u \<in> set d \<Longrightarrow> lc_inv I (v u)"
    and reg: "\<And>u. R u \<Longrightarrow> lc_inv I (register_atom E u)"
    and stk: "\<And>c s. I c \<Longrightarrow> I (c\<lparr>stack := s\<rparr>)"
  shows "lc_inv I (lit_collector_visit_bvsrem v E t d)"
  unfolding lit_collector_visit_bvsrem_def Let_def
  by (intro inv_intros inv_visit_args inv_visit_binary inv_visit_poly_vars inv_find_true_disjunct
        inv_visit_false_disjuncts inv_visit_xor_args inv_stack [of I, OF stk] reg v; (auto)?)

lemma inv_visit_bvsmod:
  assumes v: "\<And>u. u \<in> set d \<Longrightarrow> lc_inv I (v u)"
    and reg: "\<And>u. R u \<Longrightarrow> lc_inv I (register_atom E u)"
    and stk: "\<And>c s. I c \<Longrightarrow> I (c\<lparr>stack := s\<rparr>)"
  shows "lc_inv I (lit_collector_visit_bvsmod v E t d)"
  unfolding lit_collector_visit_bvsmod_def Let_def
  by (intro inv_intros inv_visit_args inv_visit_binary inv_visit_poly_vars inv_find_true_disjunct
        inv_visit_false_disjuncts inv_visit_xor_args inv_stack [of I, OF stk] reg v; (auto)?)

lemma inv_visit_bvshl:
  assumes v: "\<And>u. u \<in> set d \<Longrightarrow> lc_inv I (v u)"
    and reg: "\<And>u. R u \<Longrightarrow> lc_inv I (register_atom E u)"
    and stk: "\<And>c s. I c \<Longrightarrow> I (c\<lparr>stack := s\<rparr>)"
  shows "lc_inv I (lit_collector_visit_bvshl v E t d)"
  unfolding lit_collector_visit_bvshl_def Let_def
  by (intro inv_intros inv_visit_args inv_visit_binary inv_visit_poly_vars inv_find_true_disjunct
        inv_visit_false_disjuncts inv_visit_xor_args inv_stack [of I, OF stk] reg v; (auto)?)

lemma inv_visit_bvlshr:
  assumes v: "\<And>u. u \<in> set d \<Longrightarrow> lc_inv I (v u)"
    and reg: "\<And>u. R u \<Longrightarrow> lc_inv I (register_atom E u)"
    and stk: "\<And>c s. I c \<Longrightarrow> I (c\<lparr>stack := s\<rparr>)"
  shows "lc_inv I (lit_collector_visit_bvlshr v E t d)"
  unfolding lit_collector_visit_bvlshr_def Let_def
  by (intro inv_intros inv_visit_args inv_visit_binary inv_visit_poly_vars inv_find_true_disjunct
        inv_visit_false_disjuncts inv_visit_xor_args inv_stack [of I, OF stk] reg v; (auto)?)

lemma inv_visit_bvashr:
  assumes v: "\<And>u. u \<in> set d \<Longrightarrow> lc_inv I (v u)"
    and reg: "\<And>u. R u \<Longrightarrow> lc_inv I (register_atom E u)"
    and stk: "\<And>c s. I c \<Longrightarrow> I (c\<lparr>stack := s\<rparr>)"
  shows "lc_inv I (lit_collector_visit_bvashr v E t d)"
  unfolding lit_collector_visit_bvashr_def Let_def
  by (intro inv_intros inv_visit_args inv_visit_binary inv_visit_poly_vars inv_find_true_disjunct
        inv_visit_false_disjuncts inv_visit_xor_args inv_stack [of I, OF stk] reg v; (auto)?)

lemma inv_visit_select:
  assumes v: "lc_inv I (v (snd d))"
    and reg: "\<And>u. R u \<Longrightarrow> lc_inv I (register_atom E u)"
    and stk: "\<And>c s. I c \<Longrightarrow> I (c\<lparr>stack := s\<rparr>)"
    and rb: "\<And>u. is_boolean_term (terms E) u \<Longrightarrow> R u"
  shows "lc_inv I (lit_collector_visit_select v E t d)"
  unfolding lit_collector_visit_select_def Let_def
  by (intro inv_intros inv_visit_args inv_visit_binary inv_visit_poly_vars inv_find_true_disjunct
        inv_visit_false_disjuncts inv_visit_xor_args inv_stack [of I, OF stk] reg v; (auto simp: atoms_ok_def intro: rb)?)

lemma inv_visit_bit:
  assumes v: "lc_inv I (v (snd d))"
    and reg: "\<And>u. R u \<Longrightarrow> lc_inv I (register_atom E u)"
    and stk: "\<And>c s. I c \<Longrightarrow> I (c\<lparr>stack := s\<rparr>)"
    and rb: "\<And>u. is_boolean_term (terms E) u \<Longrightarrow> R u"
    and ao: "atoms_ok R E" and rt: "R t"
  shows "lc_inv I (lit_collector_visit_bit v E t d)"
  using ao rt
  unfolding lit_collector_visit_bit_def Let_def
  by (intro inv_intros inv_visit_args inv_visit_binary inv_visit_poly_vars inv_find_true_disjunct
        inv_visit_false_disjuncts inv_visit_xor_args inv_stack [of I, OF stk] reg v; (auto simp: atoms_ok_def intro: rb)?)

lemma inv_visit_pprod:
  assumes v: "\<And>u. u \<in> fst ` set p \<Longrightarrow> lc_inv I (v u)"
    and reg: "\<And>u. R u \<Longrightarrow> lc_inv I (register_atom E u)"
    and stk: "\<And>c s. I c \<Longrightarrow> I (c\<lparr>stack := s\<rparr>)"
  shows "lc_inv I (lit_collector_visit_pprod v E t p)"
  unfolding lit_collector_visit_pprod_def Let_def
  by (intro inv_intros inv_visit_args inv_visit_binary inv_visit_poly_vars inv_find_true_disjunct
        inv_visit_false_disjuncts inv_visit_xor_args inv_stack [of I, OF stk] reg v; (auto)?)

lemma inv_visit_poly:
  assumes v: "\<And>u. u \<in> set (poly_children (map snd p)) \<Longrightarrow> lc_inv I (v u)"
    and reg: "\<And>u. R u \<Longrightarrow> lc_inv I (register_atom E u)"
    and stk: "\<And>c s. I c \<Longrightarrow> I (c\<lparr>stack := s\<rparr>)"
  shows "lc_inv I (lit_collector_visit_poly v E t p)"
  unfolding lit_collector_visit_poly_def Let_def
  by (intro inv_intros inv_visit_args inv_visit_binary inv_visit_poly_vars inv_find_true_disjunct
        inv_visit_false_disjuncts inv_visit_xor_args inv_stack [of I, OF stk] reg v; (auto)?)

lemma inv_visit_bvpoly64:
  assumes v: "\<And>u. u \<in> set (poly_children (map snd p)) \<Longrightarrow> lc_inv I (v u)"
    and reg: "\<And>u. R u \<Longrightarrow> lc_inv I (register_atom E u)"
    and stk: "\<And>c s. I c \<Longrightarrow> I (c\<lparr>stack := s\<rparr>)"
  shows "lc_inv I (lit_collector_visit_bvpoly64 v E t p)"
  unfolding lit_collector_visit_bvpoly64_def Let_def
  by (intro inv_intros inv_visit_args inv_visit_binary inv_visit_poly_vars inv_find_true_disjunct
        inv_visit_false_disjuncts inv_visit_xor_args inv_stack [of I, OF stk] reg v; (auto)?)

lemma inv_visit_bvpoly:
  assumes v: "\<And>u. u \<in> set (poly_children (map snd p)) \<Longrightarrow> lc_inv I (v u)"
    and reg: "\<And>u. R u \<Longrightarrow> lc_inv I (register_atom E u)"
    and stk: "\<And>c s. I c \<Longrightarrow> I (c\<lparr>stack := s\<rparr>)"
  shows "lc_inv I (lit_collector_visit_bvpoly v E t p)"
  unfolding lit_collector_visit_bvpoly_def Let_def
  by (intro inv_intros inv_visit_args inv_visit_binary inv_visit_poly_vars inv_find_true_disjunct
        inv_visit_false_disjuncts inv_visit_xor_args inv_stack [of I, OF stk] reg v; (auto)?)

lemma inv_visit_switch:
  assumes v: "\<And>u. u \<in> set (children E t) \<Longrightarrow> lc_inv I (v u)"
    and reg: "\<And>u. R u \<Longrightarrow> lc_inv I (register_atom E u)"
    and stk: "\<And>c s. I c \<Longrightarrow> I (c\<lparr>stack := s\<rparr>)"
    and rb: "\<And>u. is_boolean_term (terms E) u \<Longrightarrow> R u"
    and ao: "atoms_ok R E"
  shows "lc_inv I (visit_switch v E t)"
proof -
  note kinds = inv_visit_eq_atom inv_visit_ge_atom inv_visit_ite inv_visit_app inv_visit_update
    inv_visit_tuple inv_visit_eq inv_visit_distinct inv_visit_or inv_visit_xor
    inv_visit_arith_bineq inv_visit_bvarray inv_visit_bveq inv_visit_bvge inv_visit_bvsge
    inv_visit_bvdiv inv_visit_bvrem inv_visit_bvsdiv inv_visit_bvsrem inv_visit_bvsmod
    inv_visit_bvshl inv_visit_bvlshr inv_visit_bvashr inv_visit_select inv_visit_bit
    inv_visit_pprod inv_visit_poly inv_visit_bvpoly64 inv_visit_bvpoly
  have rt: "atom_kind (term_kind (terms E) t) \<Longrightarrow> R t"
    using ao by (simp add: atoms_ok_def)
  show ?thesis
    using v rt unfolding visit_switch_def children_def Let_def
    by (cases "term_kind (terms E) t")
       (simp_all add: kinds [where R = R] reg stk rb ao inv_return inv_longjmp inv_bind_assert
          atom_kind_def)
qed

lemma inv_find_cached_term: "lc_inv I (lit_collector_find_cached_term E t)"
  by (simp add: lc_inv_def lc_spec_def find_cached_term_eq split: option.splits)

lemma inv_cache_result:
  "(\<And>c. I c \<Longrightarrow> I (c\<lparr>cache := (cache c)(t \<mapsto> u)\<rparr>)) \<Longrightarrow>
   lc_inv I (lit_collector_cache_result E t u)"
  by (simp add: lc_inv_def lc_spec_def cache_result_eq)

lemma inv_visit:
  assumes reg: "\<And>u. R u \<Longrightarrow> lc_inv I (register_atom E u)"
    and stk: "\<And>c s. I c \<Longrightarrow> I (c\<lparr>stack := s\<rparr>)"
    and cch: "\<And>c t u. I c \<Longrightarrow> I (c\<lparr>cache := (cache c)(t \<mapsto> u)\<rparr>)"
    and rb: "\<And>u. is_boolean_term (terms E) u \<Longrightarrow> R u"
    and ao: "atoms_ok R E"
  shows "lc_inv I (lit_collector_visit k E t)"
proof (induction k arbitrary: t)
  case 0
  show ?case by (simp add: inv_stop)
next
  case (Suc k)
  show ?case
    unfolding lit_collector_visit.simps Let_def
    by (intro inv_intros inv_find_cached_term inv_cache_result cch Suc.IH
        inv_visit_switch [where R = R, OF _ reg stk rb ao])
qed

lemma lc_invD:
  assumes "lc_inv I m" and "I c"
  shows "I (snd (m c))"
proof -
  obtain r c' where r: "m c = (r, c')" by force
  from assms have "case m c of (Return x, c') \<Rightarrow> I c' \<and> True | (Stop s, c') \<Rightarrow> I c' \<and> True"
    by (simp add: lc_inv_def lc_spec_def)
  with r show ?thesis by (cases r) simp_all
qed

lemma lc_invI:
  assumes "\<And>c. I c \<Longrightarrow> I (snd (m c))"
  shows "lc_inv I m"
  unfolding lc_inv_def lc_spec_def
proof (intro allI impI)
  fix c assume "I c"
  then have "I (snd (m c))" by (rule assms)
  then show "case m c of (Return x, c') \<Rightarrow> I c' \<and> True | (Stop s, c') \<Rightarrow> I c' \<and> True"
    by (cases "m c"; cases "fst (m c)") simp_all
qed


lemma process_eq:
  "lit_collector_process k E t c =
     (case lit_collector_visit k E t c of
        (Return u, c') \<Rightarrow> (Return u, c')
      | (Stop (Longjmp e), c') \<Rightarrow>
          if ndebug E \<or> setjmp_value (error_code E e) < 0
          then (Return (setjmp_value (error_code E e)), c'\<lparr>stack := []\<rparr>)
          else (Stop AssertFail, c')
      | (Stop s, c') \<Rightarrow> (Stop s, c'))"
  by (simp add: lit_collector_process_def lc_bind_def lc_assert_def lc_return_def lc_stop_def
      reset_istack_def Let_def split: prod.splits outcome.splits stop_t.splits)

lemma inv_process:
  assumes v: "lc_inv I (lit_collector_visit k E t)" and stk: "\<And>c s. I c \<Longrightarrow> I (c\<lparr>stack := s\<rparr>)"
  shows "lc_inv I (lit_collector_process k E t)"
proof (rule lc_invI)
  fix c assume c: "I c"
  obtain r c' where r: "lit_collector_visit k E t c = (r, c')" by force
  with lc_invD [OF v c] have c': "I c'" by simp
  show "I (snd (lit_collector_process k E t c))"
    using r c' stk [OF c', of "[]"]
    by (simp add: process_eq split: outcome.splits stop_t.splits)
qed

lemma inv_process_assertions:
  assumes "\<And>t. lc_inv I (lit_collector_process k E t)"
  shows "lc_inv I (process_assertions k E a)"
proof (induction a)
  case Nil
  show ?case by (simp add: inv_return)
next
  case (Cons x xs)
  show ?case by (simp, intro inv_intros assms Cons.IH)
qed

section \<open>Evaluation of the example\<close>

lemmas ex_defs = ex_env_def ex_val_def ex_val0_def ex_manager_def ex_terms_def ex_desc_def ex_bool_def ex_kind_def

lemmas lc_defs = lc_bind_def lc_return_def lc_stop_def lc_longjmp_def lc_assert_def lc_assert_call_def
  composite_arg_def alloc_istack_array_def free_istack_array_def int_hset_add_def
  lit_collector_find_cached_term_def lit_collector_cache_result_def term_is_true_in_model_def
  is_true_in_model_def lit_collector_add_literal_def register_atom_def

lemmas term_defs = NULL_TERM_def const_idx_def true_term_def false_term_def polarity_of_def
  unsigned_term_def opposite_term_def bool2term_def

lemmas kind_defs = lit_collector_visit_eq_atom_def lit_collector_visit_ge_atom_def
    lit_collector_visit_ite_def lit_collector_visit_app_def lit_collector_visit_update_def
    lit_collector_visit_tuple_def lit_collector_visit_eq_def lit_collector_visit_distinct_def
    lit_collector_visit_or_def lit_collector_visit_xor_def lit_collector_visit_arith_bineq_def
    lit_collector_visit_bvarray_def lit_collector_visit_bvdiv_def lit_collector_visit_bvrem_def
    lit_collector_visit_bvsdiv_def lit_collector_visit_bvsrem_def lit_collector_visit_bvsmod_def
    lit_collector_visit_bvshl_def lit_collector_visit_bvlshr_def lit_collector_visit_bvashr_def
    lit_collector_visit_bveq_def lit_collector_visit_bvge_def lit_collector_visit_bvsge_def
    lit_collector_visit_select_def lit_collector_visit_bit_def lit_collector_visit_pprod_def
    lit_collector_visit_poly_def lit_collector_visit_bvpoly64_def lit_collector_visit_bvpoly_def
    visit_binary_def visit_poly_vars_def visit_switch_def
    inequal_array_poly_def inequal_array_pprod_def inequal_array_bvpoly_def inequal_array_bvpoly64_def


lemma visit_numeral:
  "lit_collector_visit (numeral n) E t =
     (let polarity = polarity_of t; t0 = unsigned_term t in
      lc_bind (lit_collector_find_cached_term E t0) (\<lambda>u.
      lc_bind (if u = NULL_TERM
               then lc_bind (visit_switch (lit_collector_visit (pred_numeral n) E) E t0) (\<lambda>u'.
                    lc_bind (lit_collector_cache_result E t0 u') (\<lambda>_. lc_return u'))
               else lc_return u) (\<lambda>u.
      lc_return (u XOR polarity))))"
  by (simp add: numeral_eq_Suc)

declare lit_collector_visit.simps(2) [simp del]

lemma ex_val_even: "even t \<Longrightarrow> ex_val t = ex_val0 t"
  unfolding ex_val_def polarity_of_mod by presburger

lemma ex_val_odd:
  "odd t \<Longrightarrow> ex_val t = (if ex_val0 (t - 1) = 1 then 0 else if ex_val0 (t - 1) = 0 then 1 else -1)"
proof -
  assume "odd t"
  then have "polarity_of t \<noteq> 0" "unsigned_term t = t - 1"
    unfolding polarity_of_mod unsigned_term_arith by presburger+
  then show ?thesis by (simp add: ex_val_def)
qed

lemma ex_bool_val0:
  "u \<in> {2, 4, 6, 12, 16, 18, 24, 32, 34, 36, 38} \<Longrightarrow> ex_val0 u = 0 \<or> ex_val0 u = 1"
  by (auto simp: ex_val0_def)

lemma ex_negation_sound: "negation_sound (ex_env nd)"
  unfolding negation_sound_def true_in_model_def
proof (intro allI impI)
  fix t
  let ?E = "ex_env nd"
  assume a: "is_boolean_term (terms ?E) t \<and> 0 \<le> eval_in_model ?E t \<and>
    \<not> is_true ?E (eval_in_model ?E t)"
  then have b: "ex_val0 (unsigned_term t) = 0 \<or> ex_val0 (unsigned_term t) = 1"
    by (intro ex_bool_val0) (simp add: ex_env_def ex_terms_def ex_bool_def)
  from a have v: "0 \<le> ex_val t" "ex_val t \<noteq> 1" by (simp_all add: ex_env_def)
  have "ex_val (opposite_term t) = 1"
  proof (cases "even t")
    case True
    then have "unsigned_term t = t" "opposite_term t = t + 1" "odd (t + 1)"
      unfolding opposite_term_arith unsigned_term_arith by presburger+
    with b v True show ?thesis by (simp add: ex_val_even ex_val_odd)
  next
    case False
    then have "unsigned_term t = t - 1" "opposite_term t = t - 1" "even (t - 1)"
      unfolding opposite_term_arith unsigned_term_arith by presburger+
    with b v False show ?thesis by (auto simp: ex_val_even ex_val_odd split: if_splits)
  qed
  then show "0 \<le> eval_in_model ?E (opposite_term t) \<and> is_true ?E (eval_in_model ?E (opposite_term t))"
    by (simp add: ex_env_def)
qed

lemma ex_atoms_boolean: "atoms_boolean (ex_env nd)"
  by (simp add: atoms_boolean_def atoms_ok_def atom_kind_def ex_defs term_defs)


section \<open>Rules for the returned term\<close>

lemma res_return: "P x \<Longrightarrow> lc_res I (lc_return x) P"
  by (simp add: lc_res_def spec_return)

lemma res_stop: "lc_res I (lc_stop s) P"
  by (simp add: lc_res_def spec_stop)

lemma res_longjmp: "lc_res I (lc_longjmp e) P"
  by (simp add: lc_res_def spec_longjmp)

lemma res_bind:
  "lc_res I m P' \<Longrightarrow> (\<And>x. P' x \<Longrightarrow> lc_res I (f x) P) \<Longrightarrow> lc_res I (lc_bind m f) P"
  unfolding lc_res_def by (rule spec_bind)

lemma res_weaken: "lc_res I m P' \<Longrightarrow> (\<And>x. P' x \<Longrightarrow> P x) \<Longrightarrow> lc_res I m P"
  unfolding lc_res_def by (rule spec_weaken)

lemma res_of_inv: "lc_inv I m \<Longrightarrow> lc_res I m (\<lambda>_. True)"
  by (simp add: lc_res_def lc_inv_def)

lemma res_bind_inv:
  "lc_inv I m \<Longrightarrow> (\<And>x. lc_res I (f x) P) \<Longrightarrow> lc_res I (lc_bind m f) P"
  by (rule res_bind [OF res_of_inv])

lemma res_if:
  "(b \<Longrightarrow> lc_res I m P) \<Longrightarrow> (\<not> b \<Longrightarrow> lc_res I n P) \<Longrightarrow> lc_res I (if b then m else n) P"
  by simp

lemma res_bind_composite_arg:
  "(i < length d \<Longrightarrow> lc_res I (f (d ! i)) P) \<Longrightarrow> lc_res I (lc_bind (composite_arg d i) f) P"
  by (simp add: lc_bind_composite_arg res_stop)

lemma res_bind_assert:
  "(ndebug E \<or> b \<Longrightarrow> lc_res I (f ()) P) \<Longrightarrow> lc_res I (lc_bind (lc_assert E b) f) P"
  by (simp add: lc_bind_assert res_stop)

lemma res_visit_args:
  "(\<And>u. u \<in> set xs \<Longrightarrow> lc_res I (v u) P) \<Longrightarrow> lc_res I (visit_args v xs) (list_all P)"
  unfolding lc_res_def
  by (rule spec_weaken [OF spec_visit_args [where P = "\<lambda>_. P"]])
     (simp_all add: list_all2_conv_all_nth list_all_length)

lemma res_register_atom:
  assumes "\<And>c l. I c \<Longrightarrow> I (c\<lparr>lit_set := l\<rparr>)" and "\<And>b. P (bool2term b)"
  shows "lc_res I (register_atom E t) P"
  using assms by (simp add: lc_res_def lc_spec_def register_atom_eq Let_def)

lemma res_bind_return: "lc_res I (f x) P \<Longrightarrow> lc_res I (lc_bind (lc_return x) f) P"
  by (simp add: lc_bind_return)

lemma res_bind_if:
  "(b \<Longrightarrow> lc_res I (lc_bind m f) P) \<Longrightarrow> (\<not> b \<Longrightarrow> lc_res I (lc_bind n f) P) \<Longrightarrow>
   lc_res I (lc_bind (if b then m else n) f) P"
  by simp

lemma res_bind_register_atom:
  assumes "\<And>c l. I c \<Longrightarrow> I (c\<lparr>lit_set := l\<rparr>)"
    and "\<And>b. lc_res I (f (bool2term b)) P"
  shows "lc_res I (lc_bind (register_atom E t) f) P"
proof (rule res_bind [where P' = "\<lambda>x. \<exists>b. x = bool2term b"])
  show "lc_res I (register_atom E t) (\<lambda>x. \<exists>b. x = bool2term b)"
    by (rule res_register_atom) (auto intro: assms(1))
  show "lc_res I (f x) P" if "\<exists>b. x = bool2term b" for x
    using that assms(2) by auto
qed

lemmas res_intros = res_bind_composite_arg res_bind_assert res_bind_return res_bind_if
  res_bind_register_atom
  res_bind_inv [OF inv_stack(1)] res_bind_inv [OF inv_stack(2)]
  res_bind_inv [OF inv_term_is_true] res_bind_inv [OF inv_find_true_disjunct]
  res_if res_return res_stop res_longjmp res_register_atom

lemma res_visit_poly_vars:
  assumes v: "\<And>u. u \<in> set (poly_children xs) \<Longrightarrow> lc_res I (v u) P"
  shows "lc_res I (visit_poly_vars v xs) (\<lambda>_. True)"
proof (cases xs)
  case Nil
  then show ?thesis by (simp add: visit_poly_vars_def res_return)
next
  case (Cons x ys)
  show ?thesis
  proof (cases "x = const_idx")
    case True
    with Cons v have "\<And>u. u \<in> set ys \<Longrightarrow> lc_res I (v u) P"
      by (simp add: poly_children_def)
    then have "lc_res I (lc_bind (visit_args v ys) (\<lambda>a. lc_return (const_idx # a))) (\<lambda>_. True)"
      by (intro res_bind [OF res_visit_args [where v = v and I = I and P = P]] res_return) simp_all
    with Cons True show ?thesis by (simp add: visit_poly_vars_def)
  next
    case False
    with Cons v have "\<And>u. u \<in> set xs \<Longrightarrow> lc_res I (v u) P"
      by (simp add: poly_children_def)
    then have "lc_res I (visit_args v xs) (\<lambda>_. True)"
      by (intro res_weaken [OF res_visit_args [where v = v and I = I and P = P]]) simp_all
    with Cons False show ?thesis by (simp add: visit_poly_vars_def del: visit_args.simps)
  qed
qed

lemma res_visit_false_disjuncts:
  assumes v: "\<And>u. u \<in> set xs \<Longrightarrow> lc_res I (v u) P" and "P u0"
  shows "lc_res I (visit_false_disjuncts v E xs u0) P"
  using assms
proof (induction xs arbitrary: u0)
  case Nil
  then show ?case by (simp add: res_return)
next
  case (Cons x xs)
  show ?case
    by (simp, intro res_bind [OF Cons.prems(1)] res_bind_assert Cons.IH Cons.prems(1)) auto
qed

lemma res_visit_xor_args:
  assumes v: "\<And>u. u \<in> set xs \<Longrightarrow> lc_res I (v u) P"
  shows "lc_res I (visit_xor_args v E xs b) (\<lambda>_. True)"
  using assms
proof (induction xs arbitrary: b)
  case Nil
  then show ?case by (simp add: res_return)
next
  case (Cons x xs)
  show ?case
    by (simp, intro res_bind [OF Cons.prems(1)] res_bind_assert Cons.IH Cons.prems(1)) auto
qed

lemma res_visit_eq_atom:
  assumes v: "\<And>u. u \<in> set [x] \<Longrightarrow> lc_res I (v u) P"
    and lit: "\<And>c l. I c \<Longrightarrow> I (c\<lparr>lit_set := l\<rparr>)"
    and stk: "\<And>c s. I c \<Longrightarrow> I (c\<lparr>stack := s\<rparr>)"
    and mo: "manager_ok P E" and pb: "\<And>b. P (bool2term b)" and pt: "P t"
  shows "lc_res I (lit_collector_visit_eq_atom v E t x) P"
  using mo pt pb [of False] unfolding lit_collector_visit_eq_atom_def Let_def manager_ok_def
    inequal_array_pprod_def inequal_array_poly_def inequal_array_bvpoly64_def
    inequal_array_bvpoly_def
  apply -
  apply ((simp only: lc_bind_assoc)?)
  apply (intro res_intros res_bind [OF v]
        res_bind [OF res_visit_args [where v = v and I = I and P = P, OF v]]
        res_bind [OF res_visit_poly_vars [where v = v and I = I and P = P, OF v]]
        res_bind [OF res_visit_xor_args [where v = v and I = I and P = P, OF v]]
        res_visit_false_disjuncts [where v = v and I = I and P = P, OF v] v stk lit pb;
      (auto simp: pb bool2term_def)?)
  done

lemma res_visit_ge_atom:
  assumes v: "\<And>u. u \<in> set [x] \<Longrightarrow> lc_res I (v u) P"
    and lit: "\<And>c l. I c \<Longrightarrow> I (c\<lparr>lit_set := l\<rparr>)"
    and stk: "\<And>c s. I c \<Longrightarrow> I (c\<lparr>stack := s\<rparr>)"
    and mo: "manager_ok P E" and pb: "\<And>b. P (bool2term b)" and pt: "P t"
  shows "lc_res I (lit_collector_visit_ge_atom v E t x) P"
  using mo pt pb [of False] unfolding lit_collector_visit_ge_atom_def Let_def manager_ok_def
    inequal_array_pprod_def inequal_array_poly_def inequal_array_bvpoly64_def
    inequal_array_bvpoly_def
  apply -
  apply ((simp only: lc_bind_assoc)?)
  apply (intro res_intros res_bind [OF v]
        res_bind [OF res_visit_args [where v = v and I = I and P = P, OF v]]
        res_bind [OF res_visit_poly_vars [where v = v and I = I and P = P, OF v]]
        res_bind [OF res_visit_xor_args [where v = v and I = I and P = P, OF v]]
        res_visit_false_disjuncts [where v = v and I = I and P = P, OF v] v stk lit pb;
      (auto simp: pb bool2term_def)?)
  done

lemma res_visit_ite:
  assumes v: "\<And>u. u \<in> set d \<Longrightarrow> lc_res I (v u) P"
    and lit: "\<And>c l. I c \<Longrightarrow> I (c\<lparr>lit_set := l\<rparr>)"
    and stk: "\<And>c s. I c \<Longrightarrow> I (c\<lparr>stack := s\<rparr>)"
    and mo: "manager_ok P E" and pb: "\<And>b. P (bool2term b)" and pt: "P t"
  shows "lc_res I (lit_collector_visit_ite v E t d) P"
  using mo pt pb [of False] unfolding lit_collector_visit_ite_def Let_def manager_ok_def
    inequal_array_pprod_def inequal_array_poly_def inequal_array_bvpoly64_def
    inequal_array_bvpoly_def
  apply -
  apply ((simp only: lc_bind_assoc)?)
  apply (intro res_intros res_bind [OF v]
        res_bind [OF res_visit_args [where v = v and I = I and P = P, OF v]]
        res_bind [OF res_visit_poly_vars [where v = v and I = I and P = P, OF v]]
        res_bind [OF res_visit_xor_args [where v = v and I = I and P = P, OF v]]
        res_visit_false_disjuncts [where v = v and I = I and P = P, OF v] v stk lit pb;
      (auto simp: pb bool2term_def)?)
  done

lemma res_visit_app:
  assumes v: "\<And>u. u \<in> set d \<Longrightarrow> lc_res I (v u) P"
    and lit: "\<And>c l. I c \<Longrightarrow> I (c\<lparr>lit_set := l\<rparr>)"
    and stk: "\<And>c s. I c \<Longrightarrow> I (c\<lparr>stack := s\<rparr>)"
    and mo: "manager_ok P E" and pb: "\<And>b. P (bool2term b)" and pt: "P t"
  shows "lc_res I (lit_collector_visit_app v E t d) P"
  using mo pt pb [of False] unfolding lit_collector_visit_app_def Let_def manager_ok_def
    inequal_array_pprod_def inequal_array_poly_def inequal_array_bvpoly64_def
    inequal_array_bvpoly_def
  apply -
  apply ((simp only: lc_bind_assoc)?)
  apply (intro res_intros res_bind [OF v]
        res_bind [OF res_visit_args [where v = v and I = I and P = P, OF v]]
        res_bind [OF res_visit_poly_vars [where v = v and I = I and P = P, OF v]]
        res_bind [OF res_visit_xor_args [where v = v and I = I and P = P, OF v]]
        res_visit_false_disjuncts [where v = v and I = I and P = P, OF v] v stk lit pb;
      (auto simp: pb bool2term_def)?)
  done

lemma res_visit_update:
  assumes v: "\<And>u. u \<in> set d \<Longrightarrow> lc_res I (v u) P"
    and lit: "\<And>c l. I c \<Longrightarrow> I (c\<lparr>lit_set := l\<rparr>)"
    and stk: "\<And>c s. I c \<Longrightarrow> I (c\<lparr>stack := s\<rparr>)"
    and mo: "manager_ok P E" and pb: "\<And>b. P (bool2term b)" and pt: "P t"
  shows "lc_res I (lit_collector_visit_update v E t d) P"
  using mo pt pb [of False] unfolding lit_collector_visit_update_def Let_def manager_ok_def
    inequal_array_pprod_def inequal_array_poly_def inequal_array_bvpoly64_def
    inequal_array_bvpoly_def
  apply -
  apply ((simp only: lc_bind_assoc)?)
  apply (intro res_intros res_bind [OF v]
        res_bind [OF res_visit_args [where v = v and I = I and P = P, OF v]]
        res_bind [OF res_visit_poly_vars [where v = v and I = I and P = P, OF v]]
        res_bind [OF res_visit_xor_args [where v = v and I = I and P = P, OF v]]
        res_visit_false_disjuncts [where v = v and I = I and P = P, OF v] v stk lit pb;
      (auto simp: pb bool2term_def)?)
  done

lemma res_visit_tuple:
  assumes v: "\<And>u. u \<in> set d \<Longrightarrow> lc_res I (v u) P"
    and lit: "\<And>c l. I c \<Longrightarrow> I (c\<lparr>lit_set := l\<rparr>)"
    and stk: "\<And>c s. I c \<Longrightarrow> I (c\<lparr>stack := s\<rparr>)"
    and mo: "manager_ok P E" and pb: "\<And>b. P (bool2term b)" and pt: "P t"
  shows "lc_res I (lit_collector_visit_tuple v E t d) P"
  using mo pt pb [of False] unfolding lit_collector_visit_tuple_def Let_def manager_ok_def
    inequal_array_pprod_def inequal_array_poly_def inequal_array_bvpoly64_def
    inequal_array_bvpoly_def
  apply -
  apply ((simp only: lc_bind_assoc)?)
  apply (intro res_intros res_bind [OF v]
        res_bind [OF res_visit_args [where v = v and I = I and P = P, OF v]]
        res_bind [OF res_visit_poly_vars [where v = v and I = I and P = P, OF v]]
        res_bind [OF res_visit_xor_args [where v = v and I = I and P = P, OF v]]
        res_visit_false_disjuncts [where v = v and I = I and P = P, OF v] v stk lit pb;
      (auto simp: pb bool2term_def)?)
  done

lemma res_visit_distinct:
  assumes v: "\<And>u. u \<in> set d \<Longrightarrow> lc_res I (v u) P"
    and lit: "\<And>c l. I c \<Longrightarrow> I (c\<lparr>lit_set := l\<rparr>)"
    and stk: "\<And>c s. I c \<Longrightarrow> I (c\<lparr>stack := s\<rparr>)"
    and mo: "manager_ok P E" and pb: "\<And>b. P (bool2term b)" and pt: "P t"
  shows "lc_res I (lit_collector_visit_distinct v E t d) P"
  using mo pt pb [of False] unfolding lit_collector_visit_distinct_def Let_def manager_ok_def
    inequal_array_pprod_def inequal_array_poly_def inequal_array_bvpoly64_def
    inequal_array_bvpoly_def
  apply -
  apply ((simp only: lc_bind_assoc)?)
  apply (intro res_intros res_bind [OF v]
        res_bind [OF res_visit_args [where v = v and I = I and P = P, OF v]]
        res_bind [OF res_visit_poly_vars [where v = v and I = I and P = P, OF v]]
        res_bind [OF res_visit_xor_args [where v = v and I = I and P = P, OF v]]
        res_visit_false_disjuncts [where v = v and I = I and P = P, OF v] v stk lit pb;
      (auto simp: pb bool2term_def)?)
  done

lemma res_visit_or:
  assumes v: "\<And>u. u \<in> set d \<Longrightarrow> lc_res I (v u) P"
    and lit: "\<And>c l. I c \<Longrightarrow> I (c\<lparr>lit_set := l\<rparr>)"
    and stk: "\<And>c s. I c \<Longrightarrow> I (c\<lparr>stack := s\<rparr>)"
    and mo: "manager_ok P E" and pb: "\<And>b. P (bool2term b)" and pt: "P t"
  shows "lc_res I (lit_collector_visit_or v E t d) P"
  using mo pt pb [of False] unfolding lit_collector_visit_or_def Let_def manager_ok_def
    inequal_array_pprod_def inequal_array_poly_def inequal_array_bvpoly64_def
    inequal_array_bvpoly_def
  apply -
  apply ((simp only: lc_bind_assoc)?)
  apply (intro res_intros res_bind [OF v]
        res_bind [OF res_visit_args [where v = v and I = I and P = P, OF v]]
        res_bind [OF res_visit_poly_vars [where v = v and I = I and P = P, OF v]]
        res_bind [OF res_visit_xor_args [where v = v and I = I and P = P, OF v]]
        res_visit_false_disjuncts [where v = v and I = I and P = P, OF v] v stk lit pb;
      (auto simp: pb bool2term_def)?)
  done

lemma res_visit_xor:
  assumes v: "\<And>u. u \<in> set d \<Longrightarrow> lc_res I (v u) P"
    and lit: "\<And>c l. I c \<Longrightarrow> I (c\<lparr>lit_set := l\<rparr>)"
    and stk: "\<And>c s. I c \<Longrightarrow> I (c\<lparr>stack := s\<rparr>)"
    and mo: "manager_ok P E" and pb: "\<And>b. P (bool2term b)" and pt: "P t"
  shows "lc_res I (lit_collector_visit_xor v E t d) P"
  using mo pt pb [of False] unfolding lit_collector_visit_xor_def Let_def manager_ok_def
    inequal_array_pprod_def inequal_array_poly_def inequal_array_bvpoly64_def
    inequal_array_bvpoly_def
  apply -
  apply ((simp only: lc_bind_assoc)?)
  apply (intro res_intros res_bind [OF v]
        res_bind [OF res_visit_args [where v = v and I = I and P = P, OF v]]
        res_bind [OF res_visit_poly_vars [where v = v and I = I and P = P, OF v]]
        res_bind [OF res_visit_xor_args [where v = v and I = I and P = P, OF v]]
        res_visit_false_disjuncts [where v = v and I = I and P = P, OF v] v stk lit pb;
      (auto simp: pb bool2term_def)?)
  done

lemma res_visit_bvarray:
  assumes v: "\<And>u. u \<in> set d \<Longrightarrow> lc_res I (v u) P"
    and lit: "\<And>c l. I c \<Longrightarrow> I (c\<lparr>lit_set := l\<rparr>)"
    and stk: "\<And>c s. I c \<Longrightarrow> I (c\<lparr>stack := s\<rparr>)"
    and mo: "manager_ok P E" and pb: "\<And>b. P (bool2term b)" and pt: "P t"
  shows "lc_res I (lit_collector_visit_bvarray v E t d) P"
  using mo pt pb [of False] unfolding lit_collector_visit_bvarray_def Let_def manager_ok_def
    inequal_array_pprod_def inequal_array_poly_def inequal_array_bvpoly64_def
    inequal_array_bvpoly_def
  apply -
  apply ((simp only: lc_bind_assoc)?)
  apply (intro res_intros res_bind [OF v]
        res_bind [OF res_visit_args [where v = v and I = I and P = P, OF v]]
        res_bind [OF res_visit_poly_vars [where v = v and I = I and P = P, OF v]]
        res_bind [OF res_visit_xor_args [where v = v and I = I and P = P, OF v]]
        res_visit_false_disjuncts [where v = v and I = I and P = P, OF v] v stk lit pb;
      (auto simp: pb bool2term_def)?)
  done

lemma res_visit_eq:
  assumes v: "\<And>u. u \<in> set d \<Longrightarrow> lc_res I (v u) P"
    and lit: "\<And>c l. I c \<Longrightarrow> I (c\<lparr>lit_set := l\<rparr>)"
    and stk: "\<And>c s. I c \<Longrightarrow> I (c\<lparr>stack := s\<rparr>)"
    and mo: "manager_ok P E" and pb: "\<And>b. P (bool2term b)" and pt: "P t"
  shows "lc_res I (lit_collector_visit_eq v E t d) P"
  using mo pt pb [of False] unfolding lit_collector_visit_eq_def visit_binary_def Let_def manager_ok_def
    inequal_array_pprod_def inequal_array_poly_def inequal_array_bvpoly64_def
    inequal_array_bvpoly_def
  apply -
  apply ((simp only: lc_bind_assoc)?)
  apply (intro res_intros res_bind [OF v]
        res_bind [OF res_visit_args [where v = v and I = I and P = P, OF v]]
        res_bind [OF res_visit_poly_vars [where v = v and I = I and P = P, OF v]]
        res_bind [OF res_visit_xor_args [where v = v and I = I and P = P, OF v]]
        res_visit_false_disjuncts [where v = v and I = I and P = P, OF v] v stk lit pb;
      (auto simp: pb bool2term_def)?)
  done

lemma res_visit_arith_bineq:
  assumes v: "\<And>u. u \<in> set d \<Longrightarrow> lc_res I (v u) P"
    and lit: "\<And>c l. I c \<Longrightarrow> I (c\<lparr>lit_set := l\<rparr>)"
    and stk: "\<And>c s. I c \<Longrightarrow> I (c\<lparr>stack := s\<rparr>)"
    and mo: "manager_ok P E" and pb: "\<And>b. P (bool2term b)" and pt: "P t"
  shows "lc_res I (lit_collector_visit_arith_bineq v E t d) P"
  using mo pt pb [of False] unfolding lit_collector_visit_arith_bineq_def visit_binary_def Let_def manager_ok_def
    inequal_array_pprod_def inequal_array_poly_def inequal_array_bvpoly64_def
    inequal_array_bvpoly_def
  apply -
  apply ((simp only: lc_bind_assoc)?)
  apply (intro res_intros res_bind [OF v]
        res_bind [OF res_visit_args [where v = v and I = I and P = P, OF v]]
        res_bind [OF res_visit_poly_vars [where v = v and I = I and P = P, OF v]]
        res_bind [OF res_visit_xor_args [where v = v and I = I and P = P, OF v]]
        res_visit_false_disjuncts [where v = v and I = I and P = P, OF v] v stk lit pb;
      (auto simp: pb bool2term_def)?)
  done

lemma res_visit_bveq:
  assumes v: "\<And>u. u \<in> set d \<Longrightarrow> lc_res I (v u) P"
    and lit: "\<And>c l. I c \<Longrightarrow> I (c\<lparr>lit_set := l\<rparr>)"
    and stk: "\<And>c s. I c \<Longrightarrow> I (c\<lparr>stack := s\<rparr>)"
    and mo: "manager_ok P E" and pb: "\<And>b. P (bool2term b)" and pt: "P t"
  shows "lc_res I (lit_collector_visit_bveq v E t d) P"
  using mo pt pb [of False] unfolding lit_collector_visit_bveq_def visit_binary_def Let_def manager_ok_def
    inequal_array_pprod_def inequal_array_poly_def inequal_array_bvpoly64_def
    inequal_array_bvpoly_def
  apply -
  apply ((simp only: lc_bind_assoc)?)
  apply (intro res_intros res_bind [OF v]
        res_bind [OF res_visit_args [where v = v and I = I and P = P, OF v]]
        res_bind [OF res_visit_poly_vars [where v = v and I = I and P = P, OF v]]
        res_bind [OF res_visit_xor_args [where v = v and I = I and P = P, OF v]]
        res_visit_false_disjuncts [where v = v and I = I and P = P, OF v] v stk lit pb;
      (auto simp: pb bool2term_def)?)
  done

lemma res_visit_bvge:
  assumes v: "\<And>u. u \<in> set d \<Longrightarrow> lc_res I (v u) P"
    and lit: "\<And>c l. I c \<Longrightarrow> I (c\<lparr>lit_set := l\<rparr>)"
    and stk: "\<And>c s. I c \<Longrightarrow> I (c\<lparr>stack := s\<rparr>)"
    and mo: "manager_ok P E" and pb: "\<And>b. P (bool2term b)" and pt: "P t"
  shows "lc_res I (lit_collector_visit_bvge v E t d) P"
  using mo pt pb [of False] unfolding lit_collector_visit_bvge_def visit_binary_def Let_def manager_ok_def
    inequal_array_pprod_def inequal_array_poly_def inequal_array_bvpoly64_def
    inequal_array_bvpoly_def
  apply -
  apply ((simp only: lc_bind_assoc)?)
  apply (intro res_intros res_bind [OF v]
        res_bind [OF res_visit_args [where v = v and I = I and P = P, OF v]]
        res_bind [OF res_visit_poly_vars [where v = v and I = I and P = P, OF v]]
        res_bind [OF res_visit_xor_args [where v = v and I = I and P = P, OF v]]
        res_visit_false_disjuncts [where v = v and I = I and P = P, OF v] v stk lit pb;
      (auto simp: pb bool2term_def)?)
  done

lemma res_visit_bvsge:
  assumes v: "\<And>u. u \<in> set d \<Longrightarrow> lc_res I (v u) P"
    and lit: "\<And>c l. I c \<Longrightarrow> I (c\<lparr>lit_set := l\<rparr>)"
    and stk: "\<And>c s. I c \<Longrightarrow> I (c\<lparr>stack := s\<rparr>)"
    and mo: "manager_ok P E" and pb: "\<And>b. P (bool2term b)" and pt: "P t"
  shows "lc_res I (lit_collector_visit_bvsge v E t d) P"
  using mo pt pb [of False] unfolding lit_collector_visit_bvsge_def visit_binary_def Let_def manager_ok_def
    inequal_array_pprod_def inequal_array_poly_def inequal_array_bvpoly64_def
    inequal_array_bvpoly_def
  apply -
  apply ((simp only: lc_bind_assoc)?)
  apply (intro res_intros res_bind [OF v]
        res_bind [OF res_visit_args [where v = v and I = I and P = P, OF v]]
        res_bind [OF res_visit_poly_vars [where v = v and I = I and P = P, OF v]]
        res_bind [OF res_visit_xor_args [where v = v and I = I and P = P, OF v]]
        res_visit_false_disjuncts [where v = v and I = I and P = P, OF v] v stk lit pb;
      (auto simp: pb bool2term_def)?)
  done

lemma res_visit_bvdiv:
  assumes v: "\<And>u. u \<in> set d \<Longrightarrow> lc_res I (v u) P"
    and lit: "\<And>c l. I c \<Longrightarrow> I (c\<lparr>lit_set := l\<rparr>)"
    and stk: "\<And>c s. I c \<Longrightarrow> I (c\<lparr>stack := s\<rparr>)"
    and mo: "manager_ok P E" and pb: "\<And>b. P (bool2term b)" and pt: "P t"
  shows "lc_res I (lit_collector_visit_bvdiv v E t d) P"
  using mo pt pb [of False] unfolding lit_collector_visit_bvdiv_def visit_binary_def Let_def manager_ok_def
    inequal_array_pprod_def inequal_array_poly_def inequal_array_bvpoly64_def
    inequal_array_bvpoly_def
  apply -
  apply ((simp only: lc_bind_assoc)?)
  apply (intro res_intros res_bind [OF v]
        res_bind [OF res_visit_args [where v = v and I = I and P = P, OF v]]
        res_bind [OF res_visit_poly_vars [where v = v and I = I and P = P, OF v]]
        res_bind [OF res_visit_xor_args [where v = v and I = I and P = P, OF v]]
        res_visit_false_disjuncts [where v = v and I = I and P = P, OF v] v stk lit pb;
      (auto simp: pb bool2term_def)?)
  done

lemma res_visit_bvrem:
  assumes v: "\<And>u. u \<in> set d \<Longrightarrow> lc_res I (v u) P"
    and lit: "\<And>c l. I c \<Longrightarrow> I (c\<lparr>lit_set := l\<rparr>)"
    and stk: "\<And>c s. I c \<Longrightarrow> I (c\<lparr>stack := s\<rparr>)"
    and mo: "manager_ok P E" and pb: "\<And>b. P (bool2term b)" and pt: "P t"
  shows "lc_res I (lit_collector_visit_bvrem v E t d) P"
  using mo pt pb [of False] unfolding lit_collector_visit_bvrem_def visit_binary_def Let_def manager_ok_def
    inequal_array_pprod_def inequal_array_poly_def inequal_array_bvpoly64_def
    inequal_array_bvpoly_def
  apply -
  apply ((simp only: lc_bind_assoc)?)
  apply (intro res_intros res_bind [OF v]
        res_bind [OF res_visit_args [where v = v and I = I and P = P, OF v]]
        res_bind [OF res_visit_poly_vars [where v = v and I = I and P = P, OF v]]
        res_bind [OF res_visit_xor_args [where v = v and I = I and P = P, OF v]]
        res_visit_false_disjuncts [where v = v and I = I and P = P, OF v] v stk lit pb;
      (auto simp: pb bool2term_def)?)
  done

lemma res_visit_bvsdiv:
  assumes v: "\<And>u. u \<in> set d \<Longrightarrow> lc_res I (v u) P"
    and lit: "\<And>c l. I c \<Longrightarrow> I (c\<lparr>lit_set := l\<rparr>)"
    and stk: "\<And>c s. I c \<Longrightarrow> I (c\<lparr>stack := s\<rparr>)"
    and mo: "manager_ok P E" and pb: "\<And>b. P (bool2term b)" and pt: "P t"
  shows "lc_res I (lit_collector_visit_bvsdiv v E t d) P"
  using mo pt pb [of False] unfolding lit_collector_visit_bvsdiv_def visit_binary_def Let_def manager_ok_def
    inequal_array_pprod_def inequal_array_poly_def inequal_array_bvpoly64_def
    inequal_array_bvpoly_def
  apply -
  apply ((simp only: lc_bind_assoc)?)
  apply (intro res_intros res_bind [OF v]
        res_bind [OF res_visit_args [where v = v and I = I and P = P, OF v]]
        res_bind [OF res_visit_poly_vars [where v = v and I = I and P = P, OF v]]
        res_bind [OF res_visit_xor_args [where v = v and I = I and P = P, OF v]]
        res_visit_false_disjuncts [where v = v and I = I and P = P, OF v] v stk lit pb;
      (auto simp: pb bool2term_def)?)
  done

lemma res_visit_bvsrem:
  assumes v: "\<And>u. u \<in> set d \<Longrightarrow> lc_res I (v u) P"
    and lit: "\<And>c l. I c \<Longrightarrow> I (c\<lparr>lit_set := l\<rparr>)"
    and stk: "\<And>c s. I c \<Longrightarrow> I (c\<lparr>stack := s\<rparr>)"
    and mo: "manager_ok P E" and pb: "\<And>b. P (bool2term b)" and pt: "P t"
  shows "lc_res I (lit_collector_visit_bvsrem v E t d) P"
  using mo pt pb [of False] unfolding lit_collector_visit_bvsrem_def visit_binary_def Let_def manager_ok_def
    inequal_array_pprod_def inequal_array_poly_def inequal_array_bvpoly64_def
    inequal_array_bvpoly_def
  apply -
  apply ((simp only: lc_bind_assoc)?)
  apply (intro res_intros res_bind [OF v]
        res_bind [OF res_visit_args [where v = v and I = I and P = P, OF v]]
        res_bind [OF res_visit_poly_vars [where v = v and I = I and P = P, OF v]]
        res_bind [OF res_visit_xor_args [where v = v and I = I and P = P, OF v]]
        res_visit_false_disjuncts [where v = v and I = I and P = P, OF v] v stk lit pb;
      (auto simp: pb bool2term_def)?)
  done

lemma res_visit_bvsmod:
  assumes v: "\<And>u. u \<in> set d \<Longrightarrow> lc_res I (v u) P"
    and lit: "\<And>c l. I c \<Longrightarrow> I (c\<lparr>lit_set := l\<rparr>)"
    and stk: "\<And>c s. I c \<Longrightarrow> I (c\<lparr>stack := s\<rparr>)"
    and mo: "manager_ok P E" and pb: "\<And>b. P (bool2term b)" and pt: "P t"
  shows "lc_res I (lit_collector_visit_bvsmod v E t d) P"
  using mo pt pb [of False] unfolding lit_collector_visit_bvsmod_def visit_binary_def Let_def manager_ok_def
    inequal_array_pprod_def inequal_array_poly_def inequal_array_bvpoly64_def
    inequal_array_bvpoly_def
  apply -
  apply ((simp only: lc_bind_assoc)?)
  apply (intro res_intros res_bind [OF v]
        res_bind [OF res_visit_args [where v = v and I = I and P = P, OF v]]
        res_bind [OF res_visit_poly_vars [where v = v and I = I and P = P, OF v]]
        res_bind [OF res_visit_xor_args [where v = v and I = I and P = P, OF v]]
        res_visit_false_disjuncts [where v = v and I = I and P = P, OF v] v stk lit pb;
      (auto simp: pb bool2term_def)?)
  done

lemma res_visit_bvshl:
  assumes v: "\<And>u. u \<in> set d \<Longrightarrow> lc_res I (v u) P"
    and lit: "\<And>c l. I c \<Longrightarrow> I (c\<lparr>lit_set := l\<rparr>)"
    and stk: "\<And>c s. I c \<Longrightarrow> I (c\<lparr>stack := s\<rparr>)"
    and mo: "manager_ok P E" and pb: "\<And>b. P (bool2term b)" and pt: "P t"
  shows "lc_res I (lit_collector_visit_bvshl v E t d) P"
  using mo pt pb [of False] unfolding lit_collector_visit_bvshl_def visit_binary_def Let_def manager_ok_def
    inequal_array_pprod_def inequal_array_poly_def inequal_array_bvpoly64_def
    inequal_array_bvpoly_def
  apply -
  apply ((simp only: lc_bind_assoc)?)
  apply (intro res_intros res_bind [OF v]
        res_bind [OF res_visit_args [where v = v and I = I and P = P, OF v]]
        res_bind [OF res_visit_poly_vars [where v = v and I = I and P = P, OF v]]
        res_bind [OF res_visit_xor_args [where v = v and I = I and P = P, OF v]]
        res_visit_false_disjuncts [where v = v and I = I and P = P, OF v] v stk lit pb;
      (auto simp: pb bool2term_def)?)
  done

lemma res_visit_bvlshr:
  assumes v: "\<And>u. u \<in> set d \<Longrightarrow> lc_res I (v u) P"
    and lit: "\<And>c l. I c \<Longrightarrow> I (c\<lparr>lit_set := l\<rparr>)"
    and stk: "\<And>c s. I c \<Longrightarrow> I (c\<lparr>stack := s\<rparr>)"
    and mo: "manager_ok P E" and pb: "\<And>b. P (bool2term b)" and pt: "P t"
  shows "lc_res I (lit_collector_visit_bvlshr v E t d) P"
  using mo pt pb [of False] unfolding lit_collector_visit_bvlshr_def visit_binary_def Let_def manager_ok_def
    inequal_array_pprod_def inequal_array_poly_def inequal_array_bvpoly64_def
    inequal_array_bvpoly_def
  apply -
  apply ((simp only: lc_bind_assoc)?)
  apply (intro res_intros res_bind [OF v]
        res_bind [OF res_visit_args [where v = v and I = I and P = P, OF v]]
        res_bind [OF res_visit_poly_vars [where v = v and I = I and P = P, OF v]]
        res_bind [OF res_visit_xor_args [where v = v and I = I and P = P, OF v]]
        res_visit_false_disjuncts [where v = v and I = I and P = P, OF v] v stk lit pb;
      (auto simp: pb bool2term_def)?)
  done

lemma res_visit_bvashr:
  assumes v: "\<And>u. u \<in> set d \<Longrightarrow> lc_res I (v u) P"
    and lit: "\<And>c l. I c \<Longrightarrow> I (c\<lparr>lit_set := l\<rparr>)"
    and stk: "\<And>c s. I c \<Longrightarrow> I (c\<lparr>stack := s\<rparr>)"
    and mo: "manager_ok P E" and pb: "\<And>b. P (bool2term b)" and pt: "P t"
  shows "lc_res I (lit_collector_visit_bvashr v E t d) P"
  using mo pt pb [of False] unfolding lit_collector_visit_bvashr_def visit_binary_def Let_def manager_ok_def
    inequal_array_pprod_def inequal_array_poly_def inequal_array_bvpoly64_def
    inequal_array_bvpoly_def
  apply -
  apply ((simp only: lc_bind_assoc)?)
  apply (intro res_intros res_bind [OF v]
        res_bind [OF res_visit_args [where v = v and I = I and P = P, OF v]]
        res_bind [OF res_visit_poly_vars [where v = v and I = I and P = P, OF v]]
        res_bind [OF res_visit_xor_args [where v = v and I = I and P = P, OF v]]
        res_visit_false_disjuncts [where v = v and I = I and P = P, OF v] v stk lit pb;
      (auto simp: pb bool2term_def)?)
  done

lemma res_visit_select:
  assumes v: "\<And>u. u \<in> set [snd d] \<Longrightarrow> lc_res I (v u) P"
    and lit: "\<And>c l. I c \<Longrightarrow> I (c\<lparr>lit_set := l\<rparr>)"
    and stk: "\<And>c s. I c \<Longrightarrow> I (c\<lparr>stack := s\<rparr>)"
    and mo: "manager_ok P E" and pb: "\<And>b. P (bool2term b)" and pt: "P t"
  shows "lc_res I (lit_collector_visit_select v E t d) P"
  using mo pt pb [of False] unfolding lit_collector_visit_select_def Let_def manager_ok_def
    inequal_array_pprod_def inequal_array_poly_def inequal_array_bvpoly64_def
    inequal_array_bvpoly_def
  apply -
  apply ((simp only: lc_bind_assoc)?)
  apply (intro res_intros res_bind [OF v]
        res_bind [OF res_visit_args [where v = v and I = I and P = P, OF v]]
        res_bind [OF res_visit_poly_vars [where v = v and I = I and P = P, OF v]]
        res_bind [OF res_visit_xor_args [where v = v and I = I and P = P, OF v]]
        res_visit_false_disjuncts [where v = v and I = I and P = P, OF v] v stk lit pb;
      (auto simp: pb bool2term_def)?)
  done

lemma res_visit_bit:
  assumes v: "\<And>u. u \<in> set [snd d] \<Longrightarrow> lc_res I (v u) P"
    and lit: "\<And>c l. I c \<Longrightarrow> I (c\<lparr>lit_set := l\<rparr>)"
    and stk: "\<And>c s. I c \<Longrightarrow> I (c\<lparr>stack := s\<rparr>)"
    and mo: "manager_ok P E" and pb: "\<And>b. P (bool2term b)" and pt: "P t"
  shows "lc_res I (lit_collector_visit_bit v E t d) P"
  using mo pt pb [of False] unfolding lit_collector_visit_bit_def Let_def manager_ok_def
    inequal_array_pprod_def inequal_array_poly_def inequal_array_bvpoly64_def
    inequal_array_bvpoly_def
  apply -
  apply ((simp only: lc_bind_assoc)?)
  apply (intro res_intros res_bind [OF v]
        res_bind [OF res_visit_args [where v = v and I = I and P = P, OF v]]
        res_bind [OF res_visit_poly_vars [where v = v and I = I and P = P, OF v]]
        res_bind [OF res_visit_xor_args [where v = v and I = I and P = P, OF v]]
        res_visit_false_disjuncts [where v = v and I = I and P = P, OF v] v stk lit pb;
      (auto simp: pb bool2term_def)?)
  done

lemma res_visit_pprod:
  assumes v: "\<And>u. u \<in> set (map fst p) \<Longrightarrow> lc_res I (v u) P"
    and lit: "\<And>c l. I c \<Longrightarrow> I (c\<lparr>lit_set := l\<rparr>)"
    and stk: "\<And>c s. I c \<Longrightarrow> I (c\<lparr>stack := s\<rparr>)"
    and mo: "manager_ok P E" and pb: "\<And>b. P (bool2term b)" and pt: "P t"
  shows "lc_res I (lit_collector_visit_pprod v E t p) P"
  using mo pt pb [of False] unfolding lit_collector_visit_pprod_def Let_def manager_ok_def
    inequal_array_pprod_def inequal_array_poly_def inequal_array_bvpoly64_def
    inequal_array_bvpoly_def
  apply -
  apply ((simp only: lc_bind_assoc)?)
  apply (intro res_intros res_bind [OF v]
        res_bind [OF res_visit_args [where v = v and I = I and P = P, OF v]]
        res_bind [OF res_visit_poly_vars [where v = v and I = I and P = P, OF v]]
        res_bind [OF res_visit_xor_args [where v = v and I = I and P = P, OF v]]
        res_visit_false_disjuncts [where v = v and I = I and P = P, OF v] v stk lit pb;
      (auto simp: pb bool2term_def)?)
  done

lemma res_visit_poly:
  assumes v: "\<And>u. u \<in> set (poly_children (map snd p)) \<Longrightarrow> lc_res I (v u) P"
    and lit: "\<And>c l. I c \<Longrightarrow> I (c\<lparr>lit_set := l\<rparr>)"
    and stk: "\<And>c s. I c \<Longrightarrow> I (c\<lparr>stack := s\<rparr>)"
    and mo: "manager_ok P E" and pb: "\<And>b. P (bool2term b)" and pt: "P t"
  shows "lc_res I (lit_collector_visit_poly v E t p) P"
  using mo pt pb [of False] unfolding lit_collector_visit_poly_def Let_def manager_ok_def
    inequal_array_pprod_def inequal_array_poly_def inequal_array_bvpoly64_def
    inequal_array_bvpoly_def
  apply -
  apply ((simp only: lc_bind_assoc)?)
  apply (intro res_intros res_bind [OF v]
        res_bind [OF res_visit_args [where v = v and I = I and P = P, OF v]]
        res_bind [OF res_visit_poly_vars [where v = v and I = I and P = P, OF v]]
        res_bind [OF res_visit_xor_args [where v = v and I = I and P = P, OF v]]
        res_visit_false_disjuncts [where v = v and I = I and P = P, OF v] v stk lit pb;
      (auto simp: pb bool2term_def)?)
  done

lemma res_visit_bvpoly64:
  assumes v: "\<And>u. u \<in> set (poly_children (map snd p)) \<Longrightarrow> lc_res I (v u) P"
    and lit: "\<And>c l. I c \<Longrightarrow> I (c\<lparr>lit_set := l\<rparr>)"
    and stk: "\<And>c s. I c \<Longrightarrow> I (c\<lparr>stack := s\<rparr>)"
    and mo: "manager_ok P E" and pb: "\<And>b. P (bool2term b)" and pt: "P t"
  shows "lc_res I (lit_collector_visit_bvpoly64 v E t p) P"
  using mo pt pb [of False] unfolding lit_collector_visit_bvpoly64_def Let_def manager_ok_def
    inequal_array_pprod_def inequal_array_poly_def inequal_array_bvpoly64_def
    inequal_array_bvpoly_def
  apply -
  apply ((simp only: lc_bind_assoc)?)
  apply (intro res_intros res_bind [OF v]
        res_bind [OF res_visit_args [where v = v and I = I and P = P, OF v]]
        res_bind [OF res_visit_poly_vars [where v = v and I = I and P = P, OF v]]
        res_bind [OF res_visit_xor_args [where v = v and I = I and P = P, OF v]]
        res_visit_false_disjuncts [where v = v and I = I and P = P, OF v] v stk lit pb;
      (auto simp: pb bool2term_def)?)
  done

lemma res_visit_bvpoly:
  assumes v: "\<And>u. u \<in> set (poly_children (map snd p)) \<Longrightarrow> lc_res I (v u) P"
    and lit: "\<And>c l. I c \<Longrightarrow> I (c\<lparr>lit_set := l\<rparr>)"
    and stk: "\<And>c s. I c \<Longrightarrow> I (c\<lparr>stack := s\<rparr>)"
    and mo: "manager_ok P E" and pb: "\<And>b. P (bool2term b)" and pt: "P t"
  shows "lc_res I (lit_collector_visit_bvpoly v E t p) P"
  using mo pt pb [of False] unfolding lit_collector_visit_bvpoly_def Let_def manager_ok_def
    inequal_array_pprod_def inequal_array_poly_def inequal_array_bvpoly64_def
    inequal_array_bvpoly_def
  apply -
  apply ((simp only: lc_bind_assoc)?)
  apply (intro res_intros res_bind [OF v]
        res_bind [OF res_visit_args [where v = v and I = I and P = P, OF v]]
        res_bind [OF res_visit_poly_vars [where v = v and I = I and P = P, OF v]]
        res_bind [OF res_visit_xor_args [where v = v and I = I and P = P, OF v]]
        res_visit_false_disjuncts [where v = v and I = I and P = P, OF v] v stk lit pb;
      (auto simp: pb bool2term_def)?)
  done

lemma res_visit_switch:
  assumes v: "\<And>u. u \<in> set (children E t) \<Longrightarrow> lc_res I (v u) P"
    and lit: "\<And>c l. I c \<Longrightarrow> I (c\<lparr>lit_set := l\<rparr>)"
    and stk: "\<And>c s. I c \<Longrightarrow> I (c\<lparr>stack := s\<rparr>)"
    and mo: "manager_ok P E" and pb: "\<And>b. P (bool2term b)" and pt: "P t"
  shows "lc_res I (visit_switch v E t) P"
proof -
  note kinds = res_visit_eq_atom res_visit_ge_atom res_visit_ite res_visit_app res_visit_update
    res_visit_tuple res_visit_eq res_visit_distinct res_visit_or res_visit_xor
    res_visit_arith_bineq res_visit_bvarray res_visit_bveq res_visit_bvge res_visit_bvsge
    res_visit_bvdiv res_visit_bvrem res_visit_bvsdiv res_visit_bvsrem res_visit_bvsmod
    res_visit_bvshl res_visit_bvlshr res_visit_bvashr res_visit_select res_visit_bit
    res_visit_pprod res_visit_poly res_visit_bvpoly64 res_visit_bvpoly
  note side = lit stk mo pb pt
  show ?thesis
    using v unfolding visit_switch_def children_def Let_def
    by (cases "term_kind (terms E) t")
       (simp_all add: kinds [where v = v and I = I and P = P, OF _ side, simplified] res_register_atom [where I = I and P = P, OF lit pb] pt
          res_return res_longjmp res_bind_assert)
qed

lemma res_find_cached_term:
  "lc_res (cache_ok P) (lit_collector_find_cached_term E t) (\<lambda>u. u = NULL_TERM \<or> P u)"
  by (auto simp: lc_res_def lc_spec_def find_cached_term_eq cache_ok_def split: option.splits)

lemma res_bind_cache_result:
  assumes "P u" and "lc_res (cache_ok P) (f ()) Q"
  shows "lc_res (cache_ok P) (lc_bind (lit_collector_cache_result E t u) f) Q"
proof (rule res_bind_inv)
  show "lc_inv (cache_ok P) (lit_collector_cache_result E t u)"
    using assms(1) by (intro lc_invI) (auto simp: cache_result_eq cache_ok_def)
  show "lc_res (cache_ok P) (f x) Q" for x
    using assms(2) by simp
qed

lemma res_visit:
  assumes mo: "manager_ok P E" and ch: "children_ok P E" and pb: "\<And>b. P (bool2term b)"
    and pol: "\<And>u t. P u \<Longrightarrow> P (u XOR polarity_of t)"
    and uns: "\<And>t. P t \<Longrightarrow> P (unsigned_term t)"
  shows "P t \<Longrightarrow> lc_res (cache_ok P) (lit_collector_visit k E t) P"
proof (induction k arbitrary: t)
  case 0
  show ?case by (simp add: res_stop)
next
  case (Suc k)
  have pt: "P (unsigned_term t)" using Suc.prems by (rule uns)
  have sw: "lc_res (cache_ok P) (visit_switch (lit_collector_visit k E) E (unsigned_term t)) P"
  proof (rule res_visit_switch [OF _ _ _ mo pb pt])
    show "lc_res (cache_ok P) (lit_collector_visit k E u) P"
      if "u \<in> set (children E (unsigned_term t))" for u
      using ch pt that by (intro Suc.IH) (auto simp: children_ok_def)
  qed (simp_all add: cache_ok_def)
  show ?case
    unfolding lit_collector_visit.simps Let_def
    apply (rule res_bind [OF res_find_cached_term])
    apply (rule res_bind [where P' = P])
     apply (rule res_if)
      apply (rule res_bind [OF sw])
      apply (rule res_bind_cache_result, assumption)
      apply (rule res_return, assumption)
     apply (rule res_return, simp)
    apply (rule res_return)
    apply (erule pol)
    done
qed

section \<open>The polarity law\<close>

lemma visit_unsigned:
  "lit_collector_visit k E t c =
     lc_map (\<lambda>u. u XOR polarity_of t) (lit_collector_visit k E (unsigned_term t) c)"
  by (cases k)
     (auto simp: lit_collector_visit.simps lc_map_def lc_bind_def lc_return_def lc_stop_def
        Let_def unsigned_unsigned polarity_of_unsigned split: prod.splits outcome.splits)

text \<open>
  Claim C7. The visitor strips the polarity of its argument, works on the unsigned term
  (which is also the key of the cache) and flips the result by the polarity: the visit of
  \<open>t\<close> is the visit of its unsigned form with the polarity XORed into the returned term,
  and the visit of the negation of \<open>t\<close> is the visit of \<open>t\<close> with the returned term
  negated; the final state (literals and cache) is the same in both.
\<close>

theorem polarity_law:
  "lit_collector_visit k E (opposite_term t) c =
     lc_map opposite_term (lit_collector_visit k E t c) \<and>
   lit_collector_visit k E t c =
     lc_map (\<lambda>u. u XOR polarity_of t) (lit_collector_visit k E (unsigned_term t) c)"
proof
  show "lit_collector_visit k E (opposite_term t) c =
     lc_map opposite_term (lit_collector_visit k E t c)"
    by (cases k)
       (auto simp: lit_collector_visit.simps lc_map_def lc_bind_def lc_return_def lc_stop_def
          Let_def unsigned_opposite xor_polarity_opposite split: prod.splits outcome.splits)
  show "lit_collector_visit k E t c =
     lc_map (\<lambda>u. u XOR polarity_of t) (lit_collector_visit k E (unsigned_term t) c)"
    by (rule visit_unsigned)
qed

section \<open>Visits of cached terms\<close>

lemma visit_cached:
  assumes "cache c (unsigned_term t) = Some u" and "u \<noteq> NULL_TERM"
    and "ndebug E \<or> (good_term (terms E) (unsigned_term t) \<and> good_term (terms E) u)"
  shows "lit_collector_visit (Suc k) E t c = (Return (u XOR polarity_of t), c)"
  using assms
  by (auto simp: visit_Suc_eq find_cached_term_eq)

lemma visit_Return_cached:
  assumes "lit_collector_visit k E t c = (Return r, c')"
  shows "\<exists>u. cache c' (unsigned_term t) = Some u \<and> r = u XOR polarity_of t \<and>
    (ndebug E \<or> (good_term (terms E) (unsigned_term t) \<and> good_term (terms E) u))"
proof (cases k)
  case 0
  with assms show ?thesis by (simp add: lc_stop_def)
next
  case (Suc j)
  obtain o1 c1 where f: "lit_collector_find_cached_term E (unsigned_term t) c = (o1, c1)"
    by force
  show ?thesis
  proof (cases o1)
    case (Stop s)
    with assms f Suc show ?thesis by (simp add: visit_Suc_eq)
  next
    case (Return u)
    note u = this
    show ?thesis
    proof (cases "u = NULL_TERM")
      case False
      with assms f Suc u have "r = u XOR polarity_of t" "c' = c1"
        by (simp_all add: visit_Suc_eq)
      moreover from f u False have "cache c (unsigned_term t) = Some u" "c1 = c"
        "ndebug E \<or> (good_term (terms E) (unsigned_term t) \<and> good_term (terms E) u)"
        by (auto simp: find_cached_term_eq split: if_splits option.splits)
      ultimately show ?thesis by simp
    next
      case True
      obtain o2 c2 where s: "visit_switch (lit_collector_visit j E) E (unsigned_term t) c1 = (o2, c2)"
        by force
      show ?thesis
      proof (cases o2)
        case (Stop s2)
        with assms f Suc u True s show ?thesis by (simp add: visit_Suc_eq)
      next
        case (Return u')
        with assms f Suc u True s show ?thesis
          by (auto simp: visit_Suc_eq cache_result_eq split: if_splits)
      qed
    qed
  qed
qed

lemma visit_keeps_entry:
  assumes u: "u \<noteq> NULL_TERM"
  shows "lc_inv (\<lambda>c. cache c key = Some u) (lit_collector_visit k E t)"
proof (induction k arbitrary: t)
  case 0
  show ?case by (simp add: inv_stop)
next
  case (Suc k)
  show ?case
  proof (rule lc_invI)
    fix c :: lit_collector_t assume c: "cache c key = Some u"
    show "cache (snd (lit_collector_visit (Suc k) E t c)) key = Some u"
    proof (cases "unsigned_term t = key")
      case True
      with c u show ?thesis by (simp add: visit_Suc_eq find_cached_term_eq)
    next
      case False
      have sw: "lc_inv (\<lambda>c. cache c key = Some u)
          (visit_switch (lit_collector_visit k E) E (unsigned_term t))"
      proof (rule inv_visit_switch [where R = "\<lambda>_. True"])
        show "lc_inv (\<lambda>c. cache c key = Some u) (register_atom E w)" for w
          by (intro lc_invI) (simp add: register_atom_eq Let_def)
      qed (simp_all add: Suc.IH atoms_ok_def)
      obtain o2 c2 where s: "visit_switch (lit_collector_visit k E) E (unsigned_term t) c = (o2, c2)"
        by force
      with lc_invD [OF sw c] have c2: "cache c2 key = Some u" by simp
      show ?thesis
        using c c2 s False
        by (simp add: visit_Suc_eq find_cached_term_eq cache_result_eq
            split: option.splits outcome.splits)
    qed
  qed
qed

lemma lifetime_keeps_entry:
  assumes "lifetime E c c'" and "cache c key = Some u" and "u \<noteq> NULL_TERM"
  shows "cache c' key = Some u"
  using assms
proof (induction rule: lifetime.induct)
  case (lifetime_refl c)
  then show ?case by simp
next
  case (lifetime_visit c c1 k s r c2)
  then have "cache c1 key = Some u" by simp
  with lc_invD [OF visit_keeps_entry [OF lifetime_visit.prems(2), of key k E s], of c1]
    lifetime_visit.hyps(2)
  show ?case by simp
next
  case (lifetime_process c c1 k s r c2)
  then have "cache c1 key = Some u" by simp
  with lc_invD [OF inv_process [OF visit_keeps_entry [OF lifetime_process.prems(2), of key k E s]],
      of c1] lifetime_process.hyps(2)
  show ?case by simp
qed

text \<open>
  Claim C10. A visit of a term whose unsigned form is in the cache is pure: it returns
  the cached term XORed with the polarity and leaves the whole collector state as it
  was (no literal added, no cache entry written); its result does not depend on the
  evaluator, the term table or the manager, none of which is consulted. (Without
  \<^verbatim>\<open>NDEBUG\<close> the assertions of \<^verbatim>\<open>lit_collector_find_cached_term\<close> must hold.) An entry
  of the cache whose value is a term is kept, with the same value, by every later call of
  \<^verbatim>\<open>lit_collector_visit\<close> and \<^verbatim>\<open>lit_collector_process\<close>, on any term and with any
  outcome. So a term that has been visited with a term as result is not processed again
  as long as the collector is not reset: after any number of such calls, a visit of it
  returns the same term and changes nothing, the set of literals included. Only
  \<^verbatim>\<open>reset_lit_collector\<close> empties the cache: the life of an entry ends there.
\<close>

theorem cached_visit_is_pure:
  "(cache c (unsigned_term t) = Some u \<and> u \<noteq> NULL_TERM \<and>
      (ndebug E \<or> (good_term (terms E) (unsigned_term t) \<and> good_term (terms E) u))
     \<longrightarrow> lit_collector_visit (Suc k) E t c = (Return (u XOR polarity_of t), c)) \<and>
   (cache c key = Some u \<and> u \<noteq> NULL_TERM \<and> lifetime E c c''
     \<longrightarrow> cache c'' key = Some u) \<and>
   (lit_collector_visit j E t c = (Return r, c') \<and> 0 \<le> r \<and> lifetime E c' c''
     \<longrightarrow> lit_collector_visit (Suc k) E t c'' = (Return r, c'')) \<and>
   cache (reset_lit_collector c) = Map.empty"
proof (intro conjI impI)
  assume "cache c (unsigned_term t) = Some u \<and> u \<noteq> NULL_TERM \<and>
      (ndebug E \<or> (good_term (terms E) (unsigned_term t) \<and> good_term (terms E) u))"
  then show "lit_collector_visit (Suc k) E t c = (Return (u XOR polarity_of t), c)"
    using visit_cached [of c t u E k] by blast
next
  assume "cache c key = Some u \<and> u \<noteq> NULL_TERM \<and> lifetime E c c''"
  then show "cache c'' key = Some u"
    using lifetime_keeps_entry [of E c c'' key u] by blast
next
  assume a: "lit_collector_visit j E t c = (Return r, c') \<and> 0 \<le> r \<and> lifetime E c' c''"
  then obtain w where w: "cache c' (unsigned_term t) = Some w" "r = w XOR polarity_of t"
    "ndebug E \<or> (good_term (terms E) (unsigned_term t) \<and> good_term (terms E) w)"
    using visit_Return_cached [of j E t c r c'] by blast
  from a w(2) have "0 \<le> w" by (simp add: polarity_nonneg)
  then have n: "w \<noteq> NULL_TERM" by (simp add: NULL_TERM_def)
  with a w(1) have "cache c'' (unsigned_term t) = Some w"
    using lifetime_keeps_entry [of E c' c'' "unsigned_term t" w] by blast
  with w n show "lit_collector_visit (Suc k) E t c'' = (Return r, c'')"
    using visit_cached [of c'' t w E k] by blast
next
  show "cache (reset_lit_collector c) = Map.empty"
    by (simp add: reset_lit_collector_def)
qed

lemma ex_visit_or:
  "lit_collector_visit 3 (ex_env nd) 12 init_lit_collector = (Return 2, ex_after_or)"
  by (simp add: visit_numeral ex_defs lc_defs term_defs kind_defs init_lit_collector_def
      ex_after_or_def Let_def)

lemma ex_visit_atom:
  "lit_collector_visit 5 (ex_env nd) 16 ex_after_or = (Return 2, ex_after_both)"
  by (simp add: ex_after_both_def ex_after_or_def
      visit_numeral ex_defs lc_defs term_defs kind_defs init_lit_collector_def Let_def)

lemma ex_lifetime: "lifetime (ex_env nd) ex_after_or ex_after_both"
  by (rule lifetime_visit [OF lifetime_refl ex_visit_atom])

theorem cached_visit_is_pure_witness:
  "lit_collector_visit (Suc 0) (ex_env False) 5 ex_cached = (Return 3, ex_cached) \<and>
   cache ex_after_both 12 = Some 2 \<and>
   lit_collector_visit (Suc 0) (ex_env False) 12 ex_after_both = (Return 2, ex_after_both) \<and>
   lit_set ex_after_or = [4] \<and> lit_set ex_after_both = [4, 18]"
  using cached_visit_is_pure [where c = ex_cached and t = 5 and u = 2 and E = "ex_env False"
      and k = 0]
    cached_visit_is_pure [where c = ex_after_or and key = 12 and u = 2 and E = "ex_env False"
      and c'' = ex_after_both]
    cached_visit_is_pure [where j = 3 and t = 12 and E = "ex_env False" and k = 0
      and c = init_lit_collector and r = 2 and c' = ex_after_or and c'' = ex_after_both]
    ex_visit_or [of False] ex_lifetime [of False]
  by (simp add: ex_cached_def ex_after_or_def ex_after_both_def term_defs ex_env_def ex_terms_def)

section \<open>The driver\<close>

lemma process_assertions_Some:
  "process_assertions k E a c = (Return (Some u), c') \<Longrightarrow>
   u < 0 \<and> (\<exists>x\<in>set a. \<exists>c1 c2. lit_collector_process k E x c1 = (Return u, c2))"
proof (induction a arbitrary: c)
  case Nil
  then show ?case by (simp add: lc_return_def)
next
  case (Cons x xs)
  obtain r c1 where p: "lit_collector_process k E x c = (r, c1)" by force
  show ?case
  proof (cases r)
    case (Stop s)
    with Cons.prems p show ?thesis by (simp add: lc_bind_def)
  next
    case (Return w)
    show ?thesis
    proof (cases "w < 0")
      case True
      with Cons.prems p Return have "u = w" by (simp add: lc_bind_def lc_return_def)
      with True p Return show ?thesis by auto
    next
      case False
      with Cons.prems p Return
      have "process_assertions k E xs c1 = (Return (Some u), c')"
        by (simp add: lc_bind_def lc_assert_def lc_return_def lc_stop_def split: if_splits)
      from Cons.IH [OF this] show ?thesis by auto
    qed
  qed
qed

lemma push_literals_Return:
  "push_literals E ls v c = (Return v', c') \<Longrightarrow> v' = v @ ls"
proof (induction ls arbitrary: v c)
  case Nil
  then show ?case by (simp add: lc_return_def)
next
  case (Cons l ls)
  obtain r c1 where p: "lc_assert_call E (is_true_in_model E l) c = (r, c1)" by force
  show ?case
  proof (cases r)
    case (Stop s)
    with Cons.prems p show ?thesis by (simp add: lc_bind_def)
  next
    case (Return w)
    with Cons.prems p have "push_literals E ls (v @ [l]) c1 = (Return v', c')"
      by (simp add: lc_bind_def)
    from Cons.IH [OF this] show ?thesis by simp
  qed
qed

lemma push_literals_ndebug:
  "ndebug E \<Longrightarrow> push_literals E ls v c = (Return (v @ ls), c)"
  by (induction ls arbitrary: v) (simp_all add: lc_return_def lc_bind_def lc_assert_call_def)

lemma process_assertions_append:
  "process_assertions k E pre c0 = (Return None, c) \<Longrightarrow>
   process_assertions k E (pre @ ys) c0 = process_assertions k E ys c"
proof (induction pre arbitrary: c0)
  case Nil
  then show ?case by (simp add: lc_return_def)
next
  case (Cons x xs)
  obtain r c1 where p: "lit_collector_process k E x c0 = (r, c1)" by force
  show ?case
  proof (cases r)
    case (Stop s)
    with Cons.prems p show ?thesis by (simp add: lc_bind_def)
  next
    case (Return w)
    show ?thesis
    proof (cases "w < 0 \<or> \<not> (ndebug E \<or> w = true_term)")
      case True
      with Cons.prems p Return show ?thesis
        by (auto simp: lc_bind_def lc_return_def lc_assert_def lc_stop_def)
    next
      case False
      with Cons.prems p Return have "process_assertions k E xs c1 = (Return None, c)"
        by (auto simp: lc_bind_def lc_return_def lc_assert_def lc_stop_def)
      from Cons.IH [OF this] False p Return show ?thesis
        by (auto simp: lc_bind_def lc_return_def lc_assert_def lc_stop_def)
    qed
  qed
qed

lemma get_implicants_fail:
  assumes "process_assertions k E pre init_lit_collector = (Return None, c)"
    and "lit_collector_process k E x c = (Return u, c')" and "u < 0"
  shows "get_implicants k E (pre @ x # post) v = Return (u, v)"
proof -
  have "process_assertions k E (pre @ x # post) init_lit_collector = (Return (Some u), c')"
    using assms by (simp add: process_assertions_append lc_bind_def lc_return_def)
  then show ?thesis by (simp add: get_implicants_def)
qed

lemma get_implicants_Return:
  assumes "get_implicants k E a v = Return (code, v')"
  shows "(code < 0 \<and> v' = v \<and>
            (\<exists>x\<in>set a. \<exists>c1 c2. lit_collector_process k E x c1 = (Return code, c2))) \<or>
         (code = 0 \<and>
            (\<exists>c. process_assertions k E a init_lit_collector = (Return None, c) \<and>
                 v' = v @ lit_set c))"
proof -
  obtain r c where p: "process_assertions k E a init_lit_collector = (r, c)" by force
  show ?thesis
  proof (cases r)
    case (Stop s)
    with assms p show ?thesis by (simp add: get_implicants_def)
  next
    case (Return w)
    show ?thesis
    proof (cases w)
      case (Some u)
      with assms p Return have "code = u" "v' = v" by (simp_all add: get_implicants_def)
      with process_assertions_Some [of k E a init_lit_collector u c] p Return Some
      show ?thesis by simp
    next
      case None
      obtain r2 c2 where q: "push_literals E (lit_set c) v c = (r2, c2)" by force
      with assms p Return None have "r2 = Return v'" "code = 0"
        by (auto simp: get_implicants_def split: outcome.splits)
      with q push_literals_Return [of E "lit_set c" v c v' c2] p Return None
      show ?thesis by simp
    qed
  qed
qed


lemma checked_register_atom:
  "lc_inv (\<lambda>c. ndebug E \<or> (\<forall>l\<in>set (lit_set c).
       is_boolean_term (terms E) l \<and> is_true E (eval_in_model E l)))
     (register_atom E u)"
  by (intro lc_invI) (auto simp: register_atom_eq Let_def)

lemma checked_process_assertions:
  "lc_inv (\<lambda>c. ndebug E \<or> (\<forall>l\<in>set (lit_set c).
       is_boolean_term (terms E) l \<and> is_true E (eval_in_model E l)))
     (process_assertions k E a)"
proof (rule inv_process_assertions, rule inv_process, rule inv_visit [where R = "\<lambda>_. True"])
  show "lc_inv (\<lambda>c. ndebug E \<or> (\<forall>l\<in>set (lit_set c).
       is_boolean_term (terms E) l \<and> is_true E (eval_in_model E l))) (register_atom E u)" for u
    by (rule checked_register_atom)
qed (simp_all add: atoms_ok_def)

lemma push_literals_checked:
  "ndebug E \<or> (\<forall>l\<in>set ls. is_boolean_term (terms E) l \<and> is_true E (eval_in_model E l)) \<Longrightarrow>
   push_literals E ls v c = (Return (v @ ls), c)"
  by (induction ls arbitrary: v)
     (auto simp: lc_return_def lc_bind_def lc_assert_call_def is_true_in_model_def lc_assert_def)

lemma get_implicants_success:
  assumes "process_assertions k E a init_lit_collector = (Return None, c)"
  shows "get_implicants k E a v = Return (0, v @ lit_set c)"
proof -
  have "ndebug E \<or> (\<forall>l\<in>set (lit_set (snd (process_assertions k E a init_lit_collector))).
       is_boolean_term (terms E) l \<and> is_true E (eval_in_model E l))"
    by (rule lc_invD [OF checked_process_assertions]) (simp add: init_lit_collector_def)
  with assms have "push_literals E (lit_set c) v c = (Return (v @ lit_set c), c)"
    by (intro push_literals_checked) simp
  with assms show ?thesis by (simp add: get_implicants_def)
qed

text \<open>
  Claim C5. If a call of \<^verbatim>\<open>lit_collector_process\<close> on an assertion returns a negative
  code (the calls on the assertions before it having succeeded), \<^verbatim>\<open>get_implicants\<close>
  returns that code and the vector as it was given. If the loop over the assertions
  reaches its end, no call having failed, \<^verbatim>\<open>get_implicants\<close> does return, with code 0
  and the given vector followed by the elements of the set of literals: without
  \<^verbatim>\<open>NDEBUG\<close> the assertion of the loop that copies the literals cannot fail, as each
  literal passed the same check when it was added. \<^verbatim>\<open>get_implicants\<close> stops without
  returning only when the loop over the assertions does. And whenever \<^verbatim>\<open>get_implicants\<close>
  returns, either its code is negative, is the result of a call of
  \<^verbatim>\<open>lit_collector_process\<close> on one of the assertions, and the vector is unchanged; or
  its code is 0 and the vector is the given one followed by the elements of the set of
  literals.
\<close>

theorem get_implicants_result:
  "(process_assertions k E pre init_lit_collector = (Return None, c) \<and>
    lit_collector_process k E x c = (Return u, c') \<and> u < 0
     \<longrightarrow> get_implicants k E (pre @ x # post) v = Return (u, v)) \<and>
   (process_assertions k E a init_lit_collector = (Return None, cf)
     \<longrightarrow> get_implicants k E a v = Return (0, v @ lit_set cf)) \<and>
   (process_assertions k E a init_lit_collector = (Stop s, cs)
     \<longrightarrow> get_implicants k E a v = Stop s) \<and>
   (get_implicants k E a v = Return (code, v')
     \<longrightarrow> (code < 0 \<and> v' = v \<and>
            (\<exists>x\<in>set a. \<exists>c1 c2. lit_collector_process k E x c1 = (Return code, c2))) \<or>
         (code = 0 \<and>
            (\<exists>c. process_assertions k E a init_lit_collector = (Return None, c) \<and>
                 v' = v @ lit_set c)))"
proof (intro conjI impI)
  assume "process_assertions k E pre init_lit_collector = (Return None, c) \<and>
    lit_collector_process k E x c = (Return u, c') \<and> u < 0"
  then show "get_implicants k E (pre @ x # post) v = Return (u, v)"
    using get_implicants_fail [of k E pre c x u c' post v] by blast
next
  assume "process_assertions k E a init_lit_collector = (Return None, cf)"
  then show "get_implicants k E a v = Return (0, v @ lit_set cf)"
    by (rule get_implicants_success)
next
  assume "process_assertions k E a init_lit_collector = (Stop s, cs)"
  then show "get_implicants k E a v = Stop s" by (simp add: get_implicants_def)
next
  assume "get_implicants k E a v = Return (code, v')"
  then show "(code < 0 \<and> v' = v \<and>
            (\<exists>x\<in>set a. \<exists>c1 c2. lit_collector_process k E x c1 = (Return code, c2))) \<or>
         (code = 0 \<and>
            (\<exists>c. process_assertions k E a init_lit_collector = (Return None, c) \<and>
                 v' = v @ lit_set c))"
    by (rule get_implicants_Return)
qed

lemma ex_get_implicants_ok:
  "get_implicants 5 (ex_env nd) [12, 16] [100] = Return (0, [100, 4, 18])"
  by (simp add: get_implicants_def lit_collector_process_def setjmp_value_def reset_istack_def
      visit_numeral ex_defs lc_defs term_defs kind_defs init_lit_collector_def Let_def)

lemma ex_get_implicants_freevar:
  "get_implicants 5 (ex_env nd) [12, 30] [100] = Return (-3, [100])"
  by (simp add: get_implicants_def lit_collector_process_def setjmp_value_def reset_istack_def
      visit_numeral ex_defs lc_defs term_defs kind_defs init_lit_collector_def Let_def)

lemma ex_process_or:
  "process_assertions 5 (ex_env nd) [12] init_lit_collector = (Return None, ex_after_or)"
  by (simp add: lit_collector_process_def setjmp_value_def reset_istack_def ex_after_or_def
      visit_numeral ex_defs lc_defs term_defs kind_defs init_lit_collector_def Let_def)

lemma ex_process_var:
  "lit_collector_process 5 (ex_env nd) 30 ex_after_or = (Return (-3), ex_after_or)"
  by (simp add: lit_collector_process_def setjmp_value_def reset_istack_def ex_after_or_def
      visit_numeral ex_defs lc_defs term_defs kind_defs init_lit_collector_def Let_def)

lemma ex_process_both:
  "process_assertions 5 (ex_env nd) [12, 16] init_lit_collector = (Return None, ex_after_both)"
  by (simp add: lit_collector_process_def setjmp_value_def reset_istack_def ex_after_both_def
      visit_numeral ex_defs lc_defs term_defs kind_defs init_lit_collector_def Let_def)

lemma ex_process_tuple:
  "process_assertions 5 (ex_env False) [24] init_lit_collector =
     (Stop AssertFail, \<lparr>cache = Map.empty, lit_set = [], stack = []\<rparr>)"
  by (simp add: lit_collector_process_def setjmp_value_def reset_istack_def
      visit_numeral ex_defs lc_defs term_defs kind_defs init_lit_collector_def Let_def)

theorem get_implicants_result_witness:
  "get_implicants 5 (ex_env False) ([12] @ 30 # []) [100] = Return (-3, [100]) \<and>
   get_implicants 5 (ex_env False) [12, 16] [100] = Return (0, [100] @ lit_set ex_after_both) \<and>
   [100] @ lit_set ex_after_both = [100, 4, 18] \<and>
   get_implicants 5 (ex_env False) [24] [100] = Stop AssertFail \<and>
   (\<exists>c. process_assertions 5 (ex_env False) [12, 16] init_lit_collector = (Return None, c) \<and>
        [100, 4, 18] = [100] @ lit_set c)"
  using get_implicants_result [where k = 5 and E = "ex_env False" and pre = "[12]"
      and c = ex_after_or and x = 30 and u = "-3" and c' = ex_after_or and post = "[]"
      and v = "[100]" and a = "[12, 16]" and cf = ex_after_both and code = 0
      and v' = "[100, 4, 18]"]
    get_implicants_result [where k = 5 and E = "ex_env False" and a = "[24]" and v = "[100]"
      and s = AssertFail and cs = "\<lparr>cache = Map.empty, lit_set = [], stack = []\<rparr>"]
    ex_process_or [of False] ex_process_var [of False] ex_process_both [of False]
    ex_process_tuple
  by (simp add: ex_after_both_def)

lemma ex_process_q:
  "lit_collector_process 5 (ex_env nd) 6 init_lit_collector = (Return false_term, ex_after_q)"
  by (simp add: lit_collector_process_def setjmp_value_def reset_istack_def ex_after_q_def
      visit_numeral ex_defs lc_defs term_defs kind_defs init_lit_collector_def Let_def)

text \<open>
  Claim C8, as stated, fails: with \<^verbatim>\<open>NDEBUG\<close> the driver does not detect an assertion that
  is false in the model. On the assertion \<open>q\<close> (term 6, false in the example model)
  \<^verbatim>\<open>lit_collector_process\<close> returns \<^verbatim>\<open>false_term\<close>, which is not negative and not
  \<^verbatim>\<open>true_term\<close>, and \<^verbatim>\<open>get_implicants\<close> goes on, emits the literal \<open>not q\<close> and
  returns 0.
\<close>

theorem false_assertion_counterexample:
  "lit_collector_process 5 (ex_env True) 6 init_lit_collector = (Return false_term, ex_after_q) \<and>
   0 \<le> false_term \<and> false_term \<noteq> true_term \<and>
   get_implicants 5 (ex_env True) [6] [100] = Return (0, [100, 7])"
  by (simp add: get_implicants_def lit_collector_process_def setjmp_value_def reset_istack_def
      ex_after_q_def
      visit_numeral ex_defs lc_defs term_defs kind_defs init_lit_collector_def Let_def)

text \<open>
  Claim C8, amended. A result of \<^verbatim>\<open>lit_collector_process\<close> that is not negative and not
  \<^verbatim>\<open>true_term\<close> violates a precondition of \<^verbatim>\<open>get_implicants\<close> that only an
  \<^verbatim>\<open>assert\<close> checks: without \<^verbatim>\<open>NDEBUG\<close> the driver stops at the failed assertion and
  emits nothing; with \<^verbatim>\<open>NDEBUG\<close> it goes on with the next assertions as if the result
  had been \<^verbatim>\<open>true_term\<close>, and if no later call fails it returns 0 with the set of
  literals appended to the vector.
\<close>

theorem false_assertion_only_asserted:
  assumes "process_assertions k E pre init_lit_collector = (Return None, c)"
    and "lit_collector_process k E x c = (Return u, c')" and "0 \<le> u" and "u \<noteq> true_term"
  shows "get_implicants k E (pre @ x # post) v =
     (if ndebug E
      then (case process_assertions k E post c' of
              (Return (Some e), cf) \<Rightarrow> Return (e, v)
            | (Return None, cf) \<Rightarrow> Return (0, v @ lit_set cf)
            | (Stop s, cf) \<Rightarrow> Stop s)
      else Stop AssertFail)"
proof -
  have "process_assertions k E (pre @ x # post) init_lit_collector =
      (if ndebug E then process_assertions k E post c' else (Stop AssertFail, c'))"
    using assms
    by (simp add: process_assertions_append lc_bind_def lc_return_def lc_assert_def lc_stop_def)
  then show ?thesis
    by (auto simp: get_implicants_def push_literals_ndebug split: prod.splits outcome.splits option.splits)
qed

theorem false_assertion_only_asserted_witness:
  "get_implicants 5 (ex_env True) ([] @ 6 # []) [100] = Return (0, [100] @ lit_set ex_after_q) \<and>
   get_implicants 5 (ex_env False) ([] @ 6 # []) [100] = Stop AssertFail"
  using false_assertion_only_asserted [where k = 5 and E = "ex_env True" and pre = "[]"
      and c = init_lit_collector and x = 6 and u = false_term and c' = ex_after_q and post = "[]"
      and v = "[100]"]
    false_assertion_only_asserted [where k = 5 and E = "ex_env False" and pre = "[]"
      and c = init_lit_collector and x = 6 and u = false_term and c' = ex_after_q and post = "[]"
      and v = "[100]"]
    ex_process_q [of True] ex_process_q [of False]
  by (simp add: lc_return_def term_defs ex_env_def)

text \<open>
  Claim C9. The visitor is called on every tuple term it reaches, whatever its arity, and
  \<^verbatim>\<open>lit_collector_visit_tuple\<close> asserts an arity of at least 3. In the example, term 20
  is \<open>(tuple x y)\<close>, of arity 2, a child of the equality 24: without \<^verbatim>\<open>NDEBUG\<close> the visit
  of 24 stops at the failed assertion; with \<^verbatim>\<open>NDEBUG\<close> it processes the pair like any
  tuple and returns.
\<close>

theorem tuple_arity_assertion_fails:
  "term_kind (terms (ex_env False)) 20 = TUPLE_TERM \<and>
   length (composite_term_desc (terms (ex_env False)) 20) = 2 \<and>
   lit_collector_visit 5 (ex_env False) 24 init_lit_collector =
     (Stop AssertFail, \<lparr>cache = Map.empty, lit_set = [], stack = []\<rparr>) \<and>
   lit_collector_visit 5 (ex_env True) 24 init_lit_collector = (Return false_term, ex_after_eq)"
  by (simp add: ex_after_eq_def
      visit_numeral ex_defs lc_defs term_defs kind_defs init_lit_collector_def Let_def)

section \<open>The literals are true in the model\<close>

lemma lits_true_register_atom:
  assumes "negation_sound E" and "ndebug E \<longrightarrow> is_boolean_term (terms E) t"
  shows "lc_inv (lits_true E) (register_atom E t)"
proof -
  have neg: "\<not> is_true E (eval_in_model E t) \<Longrightarrow> 0 \<le> eval_in_model E t \<Longrightarrow>
      is_boolean_term (terms E) t \<Longrightarrow> true_in_model E (opposite_term t)"
    using assms(1) by (simp add: negation_sound_def)
  show ?thesis
    using assms(2) neg
    by (intro lc_invI) (auto simp: register_atom_eq Let_def lits_true_def true_in_model_def)
qed

lemma lits_true_visit:
  assumes "negation_sound E" and "ndebug E \<longrightarrow> atoms_boolean E"
  shows "lc_inv (lits_true E) (lit_collector_visit k E t)"
proof (rule inv_visit [where R = "\<lambda>u. ndebug E \<longrightarrow> is_boolean_term (terms E) u"])
  show "lc_inv (lits_true E) (register_atom E u)"
    if "ndebug E \<longrightarrow> is_boolean_term (terms E) u" for u
    using assms(1) that by (rule lits_true_register_atom)
  show "atoms_ok (\<lambda>u. ndebug E \<longrightarrow> is_boolean_term (terms E) u) E"
    using assms(2) by (auto simp: atoms_boolean_def atoms_ok_def)
qed (simp_all add: lits_true_def)

lemma lits_true_get_implicants:
  assumes "negation_sound E" and "ndebug E \<longrightarrow> atoms_boolean E"
    and "get_implicants k E a v = Return (code, v')"
  shows "\<exists>ls. v' = v @ ls \<and> list_all (\<lambda>l. l \<noteq> true_term \<and> true_in_model E l) ls"
proof -
  have "lc_inv (lits_true E) (process_assertions k E a)"
    by (intro inv_process_assertions inv_process lits_true_visit assms) (simp add: lits_true_def)
  moreover have "lits_true E init_lit_collector"
    by (simp add: lits_true_def init_lit_collector_def)
  ultimately have *: "lits_true E (snd (process_assertions k E a init_lit_collector))"
    by (rule lc_invD)
  from get_implicants_Return [OF assms(3)] show ?thesis
  proof
    assume "code < 0 \<and> v' = v \<and>
      (\<exists>x\<in>set a. \<exists>c1 c2. lit_collector_process k E x c1 = (Return code, c2))"
    then have "v' = v @ []" by simp
    then show ?thesis by (intro exI [of _ "[]"]) simp
  next
    assume "code = 0 \<and>
      (\<exists>c. process_assertions k E a init_lit_collector = (Return None, c) \<and> v' = v @ lit_set c)"
    then obtain c where c: "process_assertions k E a init_lit_collector = (Return None, c)"
      "v' = v @ lit_set c" by blast
    with * have "lits_true E c" by simp
    with c(2) show ?thesis by (auto simp: lits_true_def list_all_iff)
  qed
qed

text \<open>
  Claim C2. Every term that enters the set of literals is true in the model, and
  \<^verbatim>\<open>true_term\<close> never enters it: \<open>lits_true\<close> is kept by \<^verbatim>\<open>register_atom\<close> (which only
  inserts through \<^verbatim>\<open>lit_collector_add_literal\<close>) and by \<^verbatim>\<open>lit_collector_process\<close>,
  whatever the outcome, so every literal that \<^verbatim>\<open>get_implicants\<close> appends to the vector
  is true in the model. The evaluator is expected to make the negation of a false
  Boolean term true, and with \<^verbatim>\<open>NDEBUG\<close> (no assertion on the types) the atoms are
  expected to be Boolean terms.
\<close>

theorem literals_true_in_model:
  assumes "negation_sound E" and "ndebug E \<longrightarrow> atoms_boolean E"
  shows "((ndebug E \<longrightarrow> is_boolean_term (terms E) t) \<and> lits_true E c
            \<longrightarrow> lits_true E (snd (register_atom E t c))) \<and>
         (lits_true E c \<longrightarrow> lits_true E (snd (lit_collector_process k E t c))) \<and>
         (get_implicants k E a v = Return (code, v')
            \<longrightarrow> (\<exists>ls. v' = v @ ls \<and> list_all (\<lambda>l. l \<noteq> true_term \<and> true_in_model E l) ls))"
proof (intro conjI impI)
  assume "(ndebug E \<longrightarrow> is_boolean_term (terms E) t) \<and> lits_true E c"
  with lits_true_register_atom [OF assms(1), of t]
  show "lits_true E (snd (register_atom E t c))"
    by (simp add: lc_invD)
next
  assume "lits_true E c"
  moreover have "lc_inv (lits_true E) (lit_collector_process k E t)"
    by (intro inv_process lits_true_visit assms) (simp add: lits_true_def)
  ultimately show "lits_true E (snd (lit_collector_process k E t c))"
    by (simp add: lc_invD)
next
  assume "get_implicants k E a v = Return (code, v')"
  with assms show "\<exists>ls. v' = v @ ls \<and> list_all (\<lambda>l. l \<noteq> true_term \<and> true_in_model E l) ls"
    by (rule lits_true_get_implicants)
qed

theorem literals_true_in_model_witness:
  "lits_true (ex_env True) ex_after_or \<and>
   lits_true (ex_env True) (snd (register_atom (ex_env True) 6 ex_after_or)) \<and>
   lits_true (ex_env True) (snd (lit_collector_process 5 (ex_env True) 6 ex_after_or)) \<and>
   (\<exists>ls. [100, 4, 18] = [100] @ ls \<and>
      list_all (\<lambda>l. l \<noteq> true_term \<and> true_in_model (ex_env True) l) ls)"
proof -
  have l: "lits_true (ex_env True) ex_after_or"
    by (simp add: lits_true_def true_in_model_def ex_after_or_def ex_defs term_defs)
  have b: "ndebug (ex_env True) \<longrightarrow> is_boolean_term (terms (ex_env True)) 6"
    by (simp add: ex_defs term_defs)
  show ?thesis
    using literals_true_in_model [where E = "ex_env True" and t = 6 and c = ex_after_or
        and k = 5 and a = "[12, 16]" and v = "[100]" and code = 0 and v' = "[100, 4, 18]"]
      ex_negation_sound [of True]
      ex_atoms_boolean [of True] l b ex_get_implicants_ok [of True]
    by simp
qed


section \<open>The top-level call\<close>

lemma grows_visit:
  "lc_inv (\<lambda>c'. set (lit_set c) \<subseteq> set (lit_set c') \<and> dom (cache c) \<subseteq> dom (cache c'))
     (lit_collector_visit k E t)"
proof (rule inv_visit [where R = "\<lambda>_. True"])
  show "lc_inv (\<lambda>c'. set (lit_set c) \<subseteq> set (lit_set c') \<and> dom (cache c) \<subseteq> dom (cache c'))
     (register_atom E u)" for u
    by (intro lc_invI) (auto simp: register_atom_eq Let_def)
qed (auto simp: atoms_ok_def)

lemma visit_grows:
  assumes "lit_collector_visit k E t c = (r, c1)"
  shows "set (lit_set c) \<subseteq> set (lit_set c1) \<and> dom (cache c) \<subseteq> dom (cache c1)"
  using lc_invD [OF grows_visit [of c k E t], of c] assms by simp

lemma visit_nonneg:
  assumes "nonneg_env E" and "cache_ok (\<lambda>u. 0 \<le> u) c" and "0 \<le> t"
    and "lit_collector_visit k E t c = (Return u, c1)"
  shows "0 \<le> u"
proof -
  have "lc_res (cache_ok (\<lambda>u. 0 \<le> u)) (lit_collector_visit k E t) (\<lambda>u. 0 \<le> u)"
  proof (rule res_visit)
    show "0 \<le> unsigned_term t" if "0 \<le> t" for t
      using that unfolding unsigned_term_arith by presburger
  qed (use assms in \<open>simp_all add: nonneg_env_def bool2term_def true_term_def false_term_def
        polarity_nonneg\<close>)
  with assms(2,4) show ?thesis
    by (auto simp: lc_res_def lc_spec_def)
qed

text \<open>
  Claim C6. When the visit leaves by \<^verbatim>\<open>longjmp\<close> with an error (whose code is negative),
  \<^verbatim>\<open>lit_collector_process\<close> returns that code; the state it leaves is the state the
  visit had reached at the failure with the scratch stack emptied: the cache and the set
  of literals are not rolled back, and they still hold what they held before the call.
  When the visit returns a term, \<^verbatim>\<open>lit_collector_process\<close> returns that term in the
  state of the visit. And when the table, the manager and the cache hold terms and no
  negative number, the result is negative exactly when the visit failed.
\<close>

theorem process_result:
  "(lit_collector_visit k E t c = (Stop (Longjmp e), c') \<and> error_code E e < 0
      \<longrightarrow> lit_collector_process k E t c = (Return (error_code E e), c'\<lparr>stack := []\<rparr>) \<and>
          set (lit_set c) \<subseteq> set (lit_set c') \<and> dom (cache c) \<subseteq> dom (cache c')) \<and>
   (lit_collector_visit k E t c = (Return u, c')
      \<longrightarrow> lit_collector_process k E t c = (Return u, c')) \<and>
   (nonneg_env E \<and> cache_ok (\<lambda>u. 0 \<le> u) c \<and> 0 \<le> t
      \<longrightarrow> ((\<exists>r c2. lit_collector_process k E t c = (Return r, c2) \<and> r < 0) \<longleftrightarrow>
           (\<exists>e d. lit_collector_visit k E t c = (Stop (Longjmp e), d))))"
proof (intro conjI impI)
  assume a: "lit_collector_visit k E t c = (Stop (Longjmp e), c') \<and> error_code E e < 0"
  then show "lit_collector_process k E t c = (Return (error_code E e), c'\<lparr>stack := []\<rparr>)"
    by (simp add: process_eq setjmp_value_def)
  from a visit_grows [of k E t c "Stop (Longjmp e)" c']
  show "set (lit_set c) \<subseteq> set (lit_set c')" and "dom (cache c) \<subseteq> dom (cache c')"
    by simp_all
next
  assume "lit_collector_visit k E t c = (Return u, c')"
  then show "lit_collector_process k E t c = (Return u, c')"
    by (simp add: process_eq)
next
  assume h: "nonneg_env E \<and> cache_ok (\<lambda>u. 0 \<le> u) c \<and> 0 \<le> t"
  then have neg: "error_code E e < 0" for e by (simp add: nonneg_env_def)
  have neq: "error_code E e \<noteq> 0" for e using neg [of e] by simp
  obtain o1 c' where v: "lit_collector_visit k E t c = (o1, c')" by force
  show "(\<exists>r c2. lit_collector_process k E t c = (Return r, c2) \<and> r < 0) \<longleftrightarrow>
           (\<exists>e d. lit_collector_visit k E t c = (Stop (Longjmp e), d))"
  proof (cases o1)
    case (Return u)
    with h v visit_nonneg [of E c t k u c'] have "0 \<le> u" by simp
    with v Return show ?thesis by (simp add: process_eq)
  next
    case (Stop s)
    with v neg neq show ?thesis
      by (cases s) (simp_all add: process_eq setjmp_value_def)
  qed
qed

lemma ex_nonneg_env: "nonneg_env (ex_env nd)"
  unfolding nonneg_env_def
proof (intro conjI)
  show "manager_ok ((\<le>) 0) (ex_env nd)"
    by (simp add: manager_ok_def ex_env_def ex_manager_def term_defs)
  show "children_ok ((\<le>) 0) (ex_env nd)"
    by (simp add: children_ok_def children_def poly_children_def ex_env_def ex_terms_def
        ex_kind_def ex_desc_def const_idx_def)
  show "\<forall>e. error_code (ex_env nd) e < 0"
    by (auto simp: ex_env_def split: lit_collect_error.splits)
qed

lemma ex_visit_tuple_var:
  "lit_collector_visit 5 (ex_env nd) 40 ex_after_or =
     (Stop (Longjmp LIT_COLLECT_FREEVAR_IN_TERM), ex_at_failure)"
  by (simp add: ex_after_or_def ex_at_failure_def
      visit_numeral ex_defs lc_defs term_defs kind_defs init_lit_collector_def Let_def)

theorem process_result_witness:
  "lit_collector_process 5 (ex_env False) 40 ex_after_or =
     (Return (-3), \<lparr>cache = [4 \<mapsto> 2, 12 \<mapsto> 2, 8 \<mapsto> 8, 10 \<mapsto> 10], lit_set = [4], stack = []\<rparr>) \<and>
   lit_collector_process 3 (ex_env False) 12 init_lit_collector = (Return 2, ex_after_or) \<and>
   ((\<exists>r c2. lit_collector_process 5 (ex_env False) 40 ex_after_or = (Return r, c2) \<and> r < 0) \<longleftrightarrow>
    (\<exists>e c1. lit_collector_visit 5 (ex_env False) 40 ex_after_or = (Stop (Longjmp e), c1)))"
proof -
  have c: "cache_ok (\<lambda>u. 0 \<le> u) ex_after_or"
    by (simp add: cache_ok_def ex_after_or_def)
  have e: "error_code (ex_env False) LIT_COLLECT_FREEVAR_IN_TERM = -3"
    by (simp add: ex_env_def)
  show ?thesis
    using process_result [where k = 5 and E = "ex_env False" and t = 40 and c = ex_after_or
        and e = LIT_COLLECT_FREEVAR_IN_TERM and c' = ex_at_failure]
      process_result [where k = 3 and E = "ex_env False" and t = 12 and c = init_lit_collector
        and u = 2 and c' = ex_after_or]
      ex_visit_tuple_var [of False] ex_visit_or [of False] ex_nonneg_env [of False] c e
    by (simp add: ex_at_failure_def)
qed


section \<open>If-then-else\<close>

lemma reach_trans:
  assumes "reach E u s" and "u \<in> set (children E (unsigned_term t))"
  shows "reach E t s"
  using assms(1)
proof (induction rule: reach.induct)
  case reach_self
  show ?case by (rule reach.reach_child [OF reach.reach_self assms(2)])
next
  case (reach_child s w)
  then show ?case by (auto intro: reach.reach_child)
qed

lemma cache_frame_inv:
  assumes "cache_frame S m" and "\<And>key. S key \<Longrightarrow> S' key"
  shows "lc_inv (\<lambda>c'. \<forall>key. \<not> S' key \<longrightarrow> cache c' key = cache c0 key) m"
proof (rule lc_invI, intro allI impI)
  fix c :: lit_collector_t and key
  assume c: "\<forall>key. \<not> S' key \<longrightarrow> cache c key = cache c0 key" and k: "\<not> S' key"
  from k assms(2) have "\<not> S key" by blast
  with assms(1) have "cache (snd (m c)) key = cache c key" by (simp add: cache_frame_def)
  with c k show "cache (snd (m c)) key = cache c0 key" by simp
qed

lemma visit_cache_frame: "cache_frame (reach E t) (lit_collector_visit k E t)"
proof (induction k arbitrary: t)
  case 0
  show ?case by (simp add: cache_frame_def lc_stop_def)
next
  case (Suc k)
  show ?case
    unfolding cache_frame_def
  proof (intro allI impI)
    fix c :: lit_collector_t and key assume key: "\<not> reach E t key"
    let ?I = "\<lambda>c'. \<forall>key. \<not> reach E t key \<longrightarrow> cache c' key = cache c key"
    have "lc_inv ?I (lit_collector_visit (Suc k) E t)"
      unfolding lit_collector_visit.simps Let_def
    proof (intro inv_intros inv_find_cached_term inv_cache_result
        inv_visit_switch [where R = "\<lambda>_. True"])
      show "lc_inv ?I (lit_collector_visit k E u)"
        if "u \<in> set (children E (unsigned_term t))" for u
        by (rule cache_frame_inv [OF Suc.IH [of u]]) (rule reach_trans [OF _ that])
      show "lc_inv ?I (register_atom E u)" for u
        by (intro lc_invI) (auto simp: register_atom_eq Let_def)
      show "?I (c'\<lparr>cache := (cache c')(unsigned_term t \<mapsto> u)\<rparr>)" if "?I c'" for c' u
        using that reach_self [of E t] by auto
    qed (auto simp: atoms_ok_def)
    from lc_invD [OF this, of c] key
    show "cache (snd (lit_collector_visit (Suc k) E t c)) key = cache c key" by simp
  qed
qed


lemma visit_Suc_uncached:
  assumes "lit_collector_visit (Suc k) E t c = (Return r, c')"
    and "cache c (unsigned_term t) = None"
  shows "\<exists>u c2. visit_switch (lit_collector_visit k E) E (unsigned_term t) c = (Return u, c2) \<and>
           r = u XOR polarity_of t \<and> c' = c2\<lparr>cache := (cache c2)(unsigned_term t \<mapsto> u)\<rparr>"
proof -
  from assms have f: "lit_collector_find_cached_term E (unsigned_term t) c = (Return NULL_TERM, c)"
    by (auto simp: visit_Suc_eq find_cached_term_eq split: if_splits)
  obtain o2 c2 where s: "visit_switch (lit_collector_visit k E) E (unsigned_term t) c = (o2, c2)"
    by force
  show ?thesis
  proof (cases o2)
    case (Stop x)
    with assms f s show ?thesis by (simp add: visit_Suc_eq)
  next
    case (Return u)
    with assms f s show ?thesis
      by (auto simp: visit_Suc_eq cache_result_eq split: if_splits)
  qed
qed

lemma visit_switch_ite:
  assumes "term_kind (terms E) t \<in> {ITE_TERM, ITE_SPECIAL}"
    and "composite_term_desc (terms E) t = [c0, a, b]"
  shows "visit_switch v E t =
     lc_bind (v c0) (\<lambda>w. if w = true_term then v a
                         else lc_bind (lc_assert E (w = false_term)) (\<lambda>_. v b))"
proof -
  have "lit_collector_visit_ite v E t [c0, a, b] =
     lc_bind (v c0) (\<lambda>w. if w = true_term then v a
                         else lc_bind (lc_assert E (w = false_term)) (\<lambda>_. v b))"
    by (simp add: lit_collector_visit_ite_def lc_bind_assert lc_bind_composite_arg
        cong: if_cong)
  with assms show ?thesis by (auto simp: visit_switch_def)
qed

lemma lc_bind_Return:
  assumes "lc_bind m f c = (Return r, c')"
  shows "\<exists>x c1. m c = (Return x, c1) \<and> f x c1 = (Return r, c')"
proof -
  obtain o1 c1 where m: "m c = (o1, c1)" by force
  with assms show ?thesis by (cases o1) (simp_all add: lc_bind_def)
qed

text \<open>
  Claim C4, amended. A visit that processes an if-then-else term \<open>(ite c a b)\<close> (its
  unsigned form is not in the cache) and returns has visited \<open>c\<close>, which returned \<open>w\<close>, and
  then one branch, \<open>a\<close> if \<open>w\<close> is \<^verbatim>\<open>true_term\<close> and \<open>b\<close> otherwise (without \<^verbatim>\<open>NDEBUG\<close>, \<open>w\<close>
  is then \<^verbatim>\<open>false_term\<close>); it returns the result of that branch, with the polarity, and
  its final state is the state after these two visits with the result cached for the
  term. The visitor is not called on the other branch: every cache entry whose key is
  not the term itself and is not reached from \<open>c\<close> or from the chosen branch is left as
  it was. The other branch can only be cached by this visit as a shared subterm of \<open>c\<close>
  or of the chosen branch.
\<close>

theorem ite_visit:
  assumes kind: "term_kind (terms E) (unsigned_term t) \<in> {ITE_TERM, ITE_SPECIAL}"
    and desc: "composite_term_desc (terms E) (unsigned_term t) = [c0, a, b]"
    and run: "lit_collector_visit (Suc k) E t c = (Return r, c')"
    and unc: "cache c (unsigned_term t) = None"
  shows "\<exists>w c1 u c2.
           lit_collector_visit k E c0 c = (Return w, c1) \<and>
           (w = true_term \<or> w = false_term \<or> ndebug E) \<and>
           lit_collector_visit k E (if w = true_term then a else b) c1 = (Return u, c2) \<and>
           r = u XOR polarity_of t \<and>
           c' = c2\<lparr>cache := (cache c2)(unsigned_term t \<mapsto> u)\<rparr> \<and>
           (\<forall>key. key \<noteq> unsigned_term t \<and> \<not> reach E c0 key \<and>
                  \<not> reach E (if w = true_term then a else b) key
                  \<longrightarrow> cache c' key = cache c key)"
proof -
  from visit_Suc_uncached [OF run unc] obtain u c2
    where sw: "visit_switch (lit_collector_visit k E) E (unsigned_term t) c = (Return u, c2)"
      and r: "r = u XOR polarity_of t"
      and c': "c' = c2\<lparr>cache := (cache c2)(unsigned_term t \<mapsto> u)\<rparr>"
    by blast
  from lc_bind_Return [OF sw [unfolded visit_switch_ite [OF kind desc]]]
  obtain w c1 where w: "lit_collector_visit k E c0 c = (Return w, c1)"
    and br: "(if w = true_term then lit_collector_visit k E a
              else lc_bind (lc_assert E (w = false_term)) (\<lambda>_. lit_collector_visit k E b)) c1
             = (Return u, c2)"
    by blast
  let ?x = "if w = true_term then a else b"
  from br have ok: "w = true_term \<or> w = false_term \<or> ndebug E"
    and x: "lit_collector_visit k E ?x c1 = (Return u, c2)"
    by (auto simp: lc_bind_assert lc_stop_def split: if_splits)
  have "cache c' key = cache c key"
    if "key \<noteq> unsigned_term t \<and> \<not> reach E c0 key \<and> \<not> reach E ?x key" for key
  proof -
    from that visit_cache_frame [of E c0 k] w have "cache c1 key = cache c key"
      by (auto simp: cache_frame_def dest!: spec [of _ c])
    moreover from that visit_cache_frame [of E ?x k] x have "cache c2 key = cache c1 key"
      by (auto simp: cache_frame_def dest!: spec [of _ c1])
    ultimately show ?thesis using that c' by simp
  qed
  with w ok x r c' show ?thesis by blast
qed

lemma ex_visit_ite:
  "lit_collector_visit (Suc 4) (ex_env nd) 14 init_lit_collector = (Return 8, ex_after_ite)"
  by (simp add: ex_after_ite_def numeral_eq_Suc lit_collector_visit.simps
      ex_defs lc_defs term_defs kind_defs init_lit_collector_def Let_def)

lemma ex_visit_p:
  "lit_collector_visit 4 (ex_env nd) 4 init_lit_collector =
     (Return true_term, \<lparr>cache = [4 \<mapsto> 2], lit_set = [4], stack = []\<rparr>)"
  by (simp add: visit_numeral ex_defs lc_defs term_defs kind_defs init_lit_collector_def Let_def)

lemma ex_reach_leaf:
  assumes "reach (ex_env nd) t s" and "t \<in> {4, 6, 8, 10}"
  shows "s = t"
  using assms
proof (induction rule: reach.induct)
  case reach_self
  then show ?case by (auto simp: term_defs)
next
  case (reach_child s u)
  then show ?case by (auto simp: children_def ex_env_def ex_terms_def ex_kind_def)
qed

theorem ite_visit_witness:
  "\<not> reach (ex_env False) 4 10 \<and> \<not> reach (ex_env False) 8 10 \<and>
   lit_collector_visit 4 (ex_env False) 4 init_lit_collector =
     (Return true_term, \<lparr>cache = [4 \<mapsto> 2], lit_set = [4], stack = []\<rparr>) \<and>
   lit_collector_visit (Suc 4) (ex_env False) 14 init_lit_collector = (Return 8, ex_after_ite) \<and>
   cache ex_after_ite 10 = cache init_lit_collector 10"
proof -
  have k: "term_kind (terms (ex_env False)) (unsigned_term 14) \<in> {ITE_TERM, ITE_SPECIAL}"
    and d: "composite_term_desc (terms (ex_env False)) (unsigned_term 14) = [4, 8, 10]"
    and u: "cache init_lit_collector (unsigned_term 14) = None"
    by (simp_all add: ex_defs term_defs init_lit_collector_def)
  have n: "\<not> reach (ex_env False) 4 10" "\<not> reach (ex_env False) 8 10"
    using ex_reach_leaf [of False 4 10] ex_reach_leaf [of False 8 10] by auto
  from ite_visit [OF k d ex_visit_ite [of False] u] obtain w c1 u c2
    where w: "lit_collector_visit 4 (ex_env False) 4 init_lit_collector = (Return w, c1)"
      and fr: "\<forall>key. key \<noteq> unsigned_term 14 \<and> \<not> reach (ex_env False) 4 key \<and>
                  \<not> reach (ex_env False) (if w = true_term then 8 else 10) key
                  \<longrightarrow> cache ex_after_ite key = cache init_lit_collector key"
    by blast
  from w ex_visit_p [of False] have "w = true_term" by simp
  with fr n have "cache ex_after_ite 10 = cache init_lit_collector 10"
    by (simp add: term_defs)
  with n ex_visit_p [of False] ex_visit_ite [of False] show ?thesis by simp
qed

text \<open>
  Claim C4, as stated, fails on a term with a shared subterm. Term 28 is
  \<open>(ite q y (x + y))\<close>; \<open>q\<close> is false, so the branch taken is \<open>x + y\<close> and the branch not
  taken is \<open>y\<close> (term 10). The visit of the sum visits \<open>y\<close>: the branch not taken is
  entered into the cache by this visit.
\<close>

theorem ite_untaken_branch_counterexample:
  "term_kind (terms (ex_env True)) 28 = ITE_TERM \<and>
   composite_term_desc (terms (ex_env True)) 28 = [6, 10, 26] \<and>
   fst (lit_collector_visit 4 (ex_env True) 6 init_lit_collector) = Return false_term \<and>
   cache init_lit_collector 10 = None \<and>
   lit_collector_visit 5 (ex_env True) 28 init_lit_collector = (Return 26, ex_after_shared) \<and>
   cache ex_after_shared 10 = Some 10"
  by (simp add: ex_after_shared_def
      visit_numeral ex_defs lc_defs term_defs kind_defs init_lit_collector_def Let_def)


section \<open>The value of the result\<close>

lemma tot_return: "Q x \<Longrightarrow> lc_tot I (lc_return x) Q"
  by (simp add: lc_tot_def spec_return)

lemma tot_bind:
  "lc_tot I m P \<Longrightarrow> (\<And>x. P x \<Longrightarrow> lc_tot I (f x) Q) \<Longrightarrow> lc_tot I (lc_bind m f) Q"
  unfolding lc_tot_def by (rule spec_bind)

lemma tot_weaken: "lc_tot I m P \<Longrightarrow> (\<And>x. P x \<Longrightarrow> Q x) \<Longrightarrow> lc_tot I m Q"
  unfolding lc_tot_def by (rule spec_weaken)

lemma tot_if:
  "(b \<Longrightarrow> lc_tot I m Q) \<Longrightarrow> (\<not> b \<Longrightarrow> lc_tot I n Q) \<Longrightarrow> lc_tot I (if b then m else n) Q"
  by simp

lemma tot_bind_return: "lc_tot I (f x) Q \<Longrightarrow> lc_tot I (lc_bind (lc_return x) f) Q"
  by (simp add: lc_bind_return)

lemma tot_bind_if:
  "(b \<Longrightarrow> lc_tot I (lc_bind m f) Q) \<Longrightarrow> (\<not> b \<Longrightarrow> lc_tot I (lc_bind n f) Q) \<Longrightarrow>
   lc_tot I (lc_bind (if b then m else n) f) Q"
  by simp

lemma tot_bind_assert:
  "ndebug E \<or> b \<Longrightarrow> lc_tot I (f ()) Q \<Longrightarrow> lc_tot I (lc_bind (lc_assert E b) f) Q"
  by (simp add: lc_bind_assert)

lemma tot_bind_composite_arg:
  "i < length d \<Longrightarrow> lc_tot I (f (d ! i)) Q \<Longrightarrow> lc_tot I (lc_bind (composite_arg d i) f) Q"
  by (simp add: lc_bind_composite_arg)

lemma tot_bind_alloc:
  "frame_ok I \<Longrightarrow> lc_tot I (f ()) Q \<Longrightarrow>
   lc_tot I (lc_bind (alloc_istack_array n) f) Q"
  by (rule tot_bind [where P = "\<lambda>_. True"])
     (simp_all add: lc_tot_def lc_spec_def alloc_istack_array_def frame_ok_def)

lemma tot_bind_free:
  "frame_ok I \<Longrightarrow> lc_tot I (f ()) Q \<Longrightarrow>
   lc_tot I (lc_bind free_istack_array f) Q"
  by (rule tot_bind [where P = "\<lambda>_. True"])
     (simp_all add: lc_tot_def lc_spec_def free_istack_array_def frame_ok_def)

lemma tot_visit_args:
  "(\<And>u. u \<in> set xs \<Longrightarrow> lc_tot I (v u) (P u)) \<Longrightarrow>
   lc_tot I (visit_args v xs) (\<lambda>ys. list_all2 P xs ys)"
  unfolding lc_tot_def by (rule spec_visit_args)

lemma tot_term_is_true:
  "ndebug E \<or> is_boolean_term (terms E) t \<Longrightarrow> 0 \<le> eval_in_model E t \<Longrightarrow>
   lc_tot I (term_is_true_in_model E t) (\<lambda>b. b = holds E t)"
  by (simp add: lc_tot_def lc_spec_def term_is_true_in_model_def lc_bind_assert lc_return_def
      Let_def holds_def)

lemma model_sound_neg:
  assumes "model_sound E" and "is_boolean_term (terms E) t" and "0 \<le> eval_in_model E t"
  shows "0 \<le> eval_in_model E (opposite_term t)"
    and "holds E (opposite_term t) = (\<not> holds E t)"
    and "eval_in_model E t = eval_in_model E (bool2term (holds E t))"
    and "is_boolean_term (terms E) (opposite_term t)"
  using assms by (simp_all add: model_sound_def)

lemma model_sound_const:
  assumes "model_sound E"
  shows "holds E true_term" and "\<not> holds E false_term" and "ndebug E \<or> good_term (terms E) (bool2term b)"
    and "is_boolean_term (terms E) (bool2term b)"
proof -
  have f: "false_term = opposite_term true_term"
    by (simp add: false_term_def true_term_def opposite_term_def)
  from assms show "holds E true_term" by (simp add: model_sound_def)
  from assms show "\<not> holds E false_term" unfolding f by (simp add: model_sound_def)
  from assms show "ndebug E \<or> good_term (terms E) (bool2term b)"
    by (auto simp: model_sound_def bool2term_def)
  from assms show "is_boolean_term (terms E) (bool2term b)"
    unfolding bool2term_def f by (simp add: model_sound_def)
qed

lemma tot_register_atom:
  assumes ms: "model_sound E" and b: "is_boolean_term (terms E) t" and e: "0 \<le> eval_in_model E t"
    and lit: "frame_ok I"
  shows "lc_tot I (register_atom E t) (\<lambda>r. r = bool2term (holds E t))"
proof -
  have n1: "is_boolean_term (terms E) (opposite_term t)"
    and n2: "\<not> is_true E (eval_in_model E t) \<Longrightarrow> is_true E (eval_in_model E (opposite_term t))"
    using model_sound_neg(2,4) [OF ms b e] by (simp_all add: holds_def)
  show ?thesis
    using b e lit n1 n2
    by (simp add: lc_tot_def lc_spec_def register_atom_eq Let_def holds_def frame_ok_def)
qed


lemma holds_cong: "eval_in_model E a = eval_in_model E b \<Longrightarrow> holds E a = holds E b"
  by (simp add: holds_def)

lemma sem_post_bool:
  assumes ms: "model_sound E" and b: "is_boolean_term (terms E) t" and e: "0 \<le> eval_in_model E t"
  shows "sem_post E t (bool2term (holds E t))"
  using model_sound_neg(3) [OF ms b e] model_sound_const(3) [OF ms]
  by (simp add: sem_post_def)

lemma tot_register_rebuilt:
  assumes ms: "model_sound E" and b: "is_boolean_term (terms E) t" and e: "0 \<le> eval_in_model E t"
    and rk: "t1 = t \<or> rebuild_ok E t t1"
    and lit: "frame_ok I"
  shows "lc_tot I (register_atom E t1) (sem_post E t)"
proof -
  from rk have v: "eval_in_model E t1 = eval_in_model E t"
    and b1: "is_boolean_term (terms E) t1"
    using b by (auto simp: rebuild_ok_def)
  have e1: "0 \<le> eval_in_model E t1" using e v by simp
  have h: "holds E t1 = holds E t" using v by (rule holds_cong)
  show ?thesis
    using tot_register_atom [where I = I, OF ms b1 e1 lit] sem_post_bool [OF ms b e]
    by (auto simp: lc_tot_def lc_spec_def h split: prod.splits outcome.splits)
qed

lemma sem_post_rebuilt:
  assumes "\<not> is_boolean_term (terms E) t" and "ndebug E \<or> good_term (terms E) t"
    and "t1 = t \<or> rebuild_ok E t t1"
  shows "sem_post E t t1"
  using assms by (auto simp: sem_post_def rebuild_ok_def)

lemma tot_finish:
  assumes ms: "model_sound E" and e: "0 \<le> eval_in_model E t"
    and g: "ndebug E \<or> good_term (terms E) t"
    and rk: "t1 = t \<or> rebuild_ok E t t1"
    and lit: "frame_ok I"
  shows "lc_tot I (if is_boolean_term (terms E) t1 then register_atom E t1 else lc_return t1)
           (sem_post E t)"
proof (cases "is_boolean_term (terms E) t")
  case True
  then have "is_boolean_term (terms E) t1" using rk by (auto simp: rebuild_ok_def)
  then show ?thesis using tot_register_rebuilt [where I = I, OF ms True e rk lit] by simp
next
  case False
  then have "\<not> is_boolean_term (terms E) t1" using rk by (auto simp: rebuild_ok_def)
  then show ?thesis using sem_post_rebuilt [OF False g rk] by (simp add: tot_return)
qed

lemma sem_post_vals:
  "list_all2 (sem_post E) d a \<Longrightarrow>
   list_all2 (\<lambda>r x. eval_in_model E r = eval_in_model E x) a d"
  by (simp add: list_all2_conv_all_nth sem_post_def)

lemma sem_unary:
  assumes v: "lc_tot I (v u) (sem_post E u)"
    and rb: "\<And>w. eval_in_model E w = eval_in_model E u \<Longrightarrow> rebuild_ok E t (mk w)"
    and fin: "\<And>t1. t1 = t \<or> rebuild_ok E t t1 \<Longrightarrow> lc_tot I (f t1) Q"
  shows "lc_tot I (lc_bind (v u) (\<lambda>w. f (if w \<noteq> u then mk w else t))) Q"
proof (rule tot_bind [OF v])
  fix w assume "sem_post E u w"
  then have "eval_in_model E w = eval_in_model E u" by (simp add: sem_post_def)
  then have "rebuild_ok E t (mk w)" by (rule rb)
  then show "lc_tot I (f (if w \<noteq> u then mk w else t)) Q" by (intro fin) simp
qed

lemma sem_visit_eq_atom:
  assumes ms: "model_sound E" and b: "is_boolean_term (terms E) t" and e: "0 \<le> eval_in_model E t"
    and v: "lc_tot I (v u) (sem_post E u)"
    and rb: "\<And>w. eval_in_model E w = eval_in_model E u \<Longrightarrow>
               rebuild_ok E t (mk_arith_term_eq0 (manager E) w)"
    and lit: "frame_ok I"
  shows "lc_tot I (lit_collector_visit_eq_atom v E t u) (sem_post E t)"
  unfolding lit_collector_visit_eq_atom_def
  by (rule sem_unary [where I = I and v = v and u = u and E = E and mk = "mk_arith_term_eq0 (manager E)" and f = "register_atom E"
        and t = t, OF v rb]) (simp_all add: tot_register_rebuilt [where I = I, OF ms b e _ lit])

lemma sem_visit_ge_atom:
  assumes ms: "model_sound E" and b: "is_boolean_term (terms E) t" and e: "0 \<le> eval_in_model E t"
    and v: "lc_tot I (v u) (sem_post E u)"
    and rb: "\<And>w. eval_in_model E w = eval_in_model E u \<Longrightarrow>
               rebuild_ok E t (mk_arith_term_geq0 (manager E) w)"
    and lit: "frame_ok I"
  shows "lc_tot I (lit_collector_visit_ge_atom v E t u) (sem_post E t)"
  unfolding lit_collector_visit_ge_atom_def
  by (rule sem_unary [where I = I and v = v and u = u and E = E and mk = "mk_arith_term_geq0 (manager E)" and f = "register_atom E"
        and t = t, OF v rb]) (simp_all add: tot_register_rebuilt [where I = I, OF ms b e _ lit])

lemma sem_visit_bit:
  assumes ms: "model_sound E" and b: "is_boolean_term (terms E) t" and e: "0 \<le> eval_in_model E t"
    and v: "lc_tot I (v (snd sd)) (sem_post E (snd sd))"
    and rb: "\<And>w. eval_in_model E w = eval_in_model E (snd sd) \<Longrightarrow>
               rebuild_ok E t (mk_bitextract (manager E) w (fst sd))"
    and lit: "frame_ok I"
  shows "lc_tot I (lit_collector_visit_bit v E t sd) (sem_post E t)"
  unfolding lit_collector_visit_bit_def Let_def
  by (rule sem_unary [where I = I and v = v and u = "snd sd" and E = E and mk = "\<lambda>w. mk_bitextract (manager E) w (fst sd)"
        and f = "register_atom E" and t = t, OF v rb]) (simp_all add: tot_register_rebuilt [where I = I, OF ms b e _ lit])

lemma sem_visit_select:
  assumes ms: "model_sound E" and e: "0 \<le> eval_in_model E t"
    and g: "ndebug E \<or> good_term (terms E) t"
    and v: "lc_tot I (v (snd sd)) (sem_post E (snd sd))"
    and rb: "\<And>w. eval_in_model E w = eval_in_model E (snd sd) \<Longrightarrow>
               rebuild_ok E t (mk_select (manager E) (fst sd) w)"
    and lit: "frame_ok I"
  shows "lc_tot I (lit_collector_visit_select v E t sd) (sem_post E t)"
  unfolding lit_collector_visit_select_def Let_def
  by (rule sem_unary [where I = I and v = v and u = "snd sd" and E = E and mk = "mk_select (manager E) (fst sd)" and t = t
        and f = "\<lambda>t1. if is_boolean_term (terms E) t1
        then register_atom E t1 else lc_return t1", OF v rb])
     (simp_all add: tot_finish [where I = I, OF ms e g _ lit])

lemma sem_visit_binary:
  assumes v: "\<And>x. x \<in> set d \<Longrightarrow> lc_tot I (v x) (sem_post E x)"
    and len: "length d = 2"
    and rb: "\<And>a b. eval_in_model E a = eval_in_model E (d ! 0) \<Longrightarrow>
                eval_in_model E b = eval_in_model E (d ! 1) \<Longrightarrow> rebuild_ok E t (mk a b)"
  shows "lc_tot I (visit_binary v E mk t d) (\<lambda>t1. t1 = t \<or> rebuild_ok E t t1)"
  unfolding visit_binary_def
  apply (rule tot_bind_assert, simp add: len)
  apply (rule tot_bind_composite_arg, simp add: len)
  apply (rule tot_bind [OF v], simp add: len)
  apply (rule tot_bind_composite_arg, simp add: len)
  apply (rule tot_bind [OF v], simp add: len)
  apply (rule tot_return)
  using rb by (auto simp: sem_post_def)

lemma sem_binary_term:
  assumes nb: "\<not> is_boolean_term (terms E) t" and g: "ndebug E \<or> good_term (terms E) t"
    and v: "\<And>x. x \<in> set d \<Longrightarrow> lc_tot I (v x) (sem_post E x)"
    and len: "length d = 2"
    and rb: "\<And>a b. eval_in_model E a = eval_in_model E (d ! 0) \<Longrightarrow>
                eval_in_model E b = eval_in_model E (d ! 1) \<Longrightarrow> rebuild_ok E t (mk a b)"
  shows "lc_tot I (visit_binary v E mk t d) (sem_post E t)"
  by (rule tot_weaken [OF sem_visit_binary [where I = I and v = v and mk = mk and t = t, OF v len rb]])
     (simp_all add: sem_post_rebuilt [OF nb g])

lemma sem_binary_atom:
  assumes ms: "model_sound E" and b: "is_boolean_term (terms E) t" and e: "0 \<le> eval_in_model E t"
    and v: "\<And>x. x \<in> set d \<Longrightarrow> lc_tot I (v x) (sem_post E x)"
    and len: "length d = 2"
    and rb: "\<And>a b. eval_in_model E a = eval_in_model E (d ! 0) \<Longrightarrow>
                eval_in_model E b = eval_in_model E (d ! 1) \<Longrightarrow> rebuild_ok E t (mk a b)"
    and lit: "frame_ok I"
  shows "lc_tot I (lc_bind (visit_binary v E mk t d) (register_atom E)) (sem_post E t)"
  by (rule tot_bind [OF sem_visit_binary [where I = I and v = v and mk = mk and t = t, OF v len rb]])
     (simp_all add: tot_register_rebuilt [where I = I, OF ms b e _ lit])

lemma sem_args:
  assumes v: "\<And>x. x \<in> set d \<Longrightarrow> lc_tot I (v x) (sem_post E x)"
    and n: "ndebug E \<or> bnd"
    and rb: "\<And>a. list_all2 (\<lambda>r x. eval_in_model E r = eval_in_model E x) a d \<Longrightarrow>
               rebuild_ok E t (mk a)"
    and fin: "\<And>t1. t1 = t \<or> rebuild_ok E t t1 \<Longrightarrow> lc_tot I (f t1) Q"
    and lit: "frame_ok I"
  shows "lc_tot I (lc_bind (lc_assert E bnd) (\<lambda>_.
           lc_bind (alloc_istack_array n0) (\<lambda>_.
           lc_bind (visit_args v d) (\<lambda>a. f (if cnd a then mk a else t))))) Q"
proof -
  have a: "lc_tot I (visit_args v d) (list_all2 (sem_post E) d)"
    by (rule tot_visit_args) (rule v)
  have b: "lc_tot I (f (if cnd a then mk a else t)) Q" if "list_all2 (sem_post E) d a" for a
  proof -
    from that have "rebuild_ok E t (mk a)" by (intro rb sem_post_vals)
    then show ?thesis by (intro fin) simp
  qed
  show ?thesis
    by (rule tot_bind_assert [OF n], rule tot_bind_alloc [OF lit], rule tot_bind [OF a], rule b)
qed

lemma tot_free_return:
  assumes lit: "frame_ok I" and "Q x"
  shows "lc_tot I (lc_bind free_istack_array (\<lambda>_. lc_return x)) Q"
  by (rule tot_bind_free [OF lit]) (simp add: tot_return assms(2))

lemma sem_visit_app:
  assumes ms: "model_sound E" and e: "0 \<le> eval_in_model E t"
    and g: "ndebug E \<or> good_term (terms E) t"
    and v: "\<And>x. x \<in> set d \<Longrightarrow> lc_tot I (v x) (sem_post E x)"
    and n: "ndebug E \<or> 2 \<le> length d"
    and rb: "\<And>a. list_all2 (\<lambda>r x. eval_in_model E r = eval_in_model E x) a d \<Longrightarrow>
               rebuild_ok E t (mk_application (manager E) (hd a) (u32_sub (length d) 1) (tl a))"
    and lit: "frame_ok I"
  shows "lc_tot I (lit_collector_visit_app v E t d) (sem_post E t)"
proof -
  have fin: "lc_tot I (lc_bind (if is_boolean_term (terms E) t1 then register_atom E t1
      else lc_return t1) (\<lambda>t2. lc_bind free_istack_array (\<lambda>_. lc_return t2))) (sem_post E t)"
    if rk: "t1 = t \<or> rebuild_ok E t t1" for t1
    by (rule tot_bind [OF tot_finish [where I = I, OF ms e g rk lit]])
       (rule tot_free_return [OF lit])
  show ?thesis
    unfolding lit_collector_visit_app_def Let_def
    by (rule sem_args [where I = I and v = v and t = t and E = E and Q = "sem_post E t"
          and mk = "\<lambda>a. mk_application (manager E) (hd a) (u32_sub (length d) 1) (tl a)"
          and f = "\<lambda>t1. lc_bind (if is_boolean_term (terms E) t1 then register_atom E t1
             else lc_return t1) (\<lambda>t2. lc_bind free_istack_array (\<lambda>_. lc_return t2))",
          OF v n rb fin lit])
qed

lemma sem_free_rebuilt:
  assumes nb: "\<not> is_boolean_term (terms E) t" and g: "ndebug E \<or> good_term (terms E) t"
    and lit: "frame_ok I" and rk: "t1 = t \<or> rebuild_ok E t t1"
  shows "lc_tot I (lc_bind free_istack_array (\<lambda>_. lc_return t1)) (sem_post E t)"
  by (rule tot_free_return [OF lit]) (rule sem_post_rebuilt [OF nb g rk])

lemma sem_visit_update:
  assumes nb: "\<not> is_boolean_term (terms E) t" and g: "ndebug E \<or> good_term (terms E) t"
    and v: "\<And>x. x \<in> set d \<Longrightarrow> lc_tot I (v x) (sem_post E x)"
    and n: "ndebug E \<or> 3 \<le> length d"
    and rb: "\<And>a. list_all2 (\<lambda>r x. eval_in_model E r = eval_in_model E x) a d \<Longrightarrow>
               rebuild_ok E t (mk_update (manager E) (hd a) (u32_sub (length d) 2) (tl a) (last a))"
    and lit: "frame_ok I"
  shows "lc_tot I (lit_collector_visit_update v E t d) (sem_post E t)"
  unfolding lit_collector_visit_update_def Let_def
  by (rule sem_args [where I = I and v = v and t = t and E = E and Q = "sem_post E t"
        and mk = "\<lambda>a. mk_update (manager E) (hd a) (u32_sub (length d) 2) (tl a) (last a)"
        and f = "\<lambda>t1. lc_bind free_istack_array (\<lambda>_. lc_return t1)",
        OF v n rb sem_free_rebuilt [OF nb g lit] lit])

lemma sem_visit_tuple:
  assumes nb: "\<not> is_boolean_term (terms E) t" and g: "ndebug E \<or> good_term (terms E) t"
    and v: "\<And>x. x \<in> set d \<Longrightarrow> lc_tot I (v x) (sem_post E x)"
    and n: "ndebug E \<or> 3 \<le> length d"
    and rb: "\<And>a. list_all2 (\<lambda>r x. eval_in_model E r = eval_in_model E x) a d \<Longrightarrow>
               rebuild_ok E t (mk_tuple (manager E) (length d) a)"
    and lit: "frame_ok I"
  shows "lc_tot I (lit_collector_visit_tuple v E t d) (sem_post E t)"
  unfolding lit_collector_visit_tuple_def Let_def
  by (rule sem_args [where I = I and v = v and t = t and E = E and Q = "sem_post E t"
        and mk = "mk_tuple (manager E) (length d)"
        and f = "\<lambda>t1. lc_bind free_istack_array (\<lambda>_. lc_return t1)",
        OF v n rb sem_free_rebuilt [OF nb g lit] lit])

lemma sem_visit_bvarray:
  assumes nb: "\<not> is_boolean_term (terms E) t" and g: "ndebug E \<or> good_term (terms E) t"
    and v: "\<And>x. x \<in> set d \<Longrightarrow> lc_tot I (v x) (sem_post E x)"
    and n: "ndebug E \<or> 1 \<le> length d"
    and rb: "\<And>a. list_all2 (\<lambda>r x. eval_in_model E r = eval_in_model E x) a d \<Longrightarrow>
               rebuild_ok E t (mk_bvarray (manager E) (length d) a)"
    and lit: "frame_ok I"
  shows "lc_tot I (lit_collector_visit_bvarray v E t d) (sem_post E t)"
  unfolding lit_collector_visit_bvarray_def Let_def
  using sem_args [where I = I and v = v and t = t and E = E and Q = "sem_post E t"
        and mk = "mk_bvarray (manager E) (length d)" and cnd = "\<lambda>a. True" and ?n0.0 = "length d"
        and f = "\<lambda>t1. lc_bind free_istack_array (\<lambda>_. lc_return t1)",
        OF v n rb sem_free_rebuilt [OF nb g lit] lit]
  by simp

lemma sem_visit_distinct:
  assumes ms: "model_sound E" and b: "is_boolean_term (terms E) t" and e: "0 \<le> eval_in_model E t"
    and v: "\<And>x. x \<in> set d \<Longrightarrow> lc_tot I (v x) (sem_post E x)"
    and n: "ndebug E \<or> 3 \<le> length d"
    and rb: "\<And>a. list_all2 (\<lambda>r x. eval_in_model E r = eval_in_model E x) a d \<Longrightarrow>
               rebuild_ok E t (mk_distinct (manager E) (length d) a)"
    and lit: "frame_ok I"
  shows "lc_tot I (lit_collector_visit_distinct v E t d) (sem_post E t)"
proof -
  have fin: "lc_tot I (lc_bind free_istack_array (\<lambda>_. register_atom E t1)) (sem_post E t)"
    if rk: "t1 = t \<or> rebuild_ok E t t1" for t1
    by (rule tot_bind_free [OF lit]) (rule tot_register_rebuilt [where I = I, OF ms b e rk lit])
  show ?thesis
    unfolding lit_collector_visit_distinct_def Let_def
    by (rule sem_args [where I = I and v = v and t = t and E = E and Q = "sem_post E t"
          and mk = "mk_distinct (manager E) (length d)"
          and f = "\<lambda>t1. lc_bind free_istack_array (\<lambda>_. register_atom E t1)",
          OF v n rb fin lit])
qed

lemma tot_visit_poly_vars:
  assumes v: "\<And>x. x \<in> set (poly_children xs) \<Longrightarrow> lc_tot I (v x) (sem_post E x)"
  shows "lc_tot I (visit_poly_vars v xs)
           (\<lambda>a. list_all2 (\<lambda>r x. eval_in_model E r = eval_in_model E x) a xs)"
proof (cases xs)
  case Nil
  then show ?thesis by (simp add: visit_poly_vars_def tot_return)
next
  case (Cons x ys)
  show ?thesis
  proof (cases "x = const_idx")
    case True
    have "lc_tot I (visit_args v ys) (list_all2 (sem_post E) ys)"
      by (rule tot_visit_args, rule v) (simp add: Cons True poly_children_def)
    then have "lc_tot I (lc_bind (visit_args v ys) (\<lambda>a. lc_return (const_idx # a)))
        (\<lambda>a. list_all2 (\<lambda>r x. eval_in_model E r = eval_in_model E x) a xs)"
      by (rule tot_bind) (simp add: tot_return Cons True sem_post_vals)
    then show ?thesis by (simp add: visit_poly_vars_def Cons True)
  next
    case False
    have "lc_tot I (visit_args v xs) (list_all2 (sem_post E) xs)"
      by (rule tot_visit_args, rule v) (simp add: Cons False poly_children_def)
    then have "lc_tot I (visit_args v xs)
        (\<lambda>a. list_all2 (\<lambda>r x. eval_in_model E r = eval_in_model E x) a xs)"
      by (rule tot_weaken) (rule sem_post_vals)
    then show ?thesis by (simp add: visit_poly_vars_def Cons False)
  qed
qed

lemma sem_poly:
  assumes nb: "\<not> is_boolean_term (terms E) t" and g: "ndebug E \<or> good_term (terms E) t"
    and v: "\<And>x. x \<in> set (poly_children xs) \<Longrightarrow> lc_tot I (v x) (sem_post E x)"
    and rb: "\<And>a. list_all2 (\<lambda>r x. eval_in_model E r = eval_in_model E x) a xs \<Longrightarrow>
               rebuild_ok E t (mk a)"
    and lit: "frame_ok I"
  shows "lc_tot I (lc_bind (alloc_istack_array n0) (\<lambda>_.
           lc_bind (visit_poly_vars v xs) (\<lambda>a.
           lc_bind free_istack_array (\<lambda>_. lc_return (if cnd a then mk a else t))))) (sem_post E t)"
proof -
  have b: "lc_tot I (lc_bind free_istack_array (\<lambda>_. lc_return (if cnd a then mk a else t)))
      (sem_post E t)"
    if "list_all2 (\<lambda>r x. eval_in_model E r = eval_in_model E x) a xs" for a
  proof -
    from that have "rebuild_ok E t (mk a)" by (rule rb)
    then show ?thesis by (intro sem_free_rebuilt [OF nb g lit]) simp
  qed
  show ?thesis
    by (rule tot_bind_alloc [OF lit], rule tot_bind [OF tot_visit_poly_vars [where I = I and v = v, OF v]],
        assumption, rule b)
qed

lemma sem_visit_poly:
  assumes nb: "\<not> is_boolean_term (terms E) t" and g: "ndebug E \<or> good_term (terms E) t"
    and v: "\<And>x. x \<in> set (poly_children (map snd p)) \<Longrightarrow> lc_tot I (v x) (sem_post E x)"
    and rb: "\<And>a. list_all2 (\<lambda>r x. eval_in_model E r = eval_in_model E x) a (map snd p) \<Longrightarrow>
               rebuild_ok E t (mk_arith_poly (manager E) p (length p) a)"
    and lit: "frame_ok I"
  shows "lc_tot I (lit_collector_visit_poly v E t p) (sem_post E t)"
  unfolding lit_collector_visit_poly_def Let_def
  by (rule sem_poly [where I = I and v = v and E = E and t = t
        and mk = "mk_arith_poly (manager E) p (length p)", OF nb g v rb lit])

lemma sem_visit_bvpoly64:
  assumes nb: "\<not> is_boolean_term (terms E) t" and g: "ndebug E \<or> good_term (terms E) t"
    and v: "\<And>x. x \<in> set (poly_children (map snd p)) \<Longrightarrow> lc_tot I (v x) (sem_post E x)"
    and rb: "\<And>a. list_all2 (\<lambda>r x. eval_in_model E r = eval_in_model E x) a (map snd p) \<Longrightarrow>
               rebuild_ok E t (mk_bvarith64_poly (manager E) p (length p) a)"
    and lit: "frame_ok I"
  shows "lc_tot I (lit_collector_visit_bvpoly64 v E t p) (sem_post E t)"
  unfolding lit_collector_visit_bvpoly64_def Let_def
  by (rule sem_poly [where I = I and v = v and E = E and t = t
        and mk = "mk_bvarith64_poly (manager E) p (length p)", OF nb g v rb lit])

lemma sem_visit_bvpoly:
  assumes nb: "\<not> is_boolean_term (terms E) t" and g: "ndebug E \<or> good_term (terms E) t"
    and v: "\<And>x. x \<in> set (poly_children (map snd p)) \<Longrightarrow> lc_tot I (v x) (sem_post E x)"
    and rb: "\<And>a. list_all2 (\<lambda>r x. eval_in_model E r = eval_in_model E x) a (map snd p) \<Longrightarrow>
               rebuild_ok E t (mk_bvarith_poly (manager E) p (length p) a)"
    and lit: "frame_ok I"
  shows "lc_tot I (lit_collector_visit_bvpoly v E t p) (sem_post E t)"
  unfolding lit_collector_visit_bvpoly_def Let_def
  by (rule sem_poly [where I = I and v = v and E = E and t = t
        and mk = "mk_bvarith_poly (manager E) p (length p)", OF nb g v rb lit])

lemma sem_visit_pprod:
  assumes nb: "\<not> is_boolean_term (terms E) t" and g: "ndebug E \<or> good_term (terms E) t"
    and v: "\<And>x. x \<in> set (map fst p) \<Longrightarrow> lc_tot I (v x) (sem_post E x)"
    and rb: "\<And>a. list_all2 (\<lambda>r x. eval_in_model E r = eval_in_model E x) a (map fst p) \<Longrightarrow>
               rebuild_ok E t (mk_pprod (manager E) p (length p) a)"
    and lit: "frame_ok I"
  shows "lc_tot I (lit_collector_visit_pprod v E t p) (sem_post E t)"
proof -
  have a: "lc_tot I (visit_args v (map fst p)) (list_all2 (sem_post E) (map fst p))"
    by (rule tot_visit_args) (rule v)
  have b: "lc_tot I (lc_bind free_istack_array (\<lambda>_. lc_return
      (if inequal_array_pprod a p then mk_pprod (manager E) p (length p) a else t))) (sem_post E t)"
    if "list_all2 (sem_post E) (map fst p) a" for a
  proof -
    from that have "rebuild_ok E t (mk_pprod (manager E) p (length p) a)"
      by (intro rb sem_post_vals)
    then show ?thesis by (intro sem_free_rebuilt [OF nb g lit]) simp
  qed
  show ?thesis
    unfolding lit_collector_visit_pprod_def Let_def
    by (rule tot_bind_alloc [OF lit], rule tot_bind [OF a], rule b)
qed


lemma bool2term_true: "(bool2term b = true_term) = b"
  by (simp add: bool2term_def true_term_def false_term_def)

lemma bool2term_false: "(bool2term b = false_term) = (\<not> b)"
  by (simp add: bool2term_def true_term_def false_term_def)

lemma sem_post_boolD:
  "sem_post E x r \<Longrightarrow> is_boolean_term (terms E) x \<Longrightarrow> r = bool2term (holds E x)"
  by (simp add: sem_post_def)

lemma sem_post_transfer:
  assumes "sem_post E x r" and "eval_in_model E t = eval_in_model E x"
    and "is_boolean_term (terms E) x = is_boolean_term (terms E) t"
  shows "sem_post E t r"
  using assms by (simp add: sem_post_def holds_def)

lemma sem_visit_ite:
  assumes ok: "ite_ok E t" and e: "0 \<le> eval_in_model E t"
    and d: "d = composite_term_desc (terms E) t"
    and v: "\<And>x. x \<in> set d \<Longrightarrow> 0 \<le> eval_in_model E x \<Longrightarrow> lc_tot I (v x) (sem_post E x)"
    and bev: "\<And>x. x \<in> set d \<Longrightarrow> is_boolean_term (terms E) x \<Longrightarrow> 0 \<le> eval_in_model E x"
  shows "lc_tot I (lit_collector_visit_ite v E t d) (sem_post E t)"
proof -
  from ok d e have len: "length d = 3" and bc: "is_boolean_term (terms E) (d ! 0)"
    and b1: "is_boolean_term (terms E) (d ! 1) = is_boolean_term (terms E) t"
    and b2: "is_boolean_term (terms E) (d ! 2) = is_boolean_term (terms E) t"
    and val: "eval_in_model E t = eval_in_model E (if holds E (d ! 0) then d ! 1 else d ! 2)"
    by (simp_all add: ite_ok_def Let_def)
  have m0: "d ! 0 \<in> set d" and m1: "d ! 1 \<in> set d" and m2: "d ! 2 \<in> set d"
    by (simp_all add: len)
  have c: "lc_tot I (v (d ! 0)) (sem_post E (d ! 0))"
    by (rule v [OF m0 bev [OF m0 bc]])
  have eq: "lit_collector_visit_ite v E t d =
      lc_bind (v (d ! 0)) (\<lambda>w. if w = true_term then v (d ! 1)
         else lc_bind (lc_assert E (w = false_term)) (\<lambda>_. v (d ! 2)))"
    by (simp add: lit_collector_visit_ite_def len lc_bind_assert lc_bind_composite_arg
        cong: if_cong)
  show ?thesis
    unfolding eq
  proof (rule tot_bind [OF c])
    fix w assume "sem_post E (d ! 0) w"
    then have w: "w = bool2term (holds E (d ! 0))" using bc by (rule sem_post_boolD)
    show "lc_tot I (if w = true_term then v (d ! 1)
         else lc_bind (lc_assert E (w = false_term)) (\<lambda>_. v (d ! 2))) (sem_post E t)"
    proof (cases "holds E (d ! 0)")
      case True
      then have ev: "eval_in_model E t = eval_in_model E (d ! 1)" using val by simp
      have "lc_tot I (v (d ! 1)) (sem_post E (d ! 1))"
        using e ev by (intro v [OF m1]) simp
      then have "lc_tot I (v (d ! 1)) (sem_post E t)"
        by (rule tot_weaken) (rule sem_post_transfer [OF _ ev b1])
      then show ?thesis using True by (simp add: w bool2term_true)
    next
      case False
      then have ev: "eval_in_model E t = eval_in_model E (d ! 2)" using val by simp
      have "lc_tot I (v (d ! 2)) (sem_post E (d ! 2))"
        using e ev by (intro v [OF m2]) simp
      then have "lc_tot I (v (d ! 2)) (sem_post E t)"
        by (rule tot_weaken) (rule sem_post_transfer [OF _ ev b2])
      then show ?thesis using False by (simp add: w bool2term_true bool2term_false lc_bind_assert)
    qed
  qed
qed

lemma tot_find_true_disjunct:
  assumes "\<And>x. x \<in> set xs \<Longrightarrow> ndebug E \<or> is_boolean_term (terms E) x"
    and "\<And>x. x \<in> set xs \<Longrightarrow> 0 \<le> eval_in_model E x"
  shows "lc_tot I (find_true_disjunct E xs i)
           (\<lambda>j. if list_ex (holds E) xs then i \<le> j \<and> j < i + length xs \<and> holds E (xs ! (j - i))
                else j = i + length xs)"
  using assms
proof (induction xs arbitrary: i)
  case Nil
  show ?case by (simp add: tot_return)
next
  case (Cons x xs)
  have t: "lc_tot I (term_is_true_in_model E x) (\<lambda>b. b = holds E x)"
    by (rule tot_term_is_true) (simp_all add: Cons.prems)
  have r: "lc_tot I (find_true_disjunct E xs (Suc i))
           (\<lambda>j. if list_ex (holds E) xs
                then Suc i \<le> j \<and> j < Suc i + length xs \<and> holds E (xs ! (j - Suc i))
                else j = Suc i + length xs)"
    by (rule Cons.IH) (simp_all add: Cons.prems)
  show ?case
    unfolding find_true_disjunct.simps
  proof (rule tot_bind [OF t])
    fix b assume b: "b = holds E x"
    show "lc_tot I (if b then lc_return i else find_true_disjunct E xs (Suc i))
        (\<lambda>j. if list_ex (holds E) (x # xs)
              then i \<le> j \<and> j < i + length (x # xs) \<and> holds E ((x # xs) ! (j - i))
              else j = i + length (x # xs))"
    proof (cases b)
      case True
      then show ?thesis using b by (simp add: tot_return)
    next
      case False
      have "lc_tot I (find_true_disjunct E xs (Suc i))
        (\<lambda>j. if list_ex (holds E) (x # xs)
              then i \<le> j \<and> j < i + length (x # xs) \<and> holds E ((x # xs) ! (j - i))
              else j = i + length (x # xs))"
        using False b by (intro tot_weaken [OF r]) (auto simp: Suc_diff_Suc split: if_splits)
      then show ?thesis using False by simp
    qed
  qed
qed

lemma tot_visit_false_disjuncts:
  assumes "\<And>x. x \<in> set xs \<Longrightarrow> lc_tot I (v x) (sem_post E x)"
    and "\<And>x. x \<in> set xs \<Longrightarrow> is_boolean_term (terms E) x"
    and "\<not> list_ex (holds E) xs"
  shows "lc_tot I (visit_false_disjuncts v E xs false_term) (\<lambda>r. r = false_term)"
  using assms
proof (induction xs)
  case Nil
  show ?case by (simp add: tot_return)
next
  case (Cons x xs)
  have a: "lc_tot I (v x) (sem_post E x)" by (rule Cons.prems) simp
  have r: "lc_tot I (visit_false_disjuncts v E xs false_term) (\<lambda>r. r = false_term)"
    using Cons.prems by (intro Cons.IH) simp_all
  show ?case
    unfolding visit_false_disjuncts.simps
  proof (rule tot_bind [OF a])
    fix u assume "sem_post E x u"
    then have "u = bool2term (holds E x)" by (rule sem_post_boolD) (simp add: Cons.prems)
    then have u: "u = false_term" using Cons.prems(3) by (simp add: bool2term_def)
    show "lc_tot I (lc_bind (lc_assert E (u = false_term)) (\<lambda>_. visit_false_disjuncts v E xs u))
        (\<lambda>r. r = false_term)"
      using r by (simp add: u lc_bind_assert)
  qed
qed

lemma sem_or_true:
  assumes post: "sem_post E t true_term"
    and bx: "\<And>x. x \<in> set d \<Longrightarrow> is_boolean_term (terms E) x"
    and bev: "\<And>x. x \<in> set d \<Longrightarrow> 0 \<le> eval_in_model E x"
    and ex: "list_ex (holds E) d"
    and v: "\<And>x. x \<in> set d \<Longrightarrow> lc_tot I (v x) (sem_post E x)"
  shows "lc_tot I (lc_bind (find_true_disjunct E d 0) (\<lambda>i.
          lc_bind (lc_assert E (i < length d)) (\<lambda>_.
          lc_bind (composite_arg d i) (\<lambda>x.
          lc_bind (v x) (\<lambda>u.
          lc_bind (lc_assert E (u = true_term)) (\<lambda>_. lc_return u)))))) (sem_post E t)"
proof -
  have f0: "lc_tot I (find_true_disjunct E d 0)
           (\<lambda>j. if list_ex (holds E) d then 0 \<le> j \<and> j < 0 + length d \<and> holds E (d ! (j - 0))
                else j = 0 + length d)"
    by (rule tot_find_true_disjunct) (simp_all add: bx bev)
  have f: "lc_tot I (find_true_disjunct E d 0) (\<lambda>j. j < length d \<and> holds E (d ! j))"
    by (rule tot_weaken [OF f0]) (simp add: ex)
  show ?thesis
  proof (rule tot_bind [OF f])
    fix j assume j: "j < length d \<and> holds E (d ! j)"
    then have m: "d ! j \<in> set d" by simp
    have a: "lc_tot I (lc_bind (v (d ! j)) (\<lambda>u.
        lc_bind (lc_assert E (u = true_term)) (\<lambda>_. lc_return u))) (sem_post E t)"
    proof (rule tot_bind [OF v [OF m]])
      fix u assume "sem_post E (d ! j) u"
      then have "u = bool2term (holds E (d ! j))" by (rule sem_post_boolD) (rule bx [OF m])
      then have u: "u = true_term" using j by (simp add: bool2term_def)
      show "lc_tot I (lc_bind (lc_assert E (u = true_term)) (\<lambda>_. lc_return u)) (sem_post E t)"
        unfolding u lc_bind_assert by (simp add: tot_return post)
    qed
    have e: "lc_bind (lc_assert E (j < length d)) (\<lambda>_.
        lc_bind (composite_arg d j) (\<lambda>x.
        lc_bind (v x) (\<lambda>u.
        lc_bind (lc_assert E (u = true_term)) (\<lambda>_. lc_return u)))) =
        lc_bind (v (d ! j)) (\<lambda>u.
        lc_bind (lc_assert E (u = true_term)) (\<lambda>_. lc_return u))"
      using j by (simp add: lc_bind_assert [of E True] lc_bind_composite_arg)
    show "lc_tot I (lc_bind (lc_assert E (j < length d)) (\<lambda>_.
        lc_bind (composite_arg d j) (\<lambda>x.
        lc_bind (v x) (\<lambda>u.
        lc_bind (lc_assert E (u = true_term)) (\<lambda>_. lc_return u))))) (sem_post E t)"
      unfolding e by (rule a)
  qed
qed

lemma sem_visit_or:
  assumes ms: "model_sound E" and b: "is_boolean_term (terms E) t" and e: "0 \<le> eval_in_model E t"
    and n: "ndebug E \<or> 0 < length d"
    and ab: "list_all (is_boolean_term (terms E)) d"
    and sem: "holds E t = list_ex (holds E) d"
    and v: "\<And>x. x \<in> set d \<Longrightarrow> lc_tot I (v x) (sem_post E x)"
    and bev: "\<And>x. x \<in> set d \<Longrightarrow> 0 \<le> eval_in_model E x"
  shows "lc_tot I (lit_collector_visit_or v E t d) (sem_post E t)"
proof -
  have bx: "is_boolean_term (terms E) x" if "x \<in> set d" for x
    using ab that by (simp add: list_all_iff)
  have tt: "lc_tot I (term_is_true_in_model E t) (\<lambda>b. b = holds E t)"
    by (rule tot_term_is_true) (simp_all add: b e)
  have post: "sem_post E t (bool2term (holds E t))" by (rule sem_post_bool [OF ms b e])
  show ?thesis
    unfolding lit_collector_visit_or_def Let_def
  proof (rule tot_bind_assert [OF n], rule tot_bind [OF tt])
    fix tv assume tv: "tv = holds E t"
    show "lc_tot I (if tv then lc_bind (find_true_disjunct E d 0) (\<lambda>i.
          lc_bind (lc_assert E (i < length d)) (\<lambda>_.
          lc_bind (composite_arg d i) (\<lambda>x.
          lc_bind (v x) (\<lambda>u.
          lc_bind (lc_assert E (u = true_term)) (\<lambda>_. lc_return u)))))
        else visit_false_disjuncts v E d false_term) (sem_post E t)"
    proof (cases "holds E t")
      case True
      from post True have p: "sem_post E t true_term" by (simp add: bool2term_def)
      from True sem have ex: "list_ex (holds E) d" by simp
      show ?thesis
        unfolding tv using True sem_or_true [where I = I and v = v, OF p bx bev ex v]
        by (simp only: if_True)
    next
      case False
      from post False have p: "sem_post E t false_term" by (simp add: bool2term_def)
      from False sem have ex: "\<not> list_ex (holds E) d" by simp
      have "lc_tot I (visit_false_disjuncts v E d false_term) (\<lambda>r. r = false_term)"
        by (rule tot_visit_false_disjuncts [where I = I and v = v, OF v bx ex])
      then have "lc_tot I (visit_false_disjuncts v E d false_term) (sem_post E t)"
        by (rule tot_weaken) (simp add: p)
      then show ?thesis unfolding tv using False by (simp only: if_False)
    qed
  qed
qed

lemma tot_visit_xor_args:
  assumes "\<And>x. x \<in> set xs \<Longrightarrow> lc_tot I (v x) (sem_post E x)"
    and "\<And>x. x \<in> set xs \<Longrightarrow> is_boolean_term (terms E) x"
  shows "lc_tot I (visit_xor_args v E xs b0)
           (\<lambda>r. r = foldl (\<lambda>acc x. acc \<noteq> holds E x) b0 xs)"
  using assms
proof (induction xs arbitrary: b0)
  case Nil
  show ?case by (simp add: tot_return)
next
  case (Cons x xs)
  have a: "lc_tot I (v x) (sem_post E x)" by (rule Cons.prems) simp
  have r: "lc_tot I (visit_xor_args v E xs b1)
      (\<lambda>r. r = foldl (\<lambda>acc x. acc \<noteq> holds E x) b1 xs)" for b1
    using Cons.prems by (intro Cons.IH) simp_all
  show ?case
    unfolding visit_xor_args.simps
  proof (rule tot_bind [OF a])
    fix u assume "sem_post E x u"
    then have u: "u = bool2term (holds E x)" by (rule sem_post_boolD) (simp add: Cons.prems)
    show "lc_tot I (lc_bind (lc_assert E (u = false_term \<or> u = true_term)) (\<lambda>_.
        visit_xor_args v E xs (b0 \<noteq> (u = true_term))))
        (\<lambda>r. r = foldl (\<lambda>acc x. acc \<noteq> holds E x) b0 (x # xs))"
      using r [of "b0 \<noteq> holds E x"]
      by (simp add: u lc_bind_assert bool2term_true bool2term_false)
  qed
qed

lemma sem_visit_xor:
  assumes ms: "model_sound E" and b: "is_boolean_term (terms E) t" and e: "0 \<le> eval_in_model E t"
    and ab: "list_all (is_boolean_term (terms E)) d"
    and sem: "holds E t = foldl (\<lambda>acc x. acc \<noteq> holds E x) False d"
    and v: "\<And>x. x \<in> set d \<Longrightarrow> lc_tot I (v x) (sem_post E x)"
  shows "lc_tot I (lit_collector_visit_xor v E t d) (sem_post E t)"
proof -
  have bx: "is_boolean_term (terms E) x" if "x \<in> set d" for x
    using ab that by (simp add: list_all_iff)
  have a: "lc_tot I (visit_xor_args v E d False)
      (\<lambda>r. r = foldl (\<lambda>acc x. acc \<noteq> holds E x) False d)"
    by (rule tot_visit_xor_args) (simp_all add: v bx)
  show ?thesis
    unfolding lit_collector_visit_xor_def
  proof (rule tot_bind [OF a])
    fix r assume "r = foldl (\<lambda>acc x. acc \<noteq> holds E x) False d"
    then have r: "r = holds E t" by (simp only: sem)
    show "lc_tot I (lc_return (bool2term r)) (sem_post E t)"
      unfolding r by (rule tot_return) (rule sem_post_bool [OF ms b e])
  qed
qed


section \<open>The switch\<close>

lemma strict_children:
  assumes "strict_ok E t" and "0 \<le> eval_in_model E t"
    and "\<And>x. x \<in> set (children E t) \<Longrightarrow> 0 \<le> eval_in_model E x \<Longrightarrow>
              lc_tot I (v x) (sem_post E x)"
    and "x \<in> set (children E t)"
  shows "lc_tot I (v x) (sem_post E x)"
  using assms by (simp add: strict_ok_def list_all_iff)

lemma manager_nary:
  assumes "manager_sound E" and "rebuilt_kind (term_kind (terms E) t)"
    and "0 \<le> eval_in_model E t" and "rebuild_args E t = d"
    and "list_all2 (\<lambda>r x. eval_in_model E r = eval_in_model E x) a d"
  shows "rebuild_ok E t (rebuild E t a)"
  using assms unfolding manager_sound_def by blast

lemma manager_unary:
  assumes "manager_sound E" and "rebuilt_kind (term_kind (terms E) t)"
    and "0 \<le> eval_in_model E t" and "rebuild_args E t = [u]"
    and "eval_in_model E w = eval_in_model E u"
  shows "rebuild_ok E t (rebuild E t [w])"
  by (rule manager_nary [OF assms(1-4)]) (simp add: assms(5))

lemma manager_binary:
  assumes "manager_sound E" and "rebuilt_kind (term_kind (terms E) t)"
    and "0 \<le> eval_in_model E t" and "rebuild_args E t = d" and "length d = 2"
    and "eval_in_model E a = eval_in_model E (d ! 0)"
    and "eval_in_model E b = eval_in_model E (d ! 1)"
  shows "rebuild_ok E t (rebuild E t [a, b])"
proof -
  from assms(5) obtain x y where d: "d = [x, y]"
    by (cases d; cases "tl d") auto
  show ?thesis
    by (rule manager_nary [OF assms(1-4)]) (use assms(6,7) d in simp)
qed

lemma sem_switch_ARITH_CONSTANT:
  assumes k: "term_kind (terms E) t = ARITH_CONSTANT"
    and ms: "model_sound E" and mg: "manager_sound E" and nok: "node_ok E t"
    and e: "0 \<le> eval_in_model E t"
    and v: "\<And>x. x \<in> set (children E t) \<Longrightarrow> 0 \<le> eval_in_model E x \<Longrightarrow>
              lc_tot I (v x) (sem_post E x)"
    and bev: "\<And>x. x \<in> set (children E t) \<Longrightarrow> is_boolean_term (terms E) x \<Longrightarrow>
              0 \<le> eval_in_model E x"
    and fr: "frame_ok I"
  shows "lc_tot I (visit_switch v E t) (sem_post E t)"
proof -
  from nok k have "sem_post E t t" by (simp add: node_ok_def Let_def sem_post_def)
  then show ?thesis by (simp add: visit_switch_def k tot_return)
qed

lemma sem_switch_BV64_CONSTANT:
  assumes k: "term_kind (terms E) t = BV64_CONSTANT"
    and ms: "model_sound E" and mg: "manager_sound E" and nok: "node_ok E t"
    and e: "0 \<le> eval_in_model E t"
    and v: "\<And>x. x \<in> set (children E t) \<Longrightarrow> 0 \<le> eval_in_model E x \<Longrightarrow>
              lc_tot I (v x) (sem_post E x)"
    and bev: "\<And>x. x \<in> set (children E t) \<Longrightarrow> is_boolean_term (terms E) x \<Longrightarrow>
              0 \<le> eval_in_model E x"
    and fr: "frame_ok I"
  shows "lc_tot I (visit_switch v E t) (sem_post E t)"
proof -
  from nok k have "sem_post E t t" by (simp add: node_ok_def Let_def sem_post_def)
  then show ?thesis by (simp add: visit_switch_def k tot_return)
qed

lemma sem_switch_BV_CONSTANT:
  assumes k: "term_kind (terms E) t = BV_CONSTANT"
    and ms: "model_sound E" and mg: "manager_sound E" and nok: "node_ok E t"
    and e: "0 \<le> eval_in_model E t"
    and v: "\<And>x. x \<in> set (children E t) \<Longrightarrow> 0 \<le> eval_in_model E x \<Longrightarrow>
              lc_tot I (v x) (sem_post E x)"
    and bev: "\<And>x. x \<in> set (children E t) \<Longrightarrow> is_boolean_term (terms E) x \<Longrightarrow>
              0 \<le> eval_in_model E x"
    and fr: "frame_ok I"
  shows "lc_tot I (visit_switch v E t) (sem_post E t)"
proof -
  from nok k have "sem_post E t t" by (simp add: node_ok_def Let_def sem_post_def)
  then show ?thesis by (simp add: visit_switch_def k tot_return)
qed

lemma sem_switch_CONSTANT_TERM:
  assumes k: "term_kind (terms E) t = CONSTANT_TERM"
    and ms: "model_sound E" and mg: "manager_sound E" and nok: "node_ok E t"
    and e: "0 \<le> eval_in_model E t"
    and v: "\<And>x. x \<in> set (children E t) \<Longrightarrow> 0 \<le> eval_in_model E x \<Longrightarrow>
              lc_tot I (v x) (sem_post E x)"
    and bev: "\<And>x. x \<in> set (children E t) \<Longrightarrow> is_boolean_term (terms E) x \<Longrightarrow>
              0 \<le> eval_in_model E x"
    and fr: "frame_ok I"
  shows "lc_tot I (visit_switch v E t) (sem_post E t)"
proof -
  from nok k have g: "ndebug E \<or> good_term (terms E) t"
    and b: "is_boolean_term (terms E) t \<Longrightarrow> t = true_term"
    by (simp_all add: node_ok_def Let_def)
  have "sem_post E t t"
    using g b model_sound_const(1) [OF ms] by (auto simp: sem_post_def bool2term_def)
  then show ?thesis by (simp add: visit_switch_def k tot_return)
qed

lemma sem_switch_UNINTERPRETED_TERM:
  assumes k: "term_kind (terms E) t = UNINTERPRETED_TERM"
    and ms: "model_sound E" and mg: "manager_sound E" and nok: "node_ok E t"
    and e: "0 \<le> eval_in_model E t"
    and v: "\<And>x. x \<in> set (children E t) \<Longrightarrow> 0 \<le> eval_in_model E x \<Longrightarrow>
              lc_tot I (v x) (sem_post E x)"
    and bev: "\<And>x. x \<in> set (children E t) \<Longrightarrow> is_boolean_term (terms E) x \<Longrightarrow>
              0 \<le> eval_in_model E x"
    and fr: "frame_ok I"
  shows "lc_tot I (visit_switch v E t) (sem_post E t)"
proof -
  from nok k have g: "ndebug E \<or> good_term (terms E) t" by (simp add: node_ok_def Let_def)
  have "lc_tot I (if is_boolean_term (terms E) t then register_atom E t else lc_return t)
      (sem_post E t)"
    by (rule tot_finish [where I = I, OF ms e g _ fr]) simp
  then show ?thesis by (simp add: visit_switch_def k)
qed

lemma sem_switch_UNUSED_TERM:
  assumes k: "term_kind (terms E) t = UNUSED_TERM"
    and ms: "model_sound E" and mg: "manager_sound E" and nok: "node_ok E t"
    and e: "0 \<le> eval_in_model E t"
    and v: "\<And>x. x \<in> set (children E t) \<Longrightarrow> 0 \<le> eval_in_model E x \<Longrightarrow>
              lc_tot I (v x) (sem_post E x)"
    and bev: "\<And>x. x \<in> set (children E t) \<Longrightarrow> is_boolean_term (terms E) x \<Longrightarrow>
              0 \<le> eval_in_model E x"
    and fr: "frame_ok I"
  shows "lc_tot I (visit_switch v E t) (sem_post E t)"
  using nok k by (simp add: node_ok_def Let_def)

lemma sem_switch_RESERVED_TERM:
  assumes k: "term_kind (terms E) t = RESERVED_TERM"
    and ms: "model_sound E" and mg: "manager_sound E" and nok: "node_ok E t"
    and e: "0 \<le> eval_in_model E t"
    and v: "\<And>x. x \<in> set (children E t) \<Longrightarrow> 0 \<le> eval_in_model E x \<Longrightarrow>
              lc_tot I (v x) (sem_post E x)"
    and bev: "\<And>x. x \<in> set (children E t) \<Longrightarrow> is_boolean_term (terms E) x \<Longrightarrow>
              0 \<le> eval_in_model E x"
    and fr: "frame_ok I"
  shows "lc_tot I (visit_switch v E t) (sem_post E t)"
  using nok k by (simp add: node_ok_def Let_def)

lemma sem_switch_VARIABLE:
  assumes k: "term_kind (terms E) t = VARIABLE"
    and ms: "model_sound E" and mg: "manager_sound E" and nok: "node_ok E t"
    and e: "0 \<le> eval_in_model E t"
    and v: "\<And>x. x \<in> set (children E t) \<Longrightarrow> 0 \<le> eval_in_model E x \<Longrightarrow>
              lc_tot I (v x) (sem_post E x)"
    and bev: "\<And>x. x \<in> set (children E t) \<Longrightarrow> is_boolean_term (terms E) x \<Longrightarrow>
              0 \<le> eval_in_model E x"
    and fr: "frame_ok I"
  shows "lc_tot I (visit_switch v E t) (sem_post E t)"
  using nok k by (simp add: node_ok_def Let_def)

lemma sem_switch_FORALL_TERM:
  assumes k: "term_kind (terms E) t = FORALL_TERM"
    and ms: "model_sound E" and mg: "manager_sound E" and nok: "node_ok E t"
    and e: "0 \<le> eval_in_model E t"
    and v: "\<And>x. x \<in> set (children E t) \<Longrightarrow> 0 \<le> eval_in_model E x \<Longrightarrow>
              lc_tot I (v x) (sem_post E x)"
    and bev: "\<And>x. x \<in> set (children E t) \<Longrightarrow> is_boolean_term (terms E) x \<Longrightarrow>
              0 \<le> eval_in_model E x"
    and fr: "frame_ok I"
  shows "lc_tot I (visit_switch v E t) (sem_post E t)"
  using nok k by (simp add: node_ok_def Let_def)

lemma sem_switch_LAMBDA_TERM:
  assumes k: "term_kind (terms E) t = LAMBDA_TERM"
    and ms: "model_sound E" and mg: "manager_sound E" and nok: "node_ok E t"
    and e: "0 \<le> eval_in_model E t"
    and v: "\<And>x. x \<in> set (children E t) \<Longrightarrow> 0 \<le> eval_in_model E x \<Longrightarrow>
              lc_tot I (v x) (sem_post E x)"
    and bev: "\<And>x. x \<in> set (children E t) \<Longrightarrow> is_boolean_term (terms E) x \<Longrightarrow>
              0 \<le> eval_in_model E x"
    and fr: "frame_ok I"
  shows "lc_tot I (visit_switch v E t) (sem_post E t)"
  using nok k by (simp add: node_ok_def Let_def)

lemma sem_switch_ARITH_EQ_ATOM:
  assumes k: "term_kind (terms E) t = ARITH_EQ_ATOM"
    and ms: "model_sound E" and mg: "manager_sound E" and nok: "node_ok E t"
    and e: "0 \<le> eval_in_model E t"
    and v: "\<And>x. x \<in> set (children E t) \<Longrightarrow> 0 \<le> eval_in_model E x \<Longrightarrow>
              lc_tot I (v x) (sem_post E x)"
    and bev: "\<And>x. x \<in> set (children E t) \<Longrightarrow> is_boolean_term (terms E) x \<Longrightarrow>
              0 \<le> eval_in_model E x"
    and fr: "frame_ok I"
  shows "lc_tot I (visit_switch v E t) (sem_post E t)"
proof -
  from nok k have g: "ndebug E \<or> good_term (terms E) t" and st: "strict_ok E t"
    and b: "is_boolean_term (terms E) t"
    by (simp_all add: node_ok_def Let_def)
  have ch: "children E t = [arith_eq_arg (terms E) t]" by (simp add: children_def k)
  have rk: "rebuilt_kind (term_kind (terms E) t)" by (simp add: k rebuilt_kind_def)
  have ar: "rebuild_args E t = [arith_eq_arg (terms E) t]" by (simp add: rebuild_args_def k)
  have v': "lc_tot I (v (arith_eq_arg (terms E) t)) (sem_post E (arith_eq_arg (terms E) t))"
    by (rule strict_children [where I = I and v = v, OF st e v]) (simp_all add: ch)
  have rb: "rebuild_ok E t (mk_arith_term_eq0 (manager E) w)"
    if "eval_in_model E w = eval_in_model E (arith_eq_arg (terms E) t)" for w
    using manager_unary [OF mg rk e ar that] by (simp add: rebuild_def k)
  show ?thesis
    unfolding visit_switch_def Let_def k term_kind.case
    by (rule sem_visit_eq_atom [where I = I and v = v, OF ms b e v' rb fr])
qed

lemma sem_switch_ARITH_GE_ATOM:
  assumes k: "term_kind (terms E) t = ARITH_GE_ATOM"
    and ms: "model_sound E" and mg: "manager_sound E" and nok: "node_ok E t"
    and e: "0 \<le> eval_in_model E t"
    and v: "\<And>x. x \<in> set (children E t) \<Longrightarrow> 0 \<le> eval_in_model E x \<Longrightarrow>
              lc_tot I (v x) (sem_post E x)"
    and bev: "\<And>x. x \<in> set (children E t) \<Longrightarrow> is_boolean_term (terms E) x \<Longrightarrow>
              0 \<le> eval_in_model E x"
    and fr: "frame_ok I"
  shows "lc_tot I (visit_switch v E t) (sem_post E t)"
proof -
  from nok k have g: "ndebug E \<or> good_term (terms E) t" and st: "strict_ok E t"
    and b: "is_boolean_term (terms E) t"
    by (simp_all add: node_ok_def Let_def)
  have ch: "children E t = [arith_ge_arg (terms E) t]" by (simp add: children_def k)
  have rk: "rebuilt_kind (term_kind (terms E) t)" by (simp add: k rebuilt_kind_def)
  have ar: "rebuild_args E t = [arith_ge_arg (terms E) t]" by (simp add: rebuild_args_def k)
  have v': "lc_tot I (v (arith_ge_arg (terms E) t)) (sem_post E (arith_ge_arg (terms E) t))"
    by (rule strict_children [where I = I and v = v, OF st e v]) (simp_all add: ch)
  have rb: "rebuild_ok E t (mk_arith_term_geq0 (manager E) w)"
    if "eval_in_model E w = eval_in_model E (arith_ge_arg (terms E) t)" for w
    using manager_unary [OF mg rk e ar that] by (simp add: rebuild_def k)
  show ?thesis
    unfolding visit_switch_def Let_def k term_kind.case
    by (rule sem_visit_ge_atom [where I = I and v = v, OF ms b e v' rb fr])
qed

lemma sem_switch_BIT_TERM:
  assumes k: "term_kind (terms E) t = BIT_TERM"
    and ms: "model_sound E" and mg: "manager_sound E" and nok: "node_ok E t"
    and e: "0 \<le> eval_in_model E t"
    and v: "\<And>x. x \<in> set (children E t) \<Longrightarrow> 0 \<le> eval_in_model E x \<Longrightarrow>
              lc_tot I (v x) (sem_post E x)"
    and bev: "\<And>x. x \<in> set (children E t) \<Longrightarrow> is_boolean_term (terms E) x \<Longrightarrow>
              0 \<le> eval_in_model E x"
    and fr: "frame_ok I"
  shows "lc_tot I (visit_switch v E t) (sem_post E t)"
proof -
  from nok k have g: "ndebug E \<or> good_term (terms E) t" and st: "strict_ok E t"
    and b: "is_boolean_term (terms E) t"
    by (simp_all add: node_ok_def Let_def)
  have ch: "children E t = [snd (select_term_desc (terms E) t)]" by (simp add: children_def k)
  have rk: "rebuilt_kind (term_kind (terms E) t)" by (simp add: k rebuilt_kind_def)
  have ar: "rebuild_args E t = [snd (select_term_desc (terms E) t)]" by (simp add: rebuild_args_def k)
  have v': "lc_tot I (v (snd (select_term_desc (terms E) t))) (sem_post E (snd (select_term_desc (terms E) t)))"
    by (rule strict_children [where I = I and v = v, OF st e v]) (simp_all add: ch)
  have rb: "rebuild_ok E t (mk_bitextract (manager E) w (fst (select_term_desc (terms E) t)))"
    if "eval_in_model E w = eval_in_model E (snd (select_term_desc (terms E) t))" for w
    using manager_unary [OF mg rk e ar that] by (simp add: rebuild_def k)
  show ?thesis
    unfolding visit_switch_def Let_def k term_kind.case
    by (rule sem_visit_bit [where I = I and v = v, OF ms b e v' rb fr])
qed

lemma sem_switch_SELECT_TERM:
  assumes k: "term_kind (terms E) t = SELECT_TERM"
    and ms: "model_sound E" and mg: "manager_sound E" and nok: "node_ok E t"
    and e: "0 \<le> eval_in_model E t"
    and v: "\<And>x. x \<in> set (children E t) \<Longrightarrow> 0 \<le> eval_in_model E x \<Longrightarrow>
              lc_tot I (v x) (sem_post E x)"
    and bev: "\<And>x. x \<in> set (children E t) \<Longrightarrow> is_boolean_term (terms E) x \<Longrightarrow>
              0 \<le> eval_in_model E x"
    and fr: "frame_ok I"
  shows "lc_tot I (visit_switch v E t) (sem_post E t)"
proof -
  from nok k have g: "ndebug E \<or> good_term (terms E) t" and st: "strict_ok E t"
    by (simp_all add: node_ok_def Let_def)
  have ch: "children E t = [snd (select_term_desc (terms E) t)]" by (simp add: children_def k)
  have rk: "rebuilt_kind (term_kind (terms E) t)" by (simp add: k rebuilt_kind_def)
  have ar: "rebuild_args E t = [snd (select_term_desc (terms E) t)]" by (simp add: rebuild_args_def k)
  have v': "lc_tot I (v (snd (select_term_desc (terms E) t))) (sem_post E (snd (select_term_desc (terms E) t)))"
    by (rule strict_children [where I = I and v = v, OF st e v]) (simp_all add: ch)
  have rb: "rebuild_ok E t (mk_select (manager E) (fst (select_term_desc (terms E) t)) w)"
    if "eval_in_model E w = eval_in_model E (snd (select_term_desc (terms E) t))" for w
    using manager_unary [OF mg rk e ar that] by (simp add: rebuild_def k)
  show ?thesis
    unfolding visit_switch_def Let_def k term_kind.case
    by (rule sem_visit_select [where I = I and v = v, OF ms e g v' rb fr])
qed

lemma sem_switch_EQ_TERM:
  assumes k: "term_kind (terms E) t = EQ_TERM"
    and ms: "model_sound E" and mg: "manager_sound E" and nok: "node_ok E t"
    and e: "0 \<le> eval_in_model E t"
    and v: "\<And>x. x \<in> set (children E t) \<Longrightarrow> 0 \<le> eval_in_model E x \<Longrightarrow>
              lc_tot I (v x) (sem_post E x)"
    and bev: "\<And>x. x \<in> set (children E t) \<Longrightarrow> is_boolean_term (terms E) x \<Longrightarrow>
              0 \<le> eval_in_model E x"
    and fr: "frame_ok I"
  shows "lc_tot I (visit_switch v E t) (sem_post E t)"
proof -
  let ?d = "composite_term_desc (terms E) t"
  from nok k have g: "ndebug E \<or> good_term (terms E) t" and st: "strict_ok E t"
    and len: "length ?d = 2" and b: "is_boolean_term (terms E) t"
    by (simp_all add: node_ok_def Let_def)
  have ch: "children E t = ?d" by (simp add: children_def k)
  have rk: "rebuilt_kind (term_kind (terms E) t)" by (simp add: k rebuilt_kind_def)
  have ar: "rebuild_args E t = ?d" by (simp add: rebuild_args_def k)
  have v': "lc_tot I (v x) (sem_post E x)" if "x \<in> set ?d" for x
    by (rule strict_children [where I = I and v = v, OF st e v]) (simp_all add: ch that)
  have rb: "rebuild_ok E t (mk_eq (manager E) a b)"
    if "eval_in_model E a = eval_in_model E (?d ! 0)"
      and "eval_in_model E b = eval_in_model E (?d ! 1)" for a b
    using manager_binary [OF mg rk e ar len that] by (simp add: rebuild_def k)
  show ?thesis
    unfolding visit_switch_def Let_def k term_kind.case lit_collector_visit_eq_def
    by (rule sem_binary_atom [where I = I and v = v, OF ms b e v' len rb fr])
qed

lemma sem_switch_ARITH_BINEQ_ATOM:
  assumes k: "term_kind (terms E) t = ARITH_BINEQ_ATOM"
    and ms: "model_sound E" and mg: "manager_sound E" and nok: "node_ok E t"
    and e: "0 \<le> eval_in_model E t"
    and v: "\<And>x. x \<in> set (children E t) \<Longrightarrow> 0 \<le> eval_in_model E x \<Longrightarrow>
              lc_tot I (v x) (sem_post E x)"
    and bev: "\<And>x. x \<in> set (children E t) \<Longrightarrow> is_boolean_term (terms E) x \<Longrightarrow>
              0 \<le> eval_in_model E x"
    and fr: "frame_ok I"
  shows "lc_tot I (visit_switch v E t) (sem_post E t)"
proof -
  let ?d = "composite_term_desc (terms E) t"
  from nok k have g: "ndebug E \<or> good_term (terms E) t" and st: "strict_ok E t"
    and len: "length ?d = 2" and b: "is_boolean_term (terms E) t"
    by (simp_all add: node_ok_def Let_def)
  have ch: "children E t = ?d" by (simp add: children_def k)
  have rk: "rebuilt_kind (term_kind (terms E) t)" by (simp add: k rebuilt_kind_def)
  have ar: "rebuild_args E t = ?d" by (simp add: rebuild_args_def k)
  have v': "lc_tot I (v x) (sem_post E x)" if "x \<in> set ?d" for x
    by (rule strict_children [where I = I and v = v, OF st e v]) (simp_all add: ch that)
  have rb: "rebuild_ok E t (mk_arith_eq (manager E) a b)"
    if "eval_in_model E a = eval_in_model E (?d ! 0)"
      and "eval_in_model E b = eval_in_model E (?d ! 1)" for a b
    using manager_binary [OF mg rk e ar len that] by (simp add: rebuild_def k)
  show ?thesis
    unfolding visit_switch_def Let_def k term_kind.case lit_collector_visit_arith_bineq_def
    by (rule sem_binary_atom [where I = I and v = v, OF ms b e v' len rb fr])
qed

lemma sem_switch_BV_EQ_ATOM:
  assumes k: "term_kind (terms E) t = BV_EQ_ATOM"
    and ms: "model_sound E" and mg: "manager_sound E" and nok: "node_ok E t"
    and e: "0 \<le> eval_in_model E t"
    and v: "\<And>x. x \<in> set (children E t) \<Longrightarrow> 0 \<le> eval_in_model E x \<Longrightarrow>
              lc_tot I (v x) (sem_post E x)"
    and bev: "\<And>x. x \<in> set (children E t) \<Longrightarrow> is_boolean_term (terms E) x \<Longrightarrow>
              0 \<le> eval_in_model E x"
    and fr: "frame_ok I"
  shows "lc_tot I (visit_switch v E t) (sem_post E t)"
proof -
  let ?d = "composite_term_desc (terms E) t"
  from nok k have g: "ndebug E \<or> good_term (terms E) t" and st: "strict_ok E t"
    and len: "length ?d = 2" and b: "is_boolean_term (terms E) t"
    by (simp_all add: node_ok_def Let_def)
  have ch: "children E t = ?d" by (simp add: children_def k)
  have rk: "rebuilt_kind (term_kind (terms E) t)" by (simp add: k rebuilt_kind_def)
  have ar: "rebuild_args E t = ?d" by (simp add: rebuild_args_def k)
  have v': "lc_tot I (v x) (sem_post E x)" if "x \<in> set ?d" for x
    by (rule strict_children [where I = I and v = v, OF st e v]) (simp_all add: ch that)
  have rb: "rebuild_ok E t (mk_bveq (manager E) a b)"
    if "eval_in_model E a = eval_in_model E (?d ! 0)"
      and "eval_in_model E b = eval_in_model E (?d ! 1)" for a b
    using manager_binary [OF mg rk e ar len that] by (simp add: rebuild_def k)
  show ?thesis
    unfolding visit_switch_def Let_def k term_kind.case lit_collector_visit_bveq_def
    by (rule sem_binary_atom [where I = I and v = v, OF ms b e v' len rb fr])
qed

lemma sem_switch_BV_GE_ATOM:
  assumes k: "term_kind (terms E) t = BV_GE_ATOM"
    and ms: "model_sound E" and mg: "manager_sound E" and nok: "node_ok E t"
    and e: "0 \<le> eval_in_model E t"
    and v: "\<And>x. x \<in> set (children E t) \<Longrightarrow> 0 \<le> eval_in_model E x \<Longrightarrow>
              lc_tot I (v x) (sem_post E x)"
    and bev: "\<And>x. x \<in> set (children E t) \<Longrightarrow> is_boolean_term (terms E) x \<Longrightarrow>
              0 \<le> eval_in_model E x"
    and fr: "frame_ok I"
  shows "lc_tot I (visit_switch v E t) (sem_post E t)"
proof -
  let ?d = "composite_term_desc (terms E) t"
  from nok k have g: "ndebug E \<or> good_term (terms E) t" and st: "strict_ok E t"
    and len: "length ?d = 2" and b: "is_boolean_term (terms E) t"
    by (simp_all add: node_ok_def Let_def)
  have ch: "children E t = ?d" by (simp add: children_def k)
  have rk: "rebuilt_kind (term_kind (terms E) t)" by (simp add: k rebuilt_kind_def)
  have ar: "rebuild_args E t = ?d" by (simp add: rebuild_args_def k)
  have v': "lc_tot I (v x) (sem_post E x)" if "x \<in> set ?d" for x
    by (rule strict_children [where I = I and v = v, OF st e v]) (simp_all add: ch that)
  have rb: "rebuild_ok E t (mk_bvge (manager E) a b)"
    if "eval_in_model E a = eval_in_model E (?d ! 0)"
      and "eval_in_model E b = eval_in_model E (?d ! 1)" for a b
    using manager_binary [OF mg rk e ar len that] by (simp add: rebuild_def k)
  show ?thesis
    unfolding visit_switch_def Let_def k term_kind.case lit_collector_visit_bvge_def
    by (rule sem_binary_atom [where I = I and v = v, OF ms b e v' len rb fr])
qed

lemma sem_switch_BV_SGE_ATOM:
  assumes k: "term_kind (terms E) t = BV_SGE_ATOM"
    and ms: "model_sound E" and mg: "manager_sound E" and nok: "node_ok E t"
    and e: "0 \<le> eval_in_model E t"
    and v: "\<And>x. x \<in> set (children E t) \<Longrightarrow> 0 \<le> eval_in_model E x \<Longrightarrow>
              lc_tot I (v x) (sem_post E x)"
    and bev: "\<And>x. x \<in> set (children E t) \<Longrightarrow> is_boolean_term (terms E) x \<Longrightarrow>
              0 \<le> eval_in_model E x"
    and fr: "frame_ok I"
  shows "lc_tot I (visit_switch v E t) (sem_post E t)"
proof -
  let ?d = "composite_term_desc (terms E) t"
  from nok k have g: "ndebug E \<or> good_term (terms E) t" and st: "strict_ok E t"
    and len: "length ?d = 2" and b: "is_boolean_term (terms E) t"
    by (simp_all add: node_ok_def Let_def)
  have ch: "children E t = ?d" by (simp add: children_def k)
  have rk: "rebuilt_kind (term_kind (terms E) t)" by (simp add: k rebuilt_kind_def)
  have ar: "rebuild_args E t = ?d" by (simp add: rebuild_args_def k)
  have v': "lc_tot I (v x) (sem_post E x)" if "x \<in> set ?d" for x
    by (rule strict_children [where I = I and v = v, OF st e v]) (simp_all add: ch that)
  have rb: "rebuild_ok E t (mk_bvsge (manager E) a b)"
    if "eval_in_model E a = eval_in_model E (?d ! 0)"
      and "eval_in_model E b = eval_in_model E (?d ! 1)" for a b
    using manager_binary [OF mg rk e ar len that] by (simp add: rebuild_def k)
  show ?thesis
    unfolding visit_switch_def Let_def k term_kind.case lit_collector_visit_bvsge_def
    by (rule sem_binary_atom [where I = I and v = v, OF ms b e v' len rb fr])
qed

lemma sem_switch_BV_DIV:
  assumes k: "term_kind (terms E) t = BV_DIV"
    and ms: "model_sound E" and mg: "manager_sound E" and nok: "node_ok E t"
    and e: "0 \<le> eval_in_model E t"
    and v: "\<And>x. x \<in> set (children E t) \<Longrightarrow> 0 \<le> eval_in_model E x \<Longrightarrow>
              lc_tot I (v x) (sem_post E x)"
    and bev: "\<And>x. x \<in> set (children E t) \<Longrightarrow> is_boolean_term (terms E) x \<Longrightarrow>
              0 \<le> eval_in_model E x"
    and fr: "frame_ok I"
  shows "lc_tot I (visit_switch v E t) (sem_post E t)"
proof -
  let ?d = "composite_term_desc (terms E) t"
  from nok k have g: "ndebug E \<or> good_term (terms E) t" and st: "strict_ok E t"
    and len: "length ?d = 2" and b: "\<not> is_boolean_term (terms E) t"
    by (simp_all add: node_ok_def Let_def)
  have ch: "children E t = ?d" by (simp add: children_def k)
  have rk: "rebuilt_kind (term_kind (terms E) t)" by (simp add: k rebuilt_kind_def)
  have ar: "rebuild_args E t = ?d" by (simp add: rebuild_args_def k)
  have v': "lc_tot I (v x) (sem_post E x)" if "x \<in> set ?d" for x
    by (rule strict_children [where I = I and v = v, OF st e v]) (simp_all add: ch that)
  have rb: "rebuild_ok E t (mk_bvdiv (manager E) a b)"
    if "eval_in_model E a = eval_in_model E (?d ! 0)"
      and "eval_in_model E b = eval_in_model E (?d ! 1)" for a b
    using manager_binary [OF mg rk e ar len that] by (simp add: rebuild_def k)
  show ?thesis
    unfolding visit_switch_def Let_def k term_kind.case lit_collector_visit_bvdiv_def
    by (rule sem_binary_term [where I = I and v = v, OF b g v' len rb])
qed

lemma sem_switch_BV_REM:
  assumes k: "term_kind (terms E) t = BV_REM"
    and ms: "model_sound E" and mg: "manager_sound E" and nok: "node_ok E t"
    and e: "0 \<le> eval_in_model E t"
    and v: "\<And>x. x \<in> set (children E t) \<Longrightarrow> 0 \<le> eval_in_model E x \<Longrightarrow>
              lc_tot I (v x) (sem_post E x)"
    and bev: "\<And>x. x \<in> set (children E t) \<Longrightarrow> is_boolean_term (terms E) x \<Longrightarrow>
              0 \<le> eval_in_model E x"
    and fr: "frame_ok I"
  shows "lc_tot I (visit_switch v E t) (sem_post E t)"
proof -
  let ?d = "composite_term_desc (terms E) t"
  from nok k have g: "ndebug E \<or> good_term (terms E) t" and st: "strict_ok E t"
    and len: "length ?d = 2" and b: "\<not> is_boolean_term (terms E) t"
    by (simp_all add: node_ok_def Let_def)
  have ch: "children E t = ?d" by (simp add: children_def k)
  have rk: "rebuilt_kind (term_kind (terms E) t)" by (simp add: k rebuilt_kind_def)
  have ar: "rebuild_args E t = ?d" by (simp add: rebuild_args_def k)
  have v': "lc_tot I (v x) (sem_post E x)" if "x \<in> set ?d" for x
    by (rule strict_children [where I = I and v = v, OF st e v]) (simp_all add: ch that)
  have rb: "rebuild_ok E t (mk_bvrem (manager E) a b)"
    if "eval_in_model E a = eval_in_model E (?d ! 0)"
      and "eval_in_model E b = eval_in_model E (?d ! 1)" for a b
    using manager_binary [OF mg rk e ar len that] by (simp add: rebuild_def k)
  show ?thesis
    unfolding visit_switch_def Let_def k term_kind.case lit_collector_visit_bvrem_def
    by (rule sem_binary_term [where I = I and v = v, OF b g v' len rb])
qed

lemma sem_switch_BV_SDIV:
  assumes k: "term_kind (terms E) t = BV_SDIV"
    and ms: "model_sound E" and mg: "manager_sound E" and nok: "node_ok E t"
    and e: "0 \<le> eval_in_model E t"
    and v: "\<And>x. x \<in> set (children E t) \<Longrightarrow> 0 \<le> eval_in_model E x \<Longrightarrow>
              lc_tot I (v x) (sem_post E x)"
    and bev: "\<And>x. x \<in> set (children E t) \<Longrightarrow> is_boolean_term (terms E) x \<Longrightarrow>
              0 \<le> eval_in_model E x"
    and fr: "frame_ok I"
  shows "lc_tot I (visit_switch v E t) (sem_post E t)"
proof -
  let ?d = "composite_term_desc (terms E) t"
  from nok k have g: "ndebug E \<or> good_term (terms E) t" and st: "strict_ok E t"
    and len: "length ?d = 2" and b: "\<not> is_boolean_term (terms E) t"
    by (simp_all add: node_ok_def Let_def)
  have ch: "children E t = ?d" by (simp add: children_def k)
  have rk: "rebuilt_kind (term_kind (terms E) t)" by (simp add: k rebuilt_kind_def)
  have ar: "rebuild_args E t = ?d" by (simp add: rebuild_args_def k)
  have v': "lc_tot I (v x) (sem_post E x)" if "x \<in> set ?d" for x
    by (rule strict_children [where I = I and v = v, OF st e v]) (simp_all add: ch that)
  have rb: "rebuild_ok E t (mk_bvsdiv (manager E) a b)"
    if "eval_in_model E a = eval_in_model E (?d ! 0)"
      and "eval_in_model E b = eval_in_model E (?d ! 1)" for a b
    using manager_binary [OF mg rk e ar len that] by (simp add: rebuild_def k)
  show ?thesis
    unfolding visit_switch_def Let_def k term_kind.case lit_collector_visit_bvsdiv_def
    by (rule sem_binary_term [where I = I and v = v, OF b g v' len rb])
qed

lemma sem_switch_BV_SREM:
  assumes k: "term_kind (terms E) t = BV_SREM"
    and ms: "model_sound E" and mg: "manager_sound E" and nok: "node_ok E t"
    and e: "0 \<le> eval_in_model E t"
    and v: "\<And>x. x \<in> set (children E t) \<Longrightarrow> 0 \<le> eval_in_model E x \<Longrightarrow>
              lc_tot I (v x) (sem_post E x)"
    and bev: "\<And>x. x \<in> set (children E t) \<Longrightarrow> is_boolean_term (terms E) x \<Longrightarrow>
              0 \<le> eval_in_model E x"
    and fr: "frame_ok I"
  shows "lc_tot I (visit_switch v E t) (sem_post E t)"
proof -
  let ?d = "composite_term_desc (terms E) t"
  from nok k have g: "ndebug E \<or> good_term (terms E) t" and st: "strict_ok E t"
    and len: "length ?d = 2" and b: "\<not> is_boolean_term (terms E) t"
    by (simp_all add: node_ok_def Let_def)
  have ch: "children E t = ?d" by (simp add: children_def k)
  have rk: "rebuilt_kind (term_kind (terms E) t)" by (simp add: k rebuilt_kind_def)
  have ar: "rebuild_args E t = ?d" by (simp add: rebuild_args_def k)
  have v': "lc_tot I (v x) (sem_post E x)" if "x \<in> set ?d" for x
    by (rule strict_children [where I = I and v = v, OF st e v]) (simp_all add: ch that)
  have rb: "rebuild_ok E t (mk_bvsrem (manager E) a b)"
    if "eval_in_model E a = eval_in_model E (?d ! 0)"
      and "eval_in_model E b = eval_in_model E (?d ! 1)" for a b
    using manager_binary [OF mg rk e ar len that] by (simp add: rebuild_def k)
  show ?thesis
    unfolding visit_switch_def Let_def k term_kind.case lit_collector_visit_bvsrem_def
    by (rule sem_binary_term [where I = I and v = v, OF b g v' len rb])
qed

lemma sem_switch_BV_SMOD:
  assumes k: "term_kind (terms E) t = BV_SMOD"
    and ms: "model_sound E" and mg: "manager_sound E" and nok: "node_ok E t"
    and e: "0 \<le> eval_in_model E t"
    and v: "\<And>x. x \<in> set (children E t) \<Longrightarrow> 0 \<le> eval_in_model E x \<Longrightarrow>
              lc_tot I (v x) (sem_post E x)"
    and bev: "\<And>x. x \<in> set (children E t) \<Longrightarrow> is_boolean_term (terms E) x \<Longrightarrow>
              0 \<le> eval_in_model E x"
    and fr: "frame_ok I"
  shows "lc_tot I (visit_switch v E t) (sem_post E t)"
proof -
  let ?d = "composite_term_desc (terms E) t"
  from nok k have g: "ndebug E \<or> good_term (terms E) t" and st: "strict_ok E t"
    and len: "length ?d = 2" and b: "\<not> is_boolean_term (terms E) t"
    by (simp_all add: node_ok_def Let_def)
  have ch: "children E t = ?d" by (simp add: children_def k)
  have rk: "rebuilt_kind (term_kind (terms E) t)" by (simp add: k rebuilt_kind_def)
  have ar: "rebuild_args E t = ?d" by (simp add: rebuild_args_def k)
  have v': "lc_tot I (v x) (sem_post E x)" if "x \<in> set ?d" for x
    by (rule strict_children [where I = I and v = v, OF st e v]) (simp_all add: ch that)
  have rb: "rebuild_ok E t (mk_bvsmod (manager E) a b)"
    if "eval_in_model E a = eval_in_model E (?d ! 0)"
      and "eval_in_model E b = eval_in_model E (?d ! 1)" for a b
    using manager_binary [OF mg rk e ar len that] by (simp add: rebuild_def k)
  show ?thesis
    unfolding visit_switch_def Let_def k term_kind.case lit_collector_visit_bvsmod_def
    by (rule sem_binary_term [where I = I and v = v, OF b g v' len rb])
qed

lemma sem_switch_BV_SHL:
  assumes k: "term_kind (terms E) t = BV_SHL"
    and ms: "model_sound E" and mg: "manager_sound E" and nok: "node_ok E t"
    and e: "0 \<le> eval_in_model E t"
    and v: "\<And>x. x \<in> set (children E t) \<Longrightarrow> 0 \<le> eval_in_model E x \<Longrightarrow>
              lc_tot I (v x) (sem_post E x)"
    and bev: "\<And>x. x \<in> set (children E t) \<Longrightarrow> is_boolean_term (terms E) x \<Longrightarrow>
              0 \<le> eval_in_model E x"
    and fr: "frame_ok I"
  shows "lc_tot I (visit_switch v E t) (sem_post E t)"
proof -
  let ?d = "composite_term_desc (terms E) t"
  from nok k have g: "ndebug E \<or> good_term (terms E) t" and st: "strict_ok E t"
    and len: "length ?d = 2" and b: "\<not> is_boolean_term (terms E) t"
    by (simp_all add: node_ok_def Let_def)
  have ch: "children E t = ?d" by (simp add: children_def k)
  have rk: "rebuilt_kind (term_kind (terms E) t)" by (simp add: k rebuilt_kind_def)
  have ar: "rebuild_args E t = ?d" by (simp add: rebuild_args_def k)
  have v': "lc_tot I (v x) (sem_post E x)" if "x \<in> set ?d" for x
    by (rule strict_children [where I = I and v = v, OF st e v]) (simp_all add: ch that)
  have rb: "rebuild_ok E t (mk_bvshl (manager E) a b)"
    if "eval_in_model E a = eval_in_model E (?d ! 0)"
      and "eval_in_model E b = eval_in_model E (?d ! 1)" for a b
    using manager_binary [OF mg rk e ar len that] by (simp add: rebuild_def k)
  show ?thesis
    unfolding visit_switch_def Let_def k term_kind.case lit_collector_visit_bvshl_def
    by (rule sem_binary_term [where I = I and v = v, OF b g v' len rb])
qed

lemma sem_switch_BV_LSHR:
  assumes k: "term_kind (terms E) t = BV_LSHR"
    and ms: "model_sound E" and mg: "manager_sound E" and nok: "node_ok E t"
    and e: "0 \<le> eval_in_model E t"
    and v: "\<And>x. x \<in> set (children E t) \<Longrightarrow> 0 \<le> eval_in_model E x \<Longrightarrow>
              lc_tot I (v x) (sem_post E x)"
    and bev: "\<And>x. x \<in> set (children E t) \<Longrightarrow> is_boolean_term (terms E) x \<Longrightarrow>
              0 \<le> eval_in_model E x"
    and fr: "frame_ok I"
  shows "lc_tot I (visit_switch v E t) (sem_post E t)"
proof -
  let ?d = "composite_term_desc (terms E) t"
  from nok k have g: "ndebug E \<or> good_term (terms E) t" and st: "strict_ok E t"
    and len: "length ?d = 2" and b: "\<not> is_boolean_term (terms E) t"
    by (simp_all add: node_ok_def Let_def)
  have ch: "children E t = ?d" by (simp add: children_def k)
  have rk: "rebuilt_kind (term_kind (terms E) t)" by (simp add: k rebuilt_kind_def)
  have ar: "rebuild_args E t = ?d" by (simp add: rebuild_args_def k)
  have v': "lc_tot I (v x) (sem_post E x)" if "x \<in> set ?d" for x
    by (rule strict_children [where I = I and v = v, OF st e v]) (simp_all add: ch that)
  have rb: "rebuild_ok E t (mk_bvlshr (manager E) a b)"
    if "eval_in_model E a = eval_in_model E (?d ! 0)"
      and "eval_in_model E b = eval_in_model E (?d ! 1)" for a b
    using manager_binary [OF mg rk e ar len that] by (simp add: rebuild_def k)
  show ?thesis
    unfolding visit_switch_def Let_def k term_kind.case lit_collector_visit_bvlshr_def
    by (rule sem_binary_term [where I = I and v = v, OF b g v' len rb])
qed

lemma sem_switch_BV_ASHR:
  assumes k: "term_kind (terms E) t = BV_ASHR"
    and ms: "model_sound E" and mg: "manager_sound E" and nok: "node_ok E t"
    and e: "0 \<le> eval_in_model E t"
    and v: "\<And>x. x \<in> set (children E t) \<Longrightarrow> 0 \<le> eval_in_model E x \<Longrightarrow>
              lc_tot I (v x) (sem_post E x)"
    and bev: "\<And>x. x \<in> set (children E t) \<Longrightarrow> is_boolean_term (terms E) x \<Longrightarrow>
              0 \<le> eval_in_model E x"
    and fr: "frame_ok I"
  shows "lc_tot I (visit_switch v E t) (sem_post E t)"
proof -
  let ?d = "composite_term_desc (terms E) t"
  from nok k have g: "ndebug E \<or> good_term (terms E) t" and st: "strict_ok E t"
    and len: "length ?d = 2" and b: "\<not> is_boolean_term (terms E) t"
    by (simp_all add: node_ok_def Let_def)
  have ch: "children E t = ?d" by (simp add: children_def k)
  have rk: "rebuilt_kind (term_kind (terms E) t)" by (simp add: k rebuilt_kind_def)
  have ar: "rebuild_args E t = ?d" by (simp add: rebuild_args_def k)
  have v': "lc_tot I (v x) (sem_post E x)" if "x \<in> set ?d" for x
    by (rule strict_children [where I = I and v = v, OF st e v]) (simp_all add: ch that)
  have rb: "rebuild_ok E t (mk_bvashr (manager E) a b)"
    if "eval_in_model E a = eval_in_model E (?d ! 0)"
      and "eval_in_model E b = eval_in_model E (?d ! 1)" for a b
    using manager_binary [OF mg rk e ar len that] by (simp add: rebuild_def k)
  show ?thesis
    unfolding visit_switch_def Let_def k term_kind.case lit_collector_visit_bvashr_def
    by (rule sem_binary_term [where I = I and v = v, OF b g v' len rb])
qed

lemma sem_switch_APP_TERM:
  assumes k: "term_kind (terms E) t = APP_TERM"
    and ms: "model_sound E" and mg: "manager_sound E" and nok: "node_ok E t"
    and e: "0 \<le> eval_in_model E t"
    and v: "\<And>x. x \<in> set (children E t) \<Longrightarrow> 0 \<le> eval_in_model E x \<Longrightarrow>
              lc_tot I (v x) (sem_post E x)"
    and bev: "\<And>x. x \<in> set (children E t) \<Longrightarrow> is_boolean_term (terms E) x \<Longrightarrow>
              0 \<le> eval_in_model E x"
    and fr: "frame_ok I"
  shows "lc_tot I (visit_switch v E t) (sem_post E t)"
proof -
  let ?d = "composite_term_desc (terms E) t"
  from nok k have g: "ndebug E \<or> good_term (terms E) t" and st: "strict_ok E t"
    and n: "ndebug E \<or> 2 \<le> length ?d"
    by (simp_all add: node_ok_def Let_def)
  have ch: "children E t = ?d" by (simp add: children_def k)
  have rk: "rebuilt_kind (term_kind (terms E) t)" by (simp add: k rebuilt_kind_def)
  have ar: "rebuild_args E t = ?d" by (simp add: rebuild_args_def k)
  have v': "lc_tot I (v x) (sem_post E x)" if "x \<in> set ?d" for x
    by (rule strict_children [where I = I and v = v, OF st e v]) (simp_all add: ch that)
  have rb: "rebuild_ok E t (mk_application (manager E) (hd a) (u32_sub (length ?d) 1) (tl a))"
    if a: "list_all2 (\<lambda>r x. eval_in_model E r = eval_in_model E x) a ?d" for a
    using manager_nary [OF mg rk e ar a] list_all2_lengthD [OF a]
    by (simp add: rebuild_def k Let_def)
  show ?thesis
    unfolding visit_switch_def Let_def k term_kind.case
    by (rule sem_visit_app [where I = I and v = v, OF ms e g v' n rb fr])
qed

lemma sem_switch_UPDATE_TERM:
  assumes k: "term_kind (terms E) t = UPDATE_TERM"
    and ms: "model_sound E" and mg: "manager_sound E" and nok: "node_ok E t"
    and e: "0 \<le> eval_in_model E t"
    and v: "\<And>x. x \<in> set (children E t) \<Longrightarrow> 0 \<le> eval_in_model E x \<Longrightarrow>
              lc_tot I (v x) (sem_post E x)"
    and bev: "\<And>x. x \<in> set (children E t) \<Longrightarrow> is_boolean_term (terms E) x \<Longrightarrow>
              0 \<le> eval_in_model E x"
    and fr: "frame_ok I"
  shows "lc_tot I (visit_switch v E t) (sem_post E t)"
proof -
  let ?d = "composite_term_desc (terms E) t"
  from nok k have g: "ndebug E \<or> good_term (terms E) t" and st: "strict_ok E t"
    and n: "ndebug E \<or> 3 \<le> length ?d"
    and b: "\<not> is_boolean_term (terms E) t"
    by (simp_all add: node_ok_def Let_def)
  have ch: "children E t = ?d" by (simp add: children_def k)
  have rk: "rebuilt_kind (term_kind (terms E) t)" by (simp add: k rebuilt_kind_def)
  have ar: "rebuild_args E t = ?d" by (simp add: rebuild_args_def k)
  have v': "lc_tot I (v x) (sem_post E x)" if "x \<in> set ?d" for x
    by (rule strict_children [where I = I and v = v, OF st e v]) (simp_all add: ch that)
  have rb: "rebuild_ok E t (mk_update (manager E) (hd a) (u32_sub (length ?d) 2) (tl a) (last a))"
    if a: "list_all2 (\<lambda>r x. eval_in_model E r = eval_in_model E x) a ?d" for a
    using manager_nary [OF mg rk e ar a] list_all2_lengthD [OF a]
    by (simp add: rebuild_def k Let_def)
  show ?thesis
    unfolding visit_switch_def Let_def k term_kind.case
    by (rule sem_visit_update [where I = I and v = v, OF b g v' n rb fr])
qed

lemma sem_switch_TUPLE_TERM:
  assumes k: "term_kind (terms E) t = TUPLE_TERM"
    and ms: "model_sound E" and mg: "manager_sound E" and nok: "node_ok E t"
    and e: "0 \<le> eval_in_model E t"
    and v: "\<And>x. x \<in> set (children E t) \<Longrightarrow> 0 \<le> eval_in_model E x \<Longrightarrow>
              lc_tot I (v x) (sem_post E x)"
    and bev: "\<And>x. x \<in> set (children E t) \<Longrightarrow> is_boolean_term (terms E) x \<Longrightarrow>
              0 \<le> eval_in_model E x"
    and fr: "frame_ok I"
  shows "lc_tot I (visit_switch v E t) (sem_post E t)"
proof -
  let ?d = "composite_term_desc (terms E) t"
  from nok k have g: "ndebug E \<or> good_term (terms E) t" and st: "strict_ok E t"
    and n: "ndebug E \<or> 3 \<le> length ?d"
    and b: "\<not> is_boolean_term (terms E) t"
    by (simp_all add: node_ok_def Let_def)
  have ch: "children E t = ?d" by (simp add: children_def k)
  have rk: "rebuilt_kind (term_kind (terms E) t)" by (simp add: k rebuilt_kind_def)
  have ar: "rebuild_args E t = ?d" by (simp add: rebuild_args_def k)
  have v': "lc_tot I (v x) (sem_post E x)" if "x \<in> set ?d" for x
    by (rule strict_children [where I = I and v = v, OF st e v]) (simp_all add: ch that)
  have rb: "rebuild_ok E t (mk_tuple (manager E) (length ?d) a)"
    if a: "list_all2 (\<lambda>r x. eval_in_model E r = eval_in_model E x) a ?d" for a
    using manager_nary [OF mg rk e ar a] list_all2_lengthD [OF a]
    by (simp add: rebuild_def k Let_def)
  show ?thesis
    unfolding visit_switch_def Let_def k term_kind.case
    by (rule sem_visit_tuple [where I = I and v = v, OF b g v' n rb fr])
qed

lemma sem_switch_DISTINCT_TERM:
  assumes k: "term_kind (terms E) t = DISTINCT_TERM"
    and ms: "model_sound E" and mg: "manager_sound E" and nok: "node_ok E t"
    and e: "0 \<le> eval_in_model E t"
    and v: "\<And>x. x \<in> set (children E t) \<Longrightarrow> 0 \<le> eval_in_model E x \<Longrightarrow>
              lc_tot I (v x) (sem_post E x)"
    and bev: "\<And>x. x \<in> set (children E t) \<Longrightarrow> is_boolean_term (terms E) x \<Longrightarrow>
              0 \<le> eval_in_model E x"
    and fr: "frame_ok I"
  shows "lc_tot I (visit_switch v E t) (sem_post E t)"
proof -
  let ?d = "composite_term_desc (terms E) t"
  from nok k have g: "ndebug E \<or> good_term (terms E) t" and st: "strict_ok E t"
    and n: "ndebug E \<or> 3 \<le> length ?d"
    and b: "is_boolean_term (terms E) t"
    by (simp_all add: node_ok_def Let_def)
  have ch: "children E t = ?d" by (simp add: children_def k)
  have rk: "rebuilt_kind (term_kind (terms E) t)" by (simp add: k rebuilt_kind_def)
  have ar: "rebuild_args E t = ?d" by (simp add: rebuild_args_def k)
  have v': "lc_tot I (v x) (sem_post E x)" if "x \<in> set ?d" for x
    by (rule strict_children [where I = I and v = v, OF st e v]) (simp_all add: ch that)
  have rb: "rebuild_ok E t (mk_distinct (manager E) (length ?d) a)"
    if a: "list_all2 (\<lambda>r x. eval_in_model E r = eval_in_model E x) a ?d" for a
    using manager_nary [OF mg rk e ar a] list_all2_lengthD [OF a]
    by (simp add: rebuild_def k Let_def)
  show ?thesis
    unfolding visit_switch_def Let_def k term_kind.case
    by (rule sem_visit_distinct [where I = I and v = v, OF ms b e v' n rb fr])
qed

lemma sem_switch_BV_ARRAY:
  assumes k: "term_kind (terms E) t = BV_ARRAY"
    and ms: "model_sound E" and mg: "manager_sound E" and nok: "node_ok E t"
    and e: "0 \<le> eval_in_model E t"
    and v: "\<And>x. x \<in> set (children E t) \<Longrightarrow> 0 \<le> eval_in_model E x \<Longrightarrow>
              lc_tot I (v x) (sem_post E x)"
    and bev: "\<And>x. x \<in> set (children E t) \<Longrightarrow> is_boolean_term (terms E) x \<Longrightarrow>
              0 \<le> eval_in_model E x"
    and fr: "frame_ok I"
  shows "lc_tot I (visit_switch v E t) (sem_post E t)"
proof -
  let ?d = "composite_term_desc (terms E) t"
  from nok k have g: "ndebug E \<or> good_term (terms E) t" and st: "strict_ok E t"
    and n: "ndebug E \<or> 1 \<le> length ?d"
    and b: "\<not> is_boolean_term (terms E) t"
    by (simp_all add: node_ok_def Let_def)
  have ch: "children E t = ?d" by (simp add: children_def k)
  have rk: "rebuilt_kind (term_kind (terms E) t)" by (simp add: k rebuilt_kind_def)
  have ar: "rebuild_args E t = ?d" by (simp add: rebuild_args_def k)
  have v': "lc_tot I (v x) (sem_post E x)" if "x \<in> set ?d" for x
    by (rule strict_children [where I = I and v = v, OF st e v]) (simp_all add: ch that)
  have rb: "rebuild_ok E t (mk_bvarray (manager E) (length ?d) a)"
    if a: "list_all2 (\<lambda>r x. eval_in_model E r = eval_in_model E x) a ?d" for a
    using manager_nary [OF mg rk e ar a] list_all2_lengthD [OF a]
    by (simp add: rebuild_def k Let_def)
  show ?thesis
    unfolding visit_switch_def Let_def k term_kind.case
    by (rule sem_visit_bvarray [where I = I and v = v, OF b g v' n rb fr])
qed

lemma sem_switch_POWER_PRODUCT:
  assumes k: "term_kind (terms E) t = POWER_PRODUCT"
    and ms: "model_sound E" and mg: "manager_sound E" and nok: "node_ok E t"
    and e: "0 \<le> eval_in_model E t"
    and v: "\<And>x. x \<in> set (children E t) \<Longrightarrow> 0 \<le> eval_in_model E x \<Longrightarrow>
              lc_tot I (v x) (sem_post E x)"
    and bev: "\<And>x. x \<in> set (children E t) \<Longrightarrow> is_boolean_term (terms E) x \<Longrightarrow>
              0 \<le> eval_in_model E x"
    and fr: "frame_ok I"
  shows "lc_tot I (visit_switch v E t) (sem_post E t)"
proof -
  let ?p = "pprod_term_desc (terms E) t"
  from nok k have g: "ndebug E \<or> good_term (terms E) t" and st: "strict_ok E t"
    and b: "\<not> is_boolean_term (terms E) t"
    by (simp_all add: node_ok_def Let_def)
  have ch: "children E t = map fst ?p" by (simp add: children_def k)
  have rk: "rebuilt_kind (term_kind (terms E) t)" by (simp add: k rebuilt_kind_def)
  have ar: "rebuild_args E t = map fst ?p" by (simp add: rebuild_args_def k)
  have v': "lc_tot I (v x) (sem_post E x)" if "x \<in> set (map fst ?p)" for x
    using that by (intro strict_children [where I = I and v = v, OF st e v]) (simp_all add: ch)
  have rb: "rebuild_ok E t (mk_pprod (manager E) ?p (length ?p) a)"
    if a: "list_all2 (\<lambda>r x. eval_in_model E r = eval_in_model E x) a (map fst ?p)" for a
    using manager_nary [OF mg rk e ar a] list_all2_lengthD [OF a]
    by (simp add: rebuild_def k Let_def)
  show ?thesis
    unfolding visit_switch_def Let_def k term_kind.case
    by (rule sem_visit_pprod [where I = I and v = v, OF b g v' rb fr])
qed

lemma sem_switch_ARITH_POLY:
  assumes k: "term_kind (terms E) t = ARITH_POLY"
    and ms: "model_sound E" and mg: "manager_sound E" and nok: "node_ok E t"
    and e: "0 \<le> eval_in_model E t"
    and v: "\<And>x. x \<in> set (children E t) \<Longrightarrow> 0 \<le> eval_in_model E x \<Longrightarrow>
              lc_tot I (v x) (sem_post E x)"
    and bev: "\<And>x. x \<in> set (children E t) \<Longrightarrow> is_boolean_term (terms E) x \<Longrightarrow>
              0 \<le> eval_in_model E x"
    and fr: "frame_ok I"
  shows "lc_tot I (visit_switch v E t) (sem_post E t)"
proof -
  let ?p = "poly_term_desc (terms E) t"
  from nok k have g: "ndebug E \<or> good_term (terms E) t" and st: "strict_ok E t"
    and b: "\<not> is_boolean_term (terms E) t"
    by (simp_all add: node_ok_def Let_def)
  have ch: "children E t = poly_children (map snd ?p)" by (simp add: children_def k)
  have rk: "rebuilt_kind (term_kind (terms E) t)" by (simp add: k rebuilt_kind_def)
  have ar: "rebuild_args E t = map snd ?p" by (simp add: rebuild_args_def k)
  have v': "lc_tot I (v x) (sem_post E x)" if "x \<in> set (poly_children (map snd ?p))" for x
    by (rule strict_children [where I = I and v = v, OF st e v]) (simp_all add: ch that)
  have rb: "rebuild_ok E t (mk_arith_poly (manager E) ?p (length ?p) a)"
    if a: "list_all2 (\<lambda>r x. eval_in_model E r = eval_in_model E x) a (map snd ?p)" for a
    using manager_nary [OF mg rk e ar a] list_all2_lengthD [OF a]
    by (simp add: rebuild_def k Let_def)
  show ?thesis
    unfolding visit_switch_def Let_def k term_kind.case
    by (rule sem_visit_poly [where I = I and v = v, OF b g v' rb fr])
qed

lemma sem_switch_BV64_POLY:
  assumes k: "term_kind (terms E) t = BV64_POLY"
    and ms: "model_sound E" and mg: "manager_sound E" and nok: "node_ok E t"
    and e: "0 \<le> eval_in_model E t"
    and v: "\<And>x. x \<in> set (children E t) \<Longrightarrow> 0 \<le> eval_in_model E x \<Longrightarrow>
              lc_tot I (v x) (sem_post E x)"
    and bev: "\<And>x. x \<in> set (children E t) \<Longrightarrow> is_boolean_term (terms E) x \<Longrightarrow>
              0 \<le> eval_in_model E x"
    and fr: "frame_ok I"
  shows "lc_tot I (visit_switch v E t) (sem_post E t)"
proof -
  let ?p = "bvpoly64_term_desc (terms E) t"
  from nok k have g: "ndebug E \<or> good_term (terms E) t" and st: "strict_ok E t"
    and b: "\<not> is_boolean_term (terms E) t"
    by (simp_all add: node_ok_def Let_def)
  have ch: "children E t = poly_children (map snd ?p)" by (simp add: children_def k)
  have rk: "rebuilt_kind (term_kind (terms E) t)" by (simp add: k rebuilt_kind_def)
  have ar: "rebuild_args E t = map snd ?p" by (simp add: rebuild_args_def k)
  have v': "lc_tot I (v x) (sem_post E x)" if "x \<in> set (poly_children (map snd ?p))" for x
    by (rule strict_children [where I = I and v = v, OF st e v]) (simp_all add: ch that)
  have rb: "rebuild_ok E t (mk_bvarith64_poly (manager E) ?p (length ?p) a)"
    if a: "list_all2 (\<lambda>r x. eval_in_model E r = eval_in_model E x) a (map snd ?p)" for a
    using manager_nary [OF mg rk e ar a] list_all2_lengthD [OF a]
    by (simp add: rebuild_def k Let_def)
  show ?thesis
    unfolding visit_switch_def Let_def k term_kind.case
    by (rule sem_visit_bvpoly64 [where I = I and v = v, OF b g v' rb fr])
qed

lemma sem_switch_BV_POLY:
  assumes k: "term_kind (terms E) t = BV_POLY"
    and ms: "model_sound E" and mg: "manager_sound E" and nok: "node_ok E t"
    and e: "0 \<le> eval_in_model E t"
    and v: "\<And>x. x \<in> set (children E t) \<Longrightarrow> 0 \<le> eval_in_model E x \<Longrightarrow>
              lc_tot I (v x) (sem_post E x)"
    and bev: "\<And>x. x \<in> set (children E t) \<Longrightarrow> is_boolean_term (terms E) x \<Longrightarrow>
              0 \<le> eval_in_model E x"
    and fr: "frame_ok I"
  shows "lc_tot I (visit_switch v E t) (sem_post E t)"
proof -
  let ?p = "bvpoly_term_desc (terms E) t"
  from nok k have g: "ndebug E \<or> good_term (terms E) t" and st: "strict_ok E t"
    and b: "\<not> is_boolean_term (terms E) t"
    by (simp_all add: node_ok_def Let_def)
  have ch: "children E t = poly_children (map snd ?p)" by (simp add: children_def k)
  have rk: "rebuilt_kind (term_kind (terms E) t)" by (simp add: k rebuilt_kind_def)
  have ar: "rebuild_args E t = map snd ?p" by (simp add: rebuild_args_def k)
  have v': "lc_tot I (v x) (sem_post E x)" if "x \<in> set (poly_children (map snd ?p))" for x
    by (rule strict_children [where I = I and v = v, OF st e v]) (simp_all add: ch that)
  have rb: "rebuild_ok E t (mk_bvarith_poly (manager E) ?p (length ?p) a)"
    if a: "list_all2 (\<lambda>r x. eval_in_model E r = eval_in_model E x) a (map snd ?p)" for a
    using manager_nary [OF mg rk e ar a] list_all2_lengthD [OF a]
    by (simp add: rebuild_def k Let_def)
  show ?thesis
    unfolding visit_switch_def Let_def k term_kind.case
    by (rule sem_visit_bvpoly [where I = I and v = v, OF b g v' rb fr])
qed

lemma sem_switch_ITE_TERM:
  assumes k: "term_kind (terms E) t = ITE_TERM"
    and ms: "model_sound E" and mg: "manager_sound E" and nok: "node_ok E t"
    and e: "0 \<le> eval_in_model E t"
    and v: "\<And>x. x \<in> set (children E t) \<Longrightarrow> 0 \<le> eval_in_model E x \<Longrightarrow>
              lc_tot I (v x) (sem_post E x)"
    and bev: "\<And>x. x \<in> set (children E t) \<Longrightarrow> is_boolean_term (terms E) x \<Longrightarrow>
              0 \<le> eval_in_model E x"
    and fr: "frame_ok I"
  shows "lc_tot I (visit_switch v E t) (sem_post E t)"
proof -
  let ?d = "composite_term_desc (terms E) t"
  from nok k have ok: "ite_ok E t" by (simp add: node_ok_def Let_def)
  have ch: "children E t = ?d" by (simp add: children_def k)
  show ?thesis
    unfolding visit_switch_def Let_def k term_kind.case
    by (rule sem_visit_ite [where I = I and v = v, OF ok e refl v bev]) (simp_all add: ch)
qed

lemma sem_switch_ITE_SPECIAL:
  assumes k: "term_kind (terms E) t = ITE_SPECIAL"
    and ms: "model_sound E" and mg: "manager_sound E" and nok: "node_ok E t"
    and e: "0 \<le> eval_in_model E t"
    and v: "\<And>x. x \<in> set (children E t) \<Longrightarrow> 0 \<le> eval_in_model E x \<Longrightarrow>
              lc_tot I (v x) (sem_post E x)"
    and bev: "\<And>x. x \<in> set (children E t) \<Longrightarrow> is_boolean_term (terms E) x \<Longrightarrow>
              0 \<le> eval_in_model E x"
    and fr: "frame_ok I"
  shows "lc_tot I (visit_switch v E t) (sem_post E t)"
proof -
  let ?d = "composite_term_desc (terms E) t"
  from nok k have ok: "ite_ok E t" by (simp add: node_ok_def Let_def)
  have ch: "children E t = ?d" by (simp add: children_def k)
  show ?thesis
    unfolding visit_switch_def Let_def k term_kind.case
    by (rule sem_visit_ite [where I = I and v = v, OF ok e refl v bev]) (simp_all add: ch)
qed

lemma sem_switch_OR_TERM:
  assumes k: "term_kind (terms E) t = OR_TERM"
    and ms: "model_sound E" and mg: "manager_sound E" and nok: "node_ok E t"
    and e: "0 \<le> eval_in_model E t"
    and v: "\<And>x. x \<in> set (children E t) \<Longrightarrow> 0 \<le> eval_in_model E x \<Longrightarrow>
              lc_tot I (v x) (sem_post E x)"
    and bev: "\<And>x. x \<in> set (children E t) \<Longrightarrow> is_boolean_term (terms E) x \<Longrightarrow>
              0 \<le> eval_in_model E x"
    and fr: "frame_ok I"
  shows "lc_tot I (visit_switch v E t) (sem_post E t)"
proof -
  let ?d = "composite_term_desc (terms E) t"
  from nok k have b: "is_boolean_term (terms E) t" and n: "ndebug E \<or> 0 < length ?d"
    and ab: "list_all (is_boolean_term (terms E)) ?d"
    and sem: "holds E t = list_ex (holds E) ?d"
    by (simp_all add: node_ok_def Let_def)
  have ch: "children E t = ?d" by (simp add: children_def k)
  have bev': "0 \<le> eval_in_model E x" if "x \<in> set ?d" for x
    using that ab bev [of x] by (simp add: ch list_all_iff)
  have v': "lc_tot I (v x) (sem_post E x)" if "x \<in> set ?d" for x
    using that bev' [OF that] v [of x] by (simp add: ch)
  show ?thesis
    unfolding visit_switch_def Let_def k term_kind.case
    by (rule sem_visit_or [where I = I and v = v, OF ms b e n ab sem v' bev'])
qed

lemma sem_switch_XOR_TERM:
  assumes k: "term_kind (terms E) t = XOR_TERM"
    and ms: "model_sound E" and mg: "manager_sound E" and nok: "node_ok E t"
    and e: "0 \<le> eval_in_model E t"
    and v: "\<And>x. x \<in> set (children E t) \<Longrightarrow> 0 \<le> eval_in_model E x \<Longrightarrow>
              lc_tot I (v x) (sem_post E x)"
    and bev: "\<And>x. x \<in> set (children E t) \<Longrightarrow> is_boolean_term (terms E) x \<Longrightarrow>
              0 \<le> eval_in_model E x"
    and fr: "frame_ok I"
  shows "lc_tot I (visit_switch v E t) (sem_post E t)"
proof -
  let ?d = "composite_term_desc (terms E) t"
  from nok k have b: "is_boolean_term (terms E) t"
    and ab: "list_all (is_boolean_term (terms E)) ?d"
    and sem: "holds E t = foldl (\<lambda>acc x. acc \<noteq> holds E x) False ?d"
    by (simp_all add: node_ok_def Let_def)
  have ch: "children E t = ?d" by (simp add: children_def k)
  have bev': "0 \<le> eval_in_model E x" if "x \<in> set ?d" for x
    using that ab bev [of x] by (simp add: ch list_all_iff)
  have v': "lc_tot I (v x) (sem_post E x)" if "x \<in> set ?d" for x
    using that bev' [OF that] v [of x] by (simp add: ch)
  show ?thesis
    unfolding visit_switch_def Let_def k term_kind.case
    by (rule sem_visit_xor [where I = I and v = v, OF ms b e ab sem v'])
qed

lemma sem_visit_switch:
  assumes ms: "model_sound E" and mg: "manager_sound E" and nok: "node_ok E t"
    and e: "0 \<le> eval_in_model E t"
    and v: "\<And>x. x \<in> set (children E t) \<Longrightarrow> 0 \<le> eval_in_model E x \<Longrightarrow>
              lc_tot I (v x) (sem_post E x)"
    and bev: "\<And>x. x \<in> set (children E t) \<Longrightarrow> is_boolean_term (terms E) x \<Longrightarrow>
              0 \<le> eval_in_model E x"
    and fr: "frame_ok I"
  shows "lc_tot I (visit_switch v E t) (sem_post E t)"
proof (cases "term_kind (terms E) t")
  case UNUSED_TERM
  then show ?thesis by (rule sem_switch_UNUSED_TERM [where I = I and v = v, OF _ ms mg nok e v bev fr])
next
  case RESERVED_TERM
  then show ?thesis by (rule sem_switch_RESERVED_TERM [where I = I and v = v, OF _ ms mg nok e v bev fr])
next
  case CONSTANT_TERM
  then show ?thesis by (rule sem_switch_CONSTANT_TERM [where I = I and v = v, OF _ ms mg nok e v bev fr])
next
  case ARITH_CONSTANT
  then show ?thesis by (rule sem_switch_ARITH_CONSTANT [where I = I and v = v, OF _ ms mg nok e v bev fr])
next
  case BV64_CONSTANT
  then show ?thesis by (rule sem_switch_BV64_CONSTANT [where I = I and v = v, OF _ ms mg nok e v bev fr])
next
  case BV_CONSTANT
  then show ?thesis by (rule sem_switch_BV_CONSTANT [where I = I and v = v, OF _ ms mg nok e v bev fr])
next
  case VARIABLE
  then show ?thesis by (rule sem_switch_VARIABLE [where I = I and v = v, OF _ ms mg nok e v bev fr])
next
  case UNINTERPRETED_TERM
  then show ?thesis by (rule sem_switch_UNINTERPRETED_TERM [where I = I and v = v, OF _ ms mg nok e v bev fr])
next
  case ARITH_EQ_ATOM
  then show ?thesis by (rule sem_switch_ARITH_EQ_ATOM [where I = I and v = v, OF _ ms mg nok e v bev fr])
next
  case ARITH_GE_ATOM
  then show ?thesis by (rule sem_switch_ARITH_GE_ATOM [where I = I and v = v, OF _ ms mg nok e v bev fr])
next
  case ITE_TERM
  then show ?thesis by (rule sem_switch_ITE_TERM [where I = I and v = v, OF _ ms mg nok e v bev fr])
next
  case ITE_SPECIAL
  then show ?thesis by (rule sem_switch_ITE_SPECIAL [where I = I and v = v, OF _ ms mg nok e v bev fr])
next
  case APP_TERM
  then show ?thesis by (rule sem_switch_APP_TERM [where I = I and v = v, OF _ ms mg nok e v bev fr])
next
  case UPDATE_TERM
  then show ?thesis by (rule sem_switch_UPDATE_TERM [where I = I and v = v, OF _ ms mg nok e v bev fr])
next
  case TUPLE_TERM
  then show ?thesis by (rule sem_switch_TUPLE_TERM [where I = I and v = v, OF _ ms mg nok e v bev fr])
next
  case EQ_TERM
  then show ?thesis by (rule sem_switch_EQ_TERM [where I = I and v = v, OF _ ms mg nok e v bev fr])
next
  case DISTINCT_TERM
  then show ?thesis by (rule sem_switch_DISTINCT_TERM [where I = I and v = v, OF _ ms mg nok e v bev fr])
next
  case FORALL_TERM
  then show ?thesis by (rule sem_switch_FORALL_TERM [where I = I and v = v, OF _ ms mg nok e v bev fr])
next
  case LAMBDA_TERM
  then show ?thesis by (rule sem_switch_LAMBDA_TERM [where I = I and v = v, OF _ ms mg nok e v bev fr])
next
  case OR_TERM
  then show ?thesis by (rule sem_switch_OR_TERM [where I = I and v = v, OF _ ms mg nok e v bev fr])
next
  case XOR_TERM
  then show ?thesis by (rule sem_switch_XOR_TERM [where I = I and v = v, OF _ ms mg nok e v bev fr])
next
  case ARITH_BINEQ_ATOM
  then show ?thesis by (rule sem_switch_ARITH_BINEQ_ATOM [where I = I and v = v, OF _ ms mg nok e v bev fr])
next
  case BV_ARRAY
  then show ?thesis by (rule sem_switch_BV_ARRAY [where I = I and v = v, OF _ ms mg nok e v bev fr])
next
  case BV_DIV
  then show ?thesis by (rule sem_switch_BV_DIV [where I = I and v = v, OF _ ms mg nok e v bev fr])
next
  case BV_REM
  then show ?thesis by (rule sem_switch_BV_REM [where I = I and v = v, OF _ ms mg nok e v bev fr])
next
  case BV_SDIV
  then show ?thesis by (rule sem_switch_BV_SDIV [where I = I and v = v, OF _ ms mg nok e v bev fr])
next
  case BV_SREM
  then show ?thesis by (rule sem_switch_BV_SREM [where I = I and v = v, OF _ ms mg nok e v bev fr])
next
  case BV_SMOD
  then show ?thesis by (rule sem_switch_BV_SMOD [where I = I and v = v, OF _ ms mg nok e v bev fr])
next
  case BV_SHL
  then show ?thesis by (rule sem_switch_BV_SHL [where I = I and v = v, OF _ ms mg nok e v bev fr])
next
  case BV_LSHR
  then show ?thesis by (rule sem_switch_BV_LSHR [where I = I and v = v, OF _ ms mg nok e v bev fr])
next
  case BV_ASHR
  then show ?thesis by (rule sem_switch_BV_ASHR [where I = I and v = v, OF _ ms mg nok e v bev fr])
next
  case BV_EQ_ATOM
  then show ?thesis by (rule sem_switch_BV_EQ_ATOM [where I = I and v = v, OF _ ms mg nok e v bev fr])
next
  case BV_GE_ATOM
  then show ?thesis by (rule sem_switch_BV_GE_ATOM [where I = I and v = v, OF _ ms mg nok e v bev fr])
next
  case BV_SGE_ATOM
  then show ?thesis by (rule sem_switch_BV_SGE_ATOM [where I = I and v = v, OF _ ms mg nok e v bev fr])
next
  case SELECT_TERM
  then show ?thesis by (rule sem_switch_SELECT_TERM [where I = I and v = v, OF _ ms mg nok e v bev fr])
next
  case BIT_TERM
  then show ?thesis by (rule sem_switch_BIT_TERM [where I = I and v = v, OF _ ms mg nok e v bev fr])
next
  case POWER_PRODUCT
  then show ?thesis by (rule sem_switch_POWER_PRODUCT [where I = I and v = v, OF _ ms mg nok e v bev fr])
next
  case ARITH_POLY
  then show ?thesis by (rule sem_switch_ARITH_POLY [where I = I and v = v, OF _ ms mg nok e v bev fr])
next
  case BV64_POLY
  then show ?thesis by (rule sem_switch_BV64_POLY [where I = I and v = v, OF _ ms mg nok e v bev fr])
next
  case BV_POLY
  then show ?thesis by (rule sem_switch_BV_POLY [where I = I and v = v, OF _ ms mg nok e v bev fr])
qed


section \<open>The visitor\<close>

lemma ground_mono: "ground E k t \<Longrightarrow> ground E (Suc k) t"
proof (induction k arbitrary: t)
  case 0
  then show ?case by simp
next
  case (Suc k)
  from Suc.prems have p: "polarity_of t = 0 \<or> is_boolean_term (terms E) t"
    and n: "node_ok E (unsigned_term t)"
    and c: "list_all (ground E k) (children E (unsigned_term t))"
    by simp_all
  have c': "list_all (ground E (Suc k)) (children E (unsigned_term t))"
    unfolding list_all_iff
  proof
    fix x assume "x \<in> set (children E (unsigned_term t))"
    with c have "ground E k x" by (simp add: list_all_iff)
    then show "ground E (Suc k) x" by (rule Suc.IH)
  qed
  show ?case by (subst ground.simps(2)) (use p n c' in blast)
qed

lemma ground_unsigned: "ground E k t \<Longrightarrow> ground E k (unsigned_term t)"
  by (cases k) (simp_all add: polarity_of_unsigned unsigned_unsigned)

lemma reach_unsigned: "reach E t s \<Longrightarrow> unsigned_term s = s"
  by (induction rule: reach.induct) (simp_all add: unsigned_unsigned)

lemma ground_reach: "reach E x s \<Longrightarrow> ground E k x \<Longrightarrow> ground E k s"
proof (induction rule: reach.induct)
  case reach_self
  then show ?case by (rule ground_unsigned)
next
  case (reach_child s u)
  from reach_child.IH [OF reach_child.prems] have g: "ground E k s" .
  have us: "unsigned_term s = s" by (rule reach_unsigned [OF reach_child.hyps(1)])
  show ?case
  proof (cases k)
    case 0
    with g show ?thesis by simp
  next
    case (Suc j)
    with g us have "list_all (ground E j) (children E s)" by simp
    with reach_child.hyps(2) have "ground E j u" by (simp add: list_all_iff)
    then have "ground E (Suc j) (unsigned_term u)" by (intro ground_mono ground_unsigned)
    with Suc show ?thesis by simp
  qed
qed

lemma ground_acyclic:
  "ground E (Suc k) t \<Longrightarrow> x \<in> set (children E (unsigned_term t)) \<Longrightarrow>
   \<not> reach E x (unsigned_term t)"
proof (induction k arbitrary: t)
  case 0
  then have "ground E 0 x" by (simp add: list_all_iff)
  then show ?case by simp
next
  case (Suc k)
  from Suc.prems have gx: "ground E (Suc k) x" by (simp add: list_all_iff)
  show ?case
  proof
    assume r: "reach E x (unsigned_term t)"
    from ground_reach [OF r gx] have "ground E (Suc k) (unsigned_term t)" .
    from Suc.IH [OF this] Suc.prems(2) r show False by (simp add: unsigned_unsigned)
  qed
qed

lemma term_cases: "t = unsigned_term t \<or> t = opposite_term (unsigned_term t)"
  unfolding unsigned_term_arith opposite_term_arith by presburger

lemma polarity_unsigned: "polarity_of t = 0 \<Longrightarrow> unsigned_term t = t"
  unfolding unsigned_term_arith polarity_of_mod by presburger

lemma polarity_opposite: "polarity_of t \<noteq> 0 \<Longrightarrow> t = opposite_term (unsigned_term t)"
  unfolding unsigned_term_arith polarity_of_mod opposite_term_arith by presburger

lemma model_sound_bool_polarity:
  assumes "model_sound E"
  shows "is_boolean_term (terms E) (unsigned_term t) = is_boolean_term (terms E) t"
proof -
  from assms have a: "\<And>x. is_boolean_term (terms E) (opposite_term x) = is_boolean_term (terms E) x"
    by (simp add: model_sound_def)
  show ?thesis by (metis a term_cases)
qed

lemma ground_bool_eval:
  assumes ms: "model_sound E" and g: "ground E k x" and b: "is_boolean_term (terms E) x"
  shows "0 \<le> eval_in_model E x"
proof (cases k)
  case 0
  with g show ?thesis by simp
next
  case (Suc j)
  from b have b0: "is_boolean_term (terms E) (unsigned_term x)"
    by (simp add: model_sound_bool_polarity [OF ms])
  with g Suc have e0: "0 \<le> eval_in_model E (unsigned_term x)"
    by (simp add: node_ok_def Let_def)
  show ?thesis
  proof (cases "polarity_of x = 0")
    case True
    with e0 show ?thesis by (simp add: polarity_unsigned)
  next
    case False
    from model_sound_neg(1) [OF ms b0 e0] polarity_opposite [OF False]
    show ?thesis by simp
  qed
qed

lemma bool2term_xor: "bool2term b XOR 1 = bool2term (\<not> b)"
  by (simp add: bool2term_def true_term_def false_term_def)

lemma post_polarity:
  assumes ms: "model_sound E" and p: "sem_post E (unsigned_term t) u"
    and pol: "polarity_of t = 0 \<or> is_boolean_term (terms E) t"
    and e0: "is_boolean_term (terms E) (unsigned_term t) \<Longrightarrow> 0 \<le> eval_in_model E (unsigned_term t)"
  shows "sem_post E t (u XOR polarity_of t)"
proof (cases "polarity_of t = 0")
  case True
  with p show ?thesis by (simp add: polarity_unsigned)
next
  case False
  with pol have b: "is_boolean_term (terms E) t" by simp
  then have b0: "is_boolean_term (terms E) (unsigned_term t)"
    by (simp add: model_sound_bool_polarity [OF ms])
  note e = e0 [OF b0]
  from False polarity_cases [of t] have p1: "polarity_of t = 1" by simp
  have t: "t = opposite_term (unsigned_term t)" by (rule polarity_opposite [OF False])
  from p b0 have u: "u = bool2term (holds E (unsigned_term t))" by (rule sem_post_boolD)
  have h: "holds E t = (\<not> holds E (unsigned_term t))"
    using model_sound_neg(2) [OF ms b0 e] t by simp
  have et: "0 \<le> eval_in_model E t"
    using model_sound_neg(1) [OF ms b0 e] t by simp
  have "u XOR polarity_of t = bool2term (holds E t)"
    by (simp add: u p1 bool2term_xor h)
  then show ?thesis using sem_post_bool [OF ms b et] by simp
qed

lemma switch_keeps_own:
  assumes "\<And>x. x \<in> set (children E t0) \<Longrightarrow> \<not> reach E x t0"
  shows "lc_inv (\<lambda>c'. cache c' t0 = cache c t0) (visit_switch (lit_collector_visit k E) E t0)"
proof (rule inv_visit_switch [where R = "\<lambda>_. True"])
  show "lc_inv (\<lambda>c'. cache c' t0 = cache c t0) (lit_collector_visit k E u)"
    if "u \<in> set (children E t0)" for u
  proof (rule lc_invI)
    fix c' :: lit_collector_t assume c': "cache c' t0 = cache c t0"
    from visit_cache_frame [of E u k] assms [OF that]
    have "cache (snd (lit_collector_visit k E u c')) t0 = cache c' t0"
      by (simp add: cache_frame_def)
    with c' show "cache (snd (lit_collector_visit k E u c')) t0 = cache c t0" by simp
  qed
  show "lc_inv (\<lambda>c'. cache c' t0 = cache c t0) (register_atom E u)" for u
    by (intro lc_invI) (simp add: register_atom_eq Let_def)
qed (simp_all add: atoms_ok_def)

lemma sem_visit:
  assumes ms: "model_sound E" and mg: "manager_sound E"
  shows "ground E k t \<Longrightarrow> 0 \<le> eval_in_model E t \<Longrightarrow>
         lc_tot (cache_sem E) (lit_collector_visit k E t) (sem_post E t)"
proof (induction k arbitrary: t)
  case 0
  then show ?case by simp
next
  case (Suc k)
  let ?t0 = "unsigned_term t"
  from Suc.prems(1) have pol: "polarity_of t = 0 \<or> is_boolean_term (terms E) t"
    and nok: "node_ok E ?t0" and ch: "\<And>x. x \<in> set (children E ?t0) \<Longrightarrow> ground E k x"
    by (simp_all add: list_all_iff)
  from nok have g0: "ndebug E \<or> good_term (terms E) ?t0"
    and be: "is_boolean_term (terms E) ?t0 \<Longrightarrow> 0 \<le> eval_in_model E ?t0"
    by (simp_all add: node_ok_def Let_def)
  have e0: "0 \<le> eval_in_model E ?t0"
  proof (cases "polarity_of t = 0")
    case True
    with Suc.prems(2) show ?thesis by (simp add: polarity_unsigned)
  next
    case False
    with pol have "is_boolean_term (terms E) ?t0" by (simp add: model_sound_bool_polarity [OF ms])
    then show ?thesis by (rule be)
  qed
  have fr: "frame_ok (cache_sem E)" by (simp add: frame_ok_def cache_sem_def)
  have sw: "lc_tot (cache_sem E) (visit_switch (lit_collector_visit k E) E ?t0) (sem_post E ?t0)"
  proof (rule sem_visit_switch [where I = "cache_sem E" and v = "lit_collector_visit k E",
        OF ms mg nok e0 _ _ fr])
    show "lc_tot (cache_sem E) (lit_collector_visit k E x) (sem_post E x)"
      if "x \<in> set (children E ?t0)" and "0 \<le> eval_in_model E x" for x
      using that by (intro Suc.IH ch)
    show "0 \<le> eval_in_model E x"
      if "x \<in> set (children E ?t0)" and "is_boolean_term (terms E) x" for x
      using that by (intro ground_bool_eval [OF ms ch])
  qed
  show ?case
    unfolding lc_tot_def lc_spec_def
  proof (intro allI impI)
    fix c assume I: "cache_sem E c"
    have own: "lc_inv (\<lambda>c'. cache c' ?t0 = cache c ?t0)
        (visit_switch (lit_collector_visit k E) E ?t0)"
      by (rule switch_keeps_own) (rule ground_acyclic [OF Suc.prems(1)])
    obtain o2 c2 where s: "visit_switch (lit_collector_visit k E) E ?t0 c = (o2, c2)" by force
    from sw I s obtain u' where o2: "o2 = Return u'" and I2: "cache_sem E c2"
      and p': "sem_post E ?t0 u'"
      by (cases o2) (auto simp: lc_tot_def lc_spec_def)
    from lc_invD [OF own, of c] s have own2: "cache c2 ?t0 = cache c ?t0" by simp
    have I3: "cache_sem E (c2\<lparr>cache := (cache c2)(?t0 \<mapsto> u')\<rparr>)"
      using I2 p' by (simp add: cache_sem_def)
    have gu': "ndebug E \<or> good_term (terms E) u'" using p' by (simp add: sem_post_def)
    have gg: "ndebug E \<or> (good_term (terms E) ?t0 \<and> good_term (terms E) u')"
      using g0 gu' by blast
    show "case lit_collector_visit (Suc k) E t c of
            (Return x, c') \<Rightarrow> cache_sem E c' \<and> sem_post E t x
          | (Stop s, c') \<Rightarrow> cache_sem E c' \<and> False"
    proof (cases "cache c ?t0")
      case None
      with g0 gg s o2 own2 I3 post_polarity [OF ms p' pol be] show ?thesis
        by (simp add: visit_Suc_eq find_cached_term_eq cache_result_eq)
    next
      case (Some u)
      with I have pu: "sem_post E ?t0 u" by (simp add: cache_sem_def)
      then have gu: "ndebug E \<or> good_term (terms E) u" by (simp add: sem_post_def)
      show ?thesis
      proof (cases "u = NULL_TERM")
        case True
        with Some g0 gu gg s o2 own2 I3 post_polarity [OF ms p' pol be] show ?thesis
          by (simp add: visit_Suc_eq find_cached_term_eq cache_result_eq NULL_TERM_def)
      next
        case False
        with Some g0 gu I post_polarity [OF ms pu pol be] show ?thesis
          by (simp add: visit_Suc_eq find_cached_term_eq)
      qed
    qed
  qed
qed

lemma sem_visit_Return:
  assumes ms: "model_sound E" and mg: "manager_sound E"
    and g: "ground E k t" and e: "0 \<le> eval_in_model E t" and c: "cache_sem E c"
  shows "\<exists>r c'. lit_collector_visit k E t c = (Return r, c') \<and> sem_post E t r \<and> cache_sem E c'"
proof -
  obtain o1 c1 where v: "lit_collector_visit k E t c = (o1, c1)" by force
  with sem_visit [OF ms mg g e] c show ?thesis
    by (cases o1) (auto simp: lc_tot_def lc_spec_def)
qed


lemma cache_sem_init: "cache_sem E init_lit_collector"
  by (simp add: cache_sem_def init_lit_collector_def)


lemma ex_model_sound: "model_sound (ex_env nd)"
proof -
  let ?E = "ex_env nd"
  have neg: "0 \<le> eval_in_model ?E (opposite_term t) \<and>
      holds ?E (opposite_term t) = (\<not> holds ?E t) \<and>
      eval_in_model ?E t = eval_in_model ?E (bool2term (holds ?E t))"
    if a: "is_boolean_term (terms ?E) t \<and> 0 \<le> eval_in_model ?E t" for t
  proof -
    from a have b: "ex_val0 (unsigned_term t) = 0 \<or> ex_val0 (unsigned_term t) = 1"
      by (intro ex_bool_val0) (simp add: ex_env_def ex_terms_def ex_bool_def)
    have c: "ex_val 2 = 1" "ex_val 3 = 0" by (simp_all add: ex_val_def ex_val0_def term_defs)
    show ?thesis
    proof (cases "even t")
      case True
      then have "unsigned_term t = t" "opposite_term t = t + 1" "odd (t + 1)"
        unfolding opposite_term_arith unsigned_term_arith by presburger+
      with b True c show ?thesis
        by (auto simp: ex_val_even ex_val_odd holds_def ex_env_def bool2term_def true_term_def
            false_term_def)
    next
      case False
      then have "unsigned_term t = t - 1" "opposite_term t = t - 1" "even (t - 1)"
        unfolding opposite_term_arith unsigned_term_arith by presburger+
      with b False c show ?thesis
        by (auto simp: ex_val_even ex_val_odd holds_def ex_env_def bool2term_def true_term_def
            false_term_def)
    qed
  qed
  have pol: "is_boolean_term (terms ?E) (opposite_term t) = is_boolean_term (terms ?E) t" for t
    by (simp add: ex_env_def ex_terms_def ex_bool_def unsigned_opposite)
  have base: "0 \<le> eval_in_model ?E true_term" "holds ?E true_term"
    "is_boolean_term (terms ?E) true_term"
    "good_term (terms ?E) true_term \<and> good_term (terms ?E) false_term"
    by (simp_all add: holds_def ex_defs term_defs)
  show ?thesis
    unfolding model_sound_def using neg pol base by blast
qed

lemma ex_manager_sound: "manager_sound (ex_env nd)"
  unfolding manager_sound_def
proof (intro allI impI)
  fix t a
  let ?E = "ex_env nd"
  assume h: "rebuilt_kind (term_kind (terms ?E) t) \<and> 0 \<le> eval_in_model ?E t \<and>
    list_all2 (\<lambda>r x. eval_in_model ?E r = eval_in_model ?E x) a (rebuild_args ?E t)"
  then have "rebuilt_kind (ex_kind t)" by (simp add: ex_env_def ex_terms_def)
  then have "t \<in> {16, 18, 20, 40, 24, 26}"
    by (auto simp: rebuilt_kind_def ex_kind_def split: if_splits)
  then consider "t = 16" | "t = 18" | "t = 20" | "t = 40" | "t = 24" | "t = 26" by auto
  then show "rebuild_ok ?E t (rebuild ?E t a)"
  proof cases
    case 1
    with h show ?thesis
      by (auto simp: rebuild_ok_def rebuild_def rebuild_args_def ex_defs term_defs
          list_all2_Cons2)
  next
    case 2
    with h show ?thesis
      by (auto simp: rebuild_ok_def rebuild_def rebuild_args_def ex_defs term_defs
          list_all2_Cons2)
  next
    case 3
    with h show ?thesis
      by (auto simp: rebuild_ok_def rebuild_def rebuild_args_def ex_defs term_defs
          list_all2_Cons2)
  next
    case 4
    with h show ?thesis by (simp add: ex_defs term_defs)
  next
    case 5
    with h show ?thesis
      by (auto simp: rebuild_ok_def rebuild_def rebuild_args_def ex_defs term_defs
          list_all2_Cons2)
  next
    case 6
    with h show ?thesis
      by (auto simp: rebuild_ok_def rebuild_def rebuild_args_def ex_defs term_defs
          list_all2_Cons2)
  qed
qed

lemmas ground_defs = node_ok_def strict_ok_def ite_ok_def children_def poly_children_def holds_def





section \<open>Disjunctions\<close>

lemma term_is_true_eq:
  "ndebug E \<or> is_boolean_term (terms E) x \<Longrightarrow> 0 \<le> eval_in_model E x \<Longrightarrow>
   term_is_true_in_model E x c = (Return (holds E x), c)"
  by (simp add: term_is_true_in_model_def lc_bind_assert lc_return_def Let_def holds_def)

lemma find_true_disjunct_eq:
  assumes "\<And>x. x \<in> set xs \<Longrightarrow> ndebug E \<or> is_boolean_term (terms E) x"
    and "\<And>x. x \<in> set xs \<Longrightarrow> 0 \<le> eval_in_model E x"
  shows "find_true_disjunct E xs i c =
           (Return (i + length (takeWhile (\<lambda>x. \<not> holds E x) xs)), c)"
  using assms
proof (induction xs arbitrary: i)
  case Nil
  show ?case by (simp add: lc_return_def)
next
  case (Cons x xs)
  have t: "term_is_true_in_model E x c = (Return (holds E x), c)"
    by (rule term_is_true_eq) (simp_all add: Cons.prems)
  have r: "find_true_disjunct E xs (Suc i) c =
      (Return (Suc i + length (takeWhile (\<lambda>x. \<not> holds E x) xs)), c)"
    by (rule Cons.IH) (simp_all add: Cons.prems)
  show ?case by (simp add: lc_bind_def t r lc_return_def)
qed

lemma sem_visit_uncached:
  assumes ms: "model_sound E" and mg: "manager_sound E"
    and g: "ground E (Suc k) t" and e: "0 \<le> eval_in_model E t"
    and cs: "cache_sem E c" and unc: "cache c (unsigned_term t) = None"
  shows "\<exists>u c2. visit_switch (lit_collector_visit k E) E (unsigned_term t) c = (Return u, c2) \<and>
           sem_post E (unsigned_term t) u \<and> cache_sem E c2 \<and>
           lit_collector_visit (Suc k) E t c =
             (Return (u XOR polarity_of t), c2\<lparr>cache := (cache c2)(unsigned_term t \<mapsto> u)\<rparr>)"
proof -
  let ?t0 = "unsigned_term t"
  from g have pol: "polarity_of t = 0 \<or> is_boolean_term (terms E) t"
    and nok: "node_ok E ?t0" and ch: "\<And>x. x \<in> set (children E ?t0) \<Longrightarrow> ground E k x"
    by (simp_all add: list_all_iff)
  from nok have g0: "ndebug E \<or> good_term (terms E) ?t0"
    and be: "is_boolean_term (terms E) ?t0 \<Longrightarrow> 0 \<le> eval_in_model E ?t0"
    by (simp_all add: node_ok_def Let_def)
  have e0: "0 \<le> eval_in_model E ?t0"
  proof (cases "polarity_of t = 0")
    case True
    with e show ?thesis by (simp add: polarity_unsigned)
  next
    case False
    with pol have "is_boolean_term (terms E) ?t0" by (simp add: model_sound_bool_polarity [OF ms])
    then show ?thesis by (rule be)
  qed
  have fr: "frame_ok (cache_sem E)" by (simp add: frame_ok_def cache_sem_def)
  have sw: "lc_tot (cache_sem E) (visit_switch (lit_collector_visit k E) E ?t0) (sem_post E ?t0)"
  proof (rule sem_visit_switch [where I = "cache_sem E" and v = "lit_collector_visit k E",
        OF ms mg nok e0 _ _ fr])
    show "lc_tot (cache_sem E) (lit_collector_visit k E x) (sem_post E x)"
      if "x \<in> set (children E ?t0)" and "0 \<le> eval_in_model E x" for x
      using that by (intro sem_visit [OF ms mg] ch)
    show "0 \<le> eval_in_model E x"
      if "x \<in> set (children E ?t0)" and "is_boolean_term (terms E) x" for x
      using that by (intro ground_bool_eval [OF ms ch])
  qed
  have own: "lc_inv (\<lambda>c'. cache c' ?t0 = cache c ?t0)
      (visit_switch (lit_collector_visit k E) E ?t0)"
    by (rule switch_keeps_own) (rule ground_acyclic [OF g])
  obtain o2 c2 where s: "visit_switch (lit_collector_visit k E) E ?t0 c = (o2, c2)" by force
  from sw cs s obtain u' where o2: "o2 = Return u'" and I2: "cache_sem E c2"
    and p': "sem_post E ?t0 u'"
    by (cases o2) (auto simp: lc_tot_def lc_spec_def)
  from lc_invD [OF own, of c] s have own2: "cache c2 ?t0 = cache c ?t0" by simp
  have gu': "ndebug E \<or> good_term (terms E) u'" using p' by (simp add: sem_post_def)
  have gg: "ndebug E \<or> (good_term (terms E) ?t0 \<and> good_term (terms E) u')"
    using g0 gu' by blast
  have "lit_collector_visit (Suc k) E t c =
      (Return (u' XOR polarity_of t), c2\<lparr>cache := (cache c2)(?t0 \<mapsto> u')\<rparr>)"
    using unc g0 gg s o2 own2
    by (simp add: visit_Suc_eq find_cached_term_eq cache_result_eq)
  with s o2 p' I2 show ?thesis by blast
qed

lemma visit_false_disjuncts_eq:
  assumes ms: "model_sound E" and mg: "manager_sound E"
    and "\<And>x. x \<in> set xs \<Longrightarrow> ground E k x"
    and "\<And>x. x \<in> set xs \<Longrightarrow> is_boolean_term (terms E) x"
    and "\<And>x. x \<in> set xs \<Longrightarrow> \<not> holds E x"
    and "cache_sem E c"
  shows "\<exists>c2. visit_args (lit_collector_visit k E) xs c = (Return (map (\<lambda>_. false_term) xs), c2) \<and>
           visit_false_disjuncts (lit_collector_visit k E) E xs false_term c =
             (Return false_term, c2) \<and> cache_sem E c2"
  using assms(3-)
proof (induction xs arbitrary: c)
  case Nil
  then show ?case by (simp add: lc_return_def)
next
  case (Cons x xs)
  have gx: "ground E k x" and bx: "is_boolean_term (terms E) x" and fx: "\<not> holds E x"
    by (simp_all add: Cons.prems)
  have ex: "0 \<le> eval_in_model E x" by (rule ground_bool_eval [OF ms gx bx])
  from sem_visit_Return [OF ms mg gx ex Cons.prems(4)] obtain r c1
    where v: "lit_collector_visit k E x c = (Return r, c1)" and p: "sem_post E x r"
      and c1: "cache_sem E c1" by blast
  from p bx fx have r: "r = false_term" by (simp add: sem_post_def bool2term_def)
  have "\<exists>c2. visit_args (lit_collector_visit k E) xs c1 = (Return (map (\<lambda>_. false_term) xs), c2) \<and>
           visit_false_disjuncts (lit_collector_visit k E) E xs false_term c1 =
             (Return false_term, c2) \<and> cache_sem E c2"
    by (rule Cons.IH) (simp_all add: Cons.prems c1)
  then obtain c2 where
    a: "visit_args (lit_collector_visit k E) xs c1 = (Return (map (\<lambda>_. false_term) xs), c2)"
    and f: "visit_false_disjuncts (lit_collector_visit k E) E xs false_term c1 =
             (Return false_term, c2)" and c2: "cache_sem E c2" by blast
  show ?case
    using v r a f c2 by (simp add: lc_bind_def lc_return_def lc_assert_def)
qed

lemma first_true_index:
  assumes "list_ex P xs"
  shows "length (takeWhile (\<lambda>x. \<not> P x) xs) < length xs"
    and "P (xs ! length (takeWhile (\<lambda>x. \<not> P x) xs))"
    and "\<And>j. j < length (takeWhile (\<lambda>x. \<not> P x) xs) \<Longrightarrow> \<not> P (xs ! j)"
proof -
  from assms show l: "length (takeWhile (\<lambda>x. \<not> P x) xs) < length xs"
    by (induction xs) auto
  from nth_length_takeWhile [OF l] show "P (xs ! length (takeWhile (\<lambda>x. \<not> P x) xs))" by simp
  show "\<not> P (xs ! j)" if "j < length (takeWhile (\<lambda>x. \<not> P x) xs)" for j
    using that nth_mem [OF that] by (auto simp: takeWhile_nth dest: set_takeWhileD)
qed


text \<open>
  Claim C3. Under the same expectations as for claim C1, let the visitor process a
  disjunction (the unsigned form of \<open>t\<close> is an \<^verbatim>\<open>OR_TERM\<close> with the disjuncts \<open>d\<close>, not in
  the cache). If the disjunction is true in the model, there is a first disjunct
  \<open>d ! i\<close> that is true in the model: the visitor is called on it and on no other
  disjunct, this call returns \<^verbatim>\<open>true_term\<close>, and \<^verbatim>\<open>lit_collector_visit_or\<close> returns
  \<^verbatim>\<open>true_term\<close> in the very state \<open>c2\<close> that this one call leaves. So the literals and
  the cache entries after the visit are those that the visit of \<open>d ! i\<close> alone produces
  (plus the cache entry of the disjunction): a later disjunct contributes nothing
  that the visited one does not. If the disjunction is false in the model, the visitor
  is called on every disjunct, in order, as \<open>visit_args\<close> does; each call returns
  \<^verbatim>\<open>false_term\<close>, and so does \<^verbatim>\<open>lit_collector_visit_or\<close>, in the state that these calls
  leave. \<^verbatim>\<open>lit_collector_visit\<close> then caches the result and returns it with the polarity
  of \<open>t\<close>.
\<close>

theorem or_visit:
  assumes "model_sound E" and "manager_sound E"
    and "ground E (Suc k) t"
    and "term_kind (terms E) (unsigned_term t) = OR_TERM"
    and "composite_term_desc (terms E) (unsigned_term t) = d"
    and "cache_sem E c" and "cache c (unsigned_term t) = None"
  shows "if holds E (unsigned_term t)
         then \<exists>i c2. i < length d \<and> holds E (d ! i) \<and> (\<forall>j<i. \<not> holds E (d ! j)) \<and>
                lit_collector_visit k E (d ! i) c = (Return true_term, c2) \<and>
                lit_collector_visit_or (lit_collector_visit k E) E (unsigned_term t) d c =
                  (Return true_term, c2) \<and>
                lit_collector_visit (Suc k) E t c =
                  (Return (true_term XOR polarity_of t),
                   c2\<lparr>cache := (cache c2)(unsigned_term t \<mapsto> true_term)\<rparr>)
         else \<exists>c2. visit_args (lit_collector_visit k E) d c =
                  (Return (map (\<lambda>_. false_term) d), c2) \<and>
                lit_collector_visit_or (lit_collector_visit k E) E (unsigned_term t) d c =
                  (Return false_term, c2) \<and>
                lit_collector_visit (Suc k) E t c =
                  (Return (false_term XOR polarity_of t),
                   c2\<lparr>cache := (cache c2)(unsigned_term t \<mapsto> false_term)\<rparr>)"
proof -
  let ?t0 = "unsigned_term t"
  let ?v = "lit_collector_visit k E"
  note ms = assms(1) and mg = assms(2) and g = assms(3) and kind = assms(4) and d = assms(5)
    and cs = assms(6) and unc = assms(7)
  from g have nok: "node_ok E ?t0" and ch: "\<And>x. x \<in> set (children E ?t0) \<Longrightarrow> ground E k x"
    by (simp_all add: list_all_iff)
  from nok kind d have b0: "is_boolean_term (terms E) ?t0" and n: "ndebug E \<or> 0 < length d"
    and ab: "list_all (is_boolean_term (terms E)) d"
    and sem: "holds E ?t0 = list_ex (holds E) d"
    and e0: "0 \<le> eval_in_model E ?t0"
    by (simp_all add: node_ok_def Let_def)
  have chd: "children E ?t0 = d" using kind d by (simp add: children_def)
  have gx: "ground E k x" if "x \<in> set d" for x using ch that by (simp add: chd)
  have bx: "is_boolean_term (terms E) x" if "x \<in> set d" for x
    using ab that by (simp add: list_all_iff)
  have ex: "0 \<le> eval_in_model E x" if "x \<in> set d" for x
    by (rule ground_bool_eval [OF ms gx [OF that] bx [OF that]])
  have bt: "is_boolean_term (terms E) t"
    using b0 by (simp add: model_sound_bool_polarity [OF ms])
  have et: "0 \<le> eval_in_model E t" by (rule ground_bool_eval [OF ms g bt])
  from sem_visit_uncached [OF ms mg g et cs unc] obtain u c2
    where sw: "visit_switch ?v E ?t0 c = (Return u, c2)"
      and vis: "lit_collector_visit (Suc k) E t c =
             (Return (u XOR polarity_of t), c2\<lparr>cache := (cache c2)(?t0 \<mapsto> u)\<rparr>)"
    by blast
  have or: "lit_collector_visit_or ?v E ?t0 d c = (Return u, c2)"
    using sw kind d by (simp add: visit_switch_def)
  have tt: "term_is_true_in_model E ?t0 c = (Return (holds E ?t0), c)"
    by (rule term_is_true_eq) (simp_all add: b0 e0)
  show ?thesis
  proof (cases "holds E ?t0")
    case True
    let ?i = "length (takeWhile (\<lambda>x. \<not> holds E x) d)"
    from True sem have lx: "list_ex (holds E) d" by simp
    note i = first_true_index [OF lx]
    have f: "find_true_disjunct E d 0 c = (Return ?i, c)"
      using find_true_disjunct_eq [of d E 0 c] bx ex by simp
    have m: "d ! ?i \<in> set d" using i(1) by simp
    from sem_visit_Return [OF ms mg gx [OF m] ex [OF m] cs] obtain r c1
      where v: "?v (d ! ?i) c = (Return r, c1)" and p: "sem_post E (d ! ?i) r" by blast
    from p bx [OF m] i(2) have r: "r = true_term" by (simp add: sem_post_def bool2term_def)
    have "lit_collector_visit_or ?v E ?t0 d c = (Return true_term, c1)"
      using n tt True f i(1) v r
      by (simp add: lit_collector_visit_or_def Let_def lc_bind_def lc_assert_def lc_return_def
          composite_arg_def)
    with or have u: "u = true_term" "c1 = c2" by simp_all
    from i v r or vis u True show ?thesis by auto
  next
    case False
    with sem have fx: "\<not> holds E x" if "x \<in> set d" for x
      using that by (simp add: list_ex_iff)
    from visit_false_disjuncts_eq [OF ms mg gx bx fx cs] obtain c1
      where a: "visit_args ?v d c = (Return (map (\<lambda>_. false_term) d), c1)"
        and fd: "visit_false_disjuncts ?v E d false_term c = (Return false_term, c1)"
      by blast
    have "lit_collector_visit_or ?v E ?t0 d c = (Return false_term, c1)"
      using n tt False fd
      by (simp add: lit_collector_visit_or_def Let_def lc_bind_def lc_assert_def lc_return_def)
    with or have u: "u = false_term" "c1 = c2" by simp_all
    from a or vis u False show ?thesis by auto
  qed
qed

lemma ex_ground_or_true: "ground (ex_env nd) (Suc 2) 38"
  by (simp add: eval_nat_numeral ground_defs ex_defs term_defs Let_def)

lemma ex_ground_or_false: "ground (ex_env nd) (Suc 2) 34"
  by (simp add: eval_nat_numeral ground_defs ex_defs term_defs Let_def)

lemma ex_visit_or_short:
  "lit_collector_visit 3 (ex_env nd) 38 init_lit_collector =
     (Return true_term, \<lparr>cache = [4 \<mapsto> 2, 38 \<mapsto> 2], lit_set = [4], stack = []\<rparr>)"
  by (simp add: visit_numeral ex_defs lc_defs term_defs kind_defs init_lit_collector_def Let_def)

theorem or_visit_witness:
  "lit_collector_visit 3 (ex_env False) 38 init_lit_collector =
     (Return true_term, \<lparr>cache = [4 \<mapsto> 2, 38 \<mapsto> 2], lit_set = [4], stack = []\<rparr>) \<and>
   (\<exists>i c2. i < length [4, 36] \<and> holds (ex_env False) ([4, 36] ! i) \<and>
        (\<forall>j<i. \<not> holds (ex_env False) ([4, 36] ! j)) \<and>
        lit_collector_visit 2 (ex_env False) ([4, 36] ! i) init_lit_collector =
          (Return true_term, c2) \<and>
        lit_collector_visit_or (lit_collector_visit 2 (ex_env False)) (ex_env False) 38 [4, 36]
          init_lit_collector = (Return true_term, c2) \<and>
        lit_collector_visit (Suc 2) (ex_env False) 38 init_lit_collector =
          (Return true_term, c2\<lparr>cache := (cache c2)(38 \<mapsto> true_term)\<rparr>)) \<and>
   (\<exists>c2. visit_args (lit_collector_visit 2 (ex_env False)) [5, 6] init_lit_collector =
          (Return [false_term, false_term], c2) \<and>
        lit_collector_visit_or (lit_collector_visit 2 (ex_env False)) (ex_env False) 34 [5, 6]
          init_lit_collector = (Return false_term, c2) \<and>
        lit_collector_visit (Suc 2) (ex_env False) 34 init_lit_collector =
          (Return false_term, c2\<lparr>cache := (cache c2)(34 \<mapsto> false_term)\<rparr>))"
proof -
  have h: "holds (ex_env False) 38" "\<not> holds (ex_env False) 34"
    "term_kind (terms (ex_env False)) 38 = OR_TERM" "term_kind (terms (ex_env False)) 34 = OR_TERM"
    "composite_term_desc (terms (ex_env False)) 38 = [4, 36]"
    "composite_term_desc (terms (ex_env False)) 34 = [5, 6]"
    "unsigned_term 38 = 38" "unsigned_term 34 = 34" "polarity_of 38 = 0" "polarity_of 34 = 0"
    "cache init_lit_collector 38 = None" "cache init_lit_collector 34 = None"
    by (simp_all add: holds_def ex_defs term_defs init_lit_collector_def)
  show ?thesis
    using or_visit [where E = "ex_env False" and k = 2 and t = 38 and c = init_lit_collector
        and d = "[4, 36]"]
      or_visit [where E = "ex_env False" and k = 2 and t = 34 and c = init_lit_collector
        and d = "[5, 6]"]
      ex_model_sound [of False] ex_manager_sound [of False] ex_ground_or_true [of False]
      ex_ground_or_false [of False] cache_sem_init [of "ex_env False"] h
      ex_visit_or_short [of False]
    by simp
qed


end
